(* ===== verification/Prelude.thy ===== *)
theory Prelude
  imports Main "HOL-Library.Word" "HOL-Library.List_Lexorder"
begin

text \<open>
  Shared vocabulary of the development: Rust results and panics as one \<open>outcome\<close> type,
  \<open>u64\<close>/\<open>usize\<close> arithmetic of a release build (wrap-around), \<open>as u32\<close> casts,
  indexing that panics out of range, and \<open>std::collections::BTreeMap\<close> as an association
  list in strictly ascending key order, together with the locale that states its contract.
\<close>

named_theorems outcome_simps \<open>rewriting of outcomes and their combinators\<close>
named_theorems u64_simps \<open>wrap-around arithmetic inside the representable range\<close>

section \<open>Outcomes: \<open>Result\<close> and panics\<close>

text \<open>A call returns \<open>Ok\<close>, returns \<open>Err\<close>, or panics (index out of range, failed assertion).\<close>

datatype ('a, 'e) outcome = Ok 'a | Err 'e | Panic

fun obind :: "('a, 'e) outcome \<Rightarrow> ('a \<Rightarrow> ('b, 'e) outcome) \<Rightarrow> ('b, 'e) outcome" where
  "obind (Ok x) f = f x"
| "obind (Err e) f = Err e"
| "obind Panic f = Panic"

fun map_err :: "('e \<Rightarrow> 'f) \<Rightarrow> ('a, 'e) outcome \<Rightarrow> ('a, 'f) outcome" where
  "map_err g (Ok x) = Ok x"
| "map_err g (Err e) = Err (g e)"
| "map_err g Panic = Panic"

fun is_ok :: "('a, 'e) outcome \<Rightarrow> bool" where
  "is_ok (Ok x) = True"
| "is_ok _ = False"

text \<open>\<open>xs[i]\<close> on a slice or \<open>Vec\<close>.\<close>

definition fetch :: "'a list \<Rightarrow> nat \<Rightarrow> ('a, 'e) outcome" where
  "fetch xs i = (if i < length xs then Ok (xs ! i) else Panic)"

lemma obind_eq_Ok [outcome_simps]:
  "obind r f = Ok y \<longleftrightarrow> (\<exists>x. r = Ok x \<and> f x = Ok y)"
  by (cases r) auto

lemma obind_eq_Err [outcome_simps]:
  "obind r f = Err e \<longleftrightarrow> r = Err e \<or> (\<exists>x. r = Ok x \<and> f x = Err e)"
  by (cases r) auto

lemma obind_eq_Panic [outcome_simps]:
  "obind r f = Panic \<longleftrightarrow> r = Panic \<or> (\<exists>x. r = Ok x \<and> f x = Panic)"
  by (cases r) auto

lemma map_err_eq_Ok [outcome_simps]: "map_err g r = Ok x \<longleftrightarrow> r = Ok x"
  by (cases r) auto

lemma fetch_in_range [simp]: "i < length xs \<Longrightarrow> fetch xs i = Ok (xs ! i)"
  by (simp add: fetch_def)

lemma fetch_eq_Ok [outcome_simps]: "fetch xs i = Ok x \<longleftrightarrow> i < length xs \<and> x = xs ! i"
  by (auto simp: fetch_def)

lemma fetch_eq_Err [simp]: "fetch xs i \<noteq> Err e"
  by (simp add: fetch_def)

section \<open>Fixed-width integers\<close>

type_synonym u8 = "8 word"

text \<open>\<open>u64\<close> and \<open>usize\<close> (64-bit targets) are naturals below \<open>u64_lim\<close>.\<close>

definition u64_lim :: nat where
  "u64_lim = 2 ^ 64"

definition u32_lim :: nat where
  "u32_lim = 2 ^ 32"

definition u64_add :: "nat \<Rightarrow> nat \<Rightarrow> nat" where
  "u64_add a b = (a + b) mod u64_lim"

definition u64_sub :: "nat \<Rightarrow> nat \<Rightarrow> nat" where
  "u64_sub a b = (a + u64_lim - b) mod u64_lim"

definition u64_mul :: "nat \<Rightarrow> nat \<Rightarrow> nat" where
  "u64_mul a b = (a * b) mod u64_lim"

definition as_u32 :: "nat \<Rightarrow> nat" where
  "as_u32 n = n mod u32_lim"

text \<open>Integer division panics on a zero divisor.\<close>

definition u64_div :: "nat \<Rightarrow> nat \<Rightarrow> (nat, 'e) outcome" where
  "u64_div a b = (if b = 0 then Panic else Ok (a div b))"

lemma u64_lim_pos [simp]: "0 < u64_lim" and u32_lim_pos [simp]: "0 < u32_lim"
  by (simp_all add: u64_lim_def u32_lim_def)

lemma one_less_u64_lim [simp]: "Suc 0 < u64_lim"
  by (simp add: u64_lim_def)

lemma u64_add_small [u64_simps]: "a + b < u64_lim \<Longrightarrow> u64_add a b = a + b"
  by (simp add: u64_add_def)

lemma u64_sub_small [u64_simps]: "b \<le> a \<Longrightarrow> a < u64_lim \<Longrightarrow> u64_sub a b = a - b"
proof -
  assume "b \<le> a" and "a < u64_lim"
  then have "a + u64_lim - b = (a - b) + u64_lim" by simp
  then have "u64_sub a b = (a - b) mod u64_lim" by (simp add: u64_sub_def)
  then show ?thesis using \<open>a < u64_lim\<close> by simp
qed

lemma u64_sub_wraps: "a < b \<Longrightarrow> b < u64_lim \<Longrightarrow> u64_sub a b = u64_lim - (b - a)"
  by (simp add: u64_sub_def)

lemma u64_mul_small [u64_simps]: "a * b < u64_lim \<Longrightarrow> u64_mul a b = a * b"
  by (simp add: u64_mul_def)

lemma u64_add_lt [simp]: "u64_add a b < u64_lim" and u64_sub_lt [simp]: "u64_sub a b < u64_lim"
  and u64_mul_lt [simp]: "u64_mul a b < u64_lim"
  by (simp_all add: u64_add_def u64_sub_def u64_mul_def)

lemma as_u32_small [u64_simps]: "n < u32_lim \<Longrightarrow> as_u32 n = n"
  by (simp add: as_u32_def)

lemma u64_div_eq_Ok [outcome_simps]: "u64_div a b = Ok c \<longleftrightarrow> b \<noteq> 0 \<and> c = a div b"
  by (auto simp: u64_div_def)

lemma u64_div_pos [simp]: "0 < b \<Longrightarrow> u64_div a b = Ok (a div b)"
  by (simp add: u64_div_def)

section \<open>\<open>BTreeMap\<close>\<close>

type_synonym ('k, 'v) btree_map = "('k \<times> 'v) list"

definition bt_ok :: "('k :: linorder, 'v) btree_map \<Rightarrow> bool" where
  "bt_ok m \<longleftrightarrow> sorted_wrt (<) (map fst m)"

fun bt_insert :: "'k :: linorder \<Rightarrow> 'v \<Rightarrow> ('k, 'v) btree_map \<Rightarrow> ('k, 'v) btree_map" where
  "bt_insert k v [] = [(k, v)]"
| "bt_insert k v (e # m) =
     (if fst e < k then e # bt_insert k v m
      else if fst e = k then (k, v) # m
      else (k, v) # e # m)"

definition bt_remove :: "'k \<Rightarrow> ('k, 'v) btree_map \<Rightarrow> ('k, 'v) btree_map" where
  "bt_remove k m = filter (\<lambda>e. fst e \<noteq> k) m"

definition bt_get :: "('k, 'v) btree_map \<Rightarrow> 'k \<Rightarrow> 'v option" where
  "bt_get m k = map_of m k"

definition bt_keys :: "('k, 'v) btree_map \<Rightarrow> 'k list" where
  "bt_keys m = map fst m"

text \<open>\<open>m.get(k).cloned().unwrap_or_default()\<close> and \<open>m.entry(k).or_default()\<close>.\<close>

definition bt_get_or :: "'v \<Rightarrow> ('k, 'v) btree_map \<Rightarrow> 'k \<Rightarrow> 'v" where
  "bt_get_or d m k = (case bt_get m k of Some v \<Rightarrow> v | None \<Rightarrow> d)"

definition bt_entry ::
  "'v \<Rightarrow> 'k :: linorder \<Rightarrow> ('v \<Rightarrow> 'v) \<Rightarrow> ('k, 'v) btree_map \<Rightarrow> ('k, 'v) btree_map" where
  "bt_entry d k f m = bt_insert k (f (bt_get_or d m k)) m"

text \<open>The contract of an ordered map: what lookups see after an update, and iteration order.\<close>

locale ordered_map =
  fixes empty_map :: "'m"
    and insert_map :: "'k :: linorder \<Rightarrow> 'v \<Rightarrow> 'm \<Rightarrow> 'm"
    and remove_map :: "'k \<Rightarrow> 'm \<Rightarrow> 'm"
    and get_map :: "'m \<Rightarrow> 'k \<Rightarrow> 'v option"
    and keys_map :: "'m \<Rightarrow> 'k list"
    and ok_map :: "'m \<Rightarrow> bool"
  assumes ok_empty: "ok_map empty_map"
    and ok_insert: "ok_map m \<Longrightarrow> ok_map (insert_map k v m)"
    and ok_remove: "ok_map m \<Longrightarrow> ok_map (remove_map k m)"
    and get_empty: "get_map empty_map k = None"
    and get_insert: "ok_map m \<Longrightarrow>
      get_map (insert_map k v m) k' = (if k' = k then Some v else get_map m k')"
    and get_remove: "ok_map m \<Longrightarrow>
      get_map (remove_map k m) k' = (if k' = k then None else get_map m k')"
    and keys_sorted: "ok_map m \<Longrightarrow> sorted_wrt (<) (keys_map m)"
    and set_keys: "ok_map m \<Longrightarrow> set (keys_map m) = {k. get_map m k \<noteq> None}"
begin

lemma keys_insert: "ok_map m \<Longrightarrow> set (keys_map (insert_map k v m)) = insert k (set (keys_map m))"
  by (auto simp: set_keys ok_insert get_insert)

lemma keys_remove: "ok_map m \<Longrightarrow> set (keys_map (remove_map k m)) = set (keys_map m) - {k}"
  by (auto simp: set_keys ok_remove get_remove)

lemma insert_twice: "ok_map m \<Longrightarrow>
    get_map (insert_map k v (insert_map k w m)) k' = get_map (insert_map k v m) k'"
  by (simp add: get_insert ok_insert)

end

lemma bt_ok_Nil [simp]: "bt_ok []"
  by (simp add: bt_ok_def)

lemma bt_ok_Cons: "bt_ok (e # m) \<longleftrightarrow> (\<forall>x \<in> set m. fst e < fst x) \<and> bt_ok m"
  by (auto simp: bt_ok_def)

lemma set_bt_insert_keys: "fst ` set (bt_insert k v m) = insert k (fst ` set m)"
  by (induction m) auto

lemma bt_ok_insert [simp]: "bt_ok m \<Longrightarrow> bt_ok (bt_insert k v m)"
proof (induction m)
  case Nil
  then show ?case by (simp add: bt_ok_def)
next
  case (Cons e m)
  have "\<forall>x \<in> set (bt_insert k v m). fst x = k \<or> fst x \<in> fst ` set m"
    using set_bt_insert_keys [of k v m] by (metis image_eqI insert_iff)
  with Cons show ?case by (fastforce simp: bt_ok_Cons)
qed

lemma bt_ok_remove [simp]: "bt_ok m \<Longrightarrow> bt_ok (bt_remove k m)"
  by (induction m) (auto simp: bt_ok_Cons bt_remove_def)

lemma bt_get_Nil [simp]: "bt_get [] k = None"
  by (simp add: bt_get_def)

lemma bt_get_insert [simp]: "bt_ok m \<Longrightarrow>
    bt_get (bt_insert k v m) k' = (if k' = k then Some v else bt_get m k')"
  by (induction m) (auto simp: bt_ok_Cons bt_get_def)

lemma bt_get_remove [simp]:
    "bt_get (bt_remove k m) k' = (if k' = k then None else bt_get m k')"
  by (induction m) (auto simp: bt_remove_def bt_get_def)

lemma bt_keys_sorted: "bt_ok m \<Longrightarrow> sorted_wrt (<) (bt_keys m)"
  by (simp add: bt_ok_def bt_keys_def)

lemma set_bt_keys: "set (bt_keys m) = {k. bt_get m k \<noteq> None}"
  by (auto simp: bt_keys_def bt_get_def map_of_eq_None_iff)

interpretation bt: ordered_map "[]" bt_insert bt_remove bt_get bt_keys bt_ok
  by unfold_locales (simp_all add: bt_keys_sorted set_bt_keys)

lemma bt_get_iff_mem: "bt_ok m \<Longrightarrow> bt_get m k = Some v \<longleftrightarrow> (k, v) \<in> set m"
proof -
  assume "bt_ok m"
  then have "distinct (map fst m)"
    by (metis bt_ok_def strict_sorted_iff)
  then show ?thesis by (simp add: bt_get_def)
qed

lemma bt_get_or_insert [simp]: "bt_ok m \<Longrightarrow>
    bt_get_or d (bt_insert k v m) k' = (if k' = k then v else bt_get_or d m k')"
  by (simp add: bt_get_or_def)

lemma bt_get_entry [simp]: "bt_ok m \<Longrightarrow>
    bt_get (bt_entry d k f m) k' = (if k' = k then Some (f (bt_get_or d m k)) else bt_get m k')"
  by (simp add: bt_entry_def)

lemma bt_ok_entry [simp]: "bt_ok m \<Longrightarrow> bt_ok (bt_entry d k f m)"
  by (simp add: bt_entry_def)

text \<open>A key above every stored key is appended: how the code's ascending loops build a map.\<close>

lemma bt_insert_snoc: "(\<forall>e \<in> set m. fst e < k) \<Longrightarrow> bt_insert k v m = m @ [(k, v)]"
  by (induction m) auto

text \<open>Two ordered maps with the same lookups are the same list.\<close>

lemma bt_ext:
  assumes "bt_ok m" and "bt_ok m'" and "\<And>k. bt_get m k = bt_get m' k"
  shows "m = m'"
  using assms
proof (induction m arbitrary: m')
  case Nil
  then show ?case
    by (cases m') (auto simp: bt_get_def split: if_splits dest: meta_spec)
next
  case (Cons e m)
  have "set (bt_keys (e # m)) = set (bt_keys m')"
    using Cons.prems(3) by (simp add: set_bt_keys)
  moreover have "sorted_wrt (<) (bt_keys (e # m))" "sorted_wrt (<) (bt_keys m')"
    using Cons.prems(1,2) by (simp_all add: bt_keys_sorted)
  ultimately have keys: "bt_keys (e # m) = bt_keys m'"
    by (metis strict_sorted_equal)
  then obtain e' n where m': "m' = e' # n" and fste: "fst e' = fst e"
    by (cases m') (auto simp: bt_keys_def)
  have "snd e' = snd e"
    using Cons.prems(3) [of "fst e"] fste by (cases e; cases e') (simp add: m' bt_get_def)
  then have e': "e' = e" using fste by (simp add: prod_eq_iff)
  have "bt_get m k = bt_get n k" for k
  proof (cases "k = fst e")
    case True
    have "fst e \<notin> set (bt_keys m)" and "fst e \<notin> set (bt_keys n)"
      using Cons.prems(1,2) by (auto simp: m' e' bt_ok_Cons bt_keys_def)
    then show ?thesis by (simp add: True set_bt_keys)
  next
    case False
    then show ?thesis
      using Cons.prems(3) [of k] by (cases e) (simp add: m' e' bt_get_def)
  qed
  moreover have "bt_ok m" and "bt_ok n"
    using Cons.prems(1,2) by (simp_all add: m' e' bt_ok_Cons)
  ultimately have "m = n" using Cons.IH by blast
  then show ?case by (simp add: m' e')
qed

section \<open>Lists\<close>

lemma upt_Cons_length: "[a..<a + length (x # xs)] = a # [Suc a..<Suc a + length xs]"
  by (simp add: upt_conv_Cons del: upt_Suc)

lemma last_take: "n < length xs \<Longrightarrow> last (take (Suc n) xs) = xs ! n"
  by (simp add: take_Suc_conv_app_nth)

lemma nth_eq_last: "xs \<noteq> [] \<Longrightarrow> xs ! (length xs - 1) = last xs"
  by (simp add: last_conv_nth)

end
