(* ===== verification/Cursor.thy ===== *)
theory Cursor
  imports Prelude
begin

text \<open>
  Block hashes and cursors: \<open>common/src/core.rs\<close>. A cursor is a block number with an
  arbitrary-length hash; hashes are ordered lexicographically because they are keys of the
  reorg maps. The theory characterises \<open>is_equivalent\<close> as equality up to leading zero bytes.
\<close>

section \<open>Hash\<close>

datatype hash = Hash (hash_bytes: "u8 list")

text \<open>\<open>derive(PartialOrd, Ord)\<close> on a newtype over \<open>Vec<u8>\<close>: lexicographic order.\<close>

instantiation hash :: linorder
begin

definition less_eq_hash :: "hash \<Rightarrow> hash \<Rightarrow> bool" where
  "less_eq_hash a b \<longleftrightarrow> hash_bytes a \<le> hash_bytes b"

definition less_hash :: "hash \<Rightarrow> hash \<Rightarrow> bool" where
  "less_hash a b \<longleftrightarrow> hash_bytes a < hash_bytes b"

instance
  by standard (auto simp: less_eq_hash_def less_hash_def hash.expand)

end

text \<open>\<open>Hash::default()\<close>.\<close>

definition default_hash :: hash where
  "default_hash = Hash []"

definition hash_len :: "hash \<Rightarrow> nat" where
  "hash_len h = length (hash_bytes h)"

definition hash_is_empty :: "hash \<Rightarrow> bool" where
  "hash_is_empty h = (hash_bytes h = [])"

definition hash_is_zero :: "hash \<Rightarrow> bool" where
  "hash_is_zero h = list_all (\<lambda>b. b = 0) (hash_bytes h)"

text \<open>\<open>Display for Hash\<close>; \<open>hex_encode\<close> is the encoder of the \<open>hex\<close> crate.\<close>

definition hash_display :: "(u8 list \<Rightarrow> string) \<Rightarrow> hash \<Rightarrow> string" where
  "hash_display hex_encode h =
     (if hash_bytes h = [] then ''0x0'' else ''0x'' @ hex_encode (hash_bytes h))"

section \<open>Cursor\<close>

record cursor =
  cur_number :: nat
  cur_hash :: hash

definition mk_cursor :: "nat \<Rightarrow> hash \<Rightarrow> cursor" where
  "mk_cursor n h = \<lparr>cur_number = n, cur_hash = h\<rparr>"

definition new_finalized :: "nat \<Rightarrow> cursor" where
  "new_finalized n = \<lparr>cur_number = n, cur_hash = default_hash\<rparr>"

definition new_pending :: "nat \<Rightarrow> cursor" where
  "new_pending n = \<lparr>cur_number = n, cur_hash = default_hash\<rparr>"

definition strict_before :: "cursor \<Rightarrow> cursor \<Rightarrow> bool" where
  "strict_before a b = (cur_number a < cur_number b)"

definition strict_after :: "cursor \<Rightarrow> cursor \<Rightarrow> bool" where
  "strict_after a b = (cur_number a > cur_number b)"

definition is_equivalent :: "cursor \<Rightarrow> cursor \<Rightarrow> bool" where
  "is_equivalent a b =
     (if cur_number a \<noteq> cur_number b then False
      else if hash_is_empty (cur_hash a) \<or> hash_is_empty (cur_hash b) then True
      else if hash_len (cur_hash a) = hash_len (cur_hash b) then cur_hash a = cur_hash b
      else
        let min_len = min (hash_len (cur_hash a)) (hash_len (cur_hash b));
            prefix = drop (hash_len (cur_hash a) - min_len) (hash_bytes (cur_hash a));
            other_prefix = drop (hash_len (cur_hash b) - min_len) (hash_bytes (cur_hash b))
        in if hash_len (cur_hash a) > hash_len (cur_hash b)
           then let len_diff = hash_len (cur_hash a) - hash_len (cur_hash b)
                in other_prefix = prefix \<and> take len_diff (hash_bytes (cur_hash a)) = replicate len_diff 0
           else let len_diff = hash_len (cur_hash b) - hash_len (cur_hash a)
                in prefix = other_prefix \<and> take len_diff (hash_bytes (cur_hash b)) = replicate len_diff 0)"

text \<open>The protocol's cursor (\<open>dna.stream.Cursor\<close>) and the conversions to and from it.\<close>

record dna_cursor =
  order_key :: nat
  unique_key :: "u8 list"

definition cursor_to_dna :: "cursor \<Rightarrow> dna_cursor" where
  "cursor_to_dna c = \<lparr>order_key = cur_number c, unique_key = hash_bytes (cur_hash c)\<rparr>"

definition cursor_of_dna :: "dna_cursor \<Rightarrow> cursor" where
  "cursor_of_dna d = \<lparr>cur_number = order_key d, cur_hash = Hash (unique_key d)\<rparr>"

text \<open>\<open>Display for Cursor\<close>: decimal number, a slash, the hash in hex.\<close>

fun show_nat :: "nat \<Rightarrow> string" where
  "show_nat n = (if n < 10 then [char_of (48 + n)]
                 else show_nat (n div 10) @ [char_of (48 + n mod 10)])"

declare show_nat.simps [simp del]

definition cursor_display :: "(u8 list \<Rightarrow> string) \<Rightarrow> cursor \<Rightarrow> string" where
  "cursor_display hex_encode c =
     show_nat (cur_number c) @ ''/'' @ hash_display hex_encode (cur_hash c)"

lemma cursor_eqI:
  "cur_number (a :: cursor) = cur_number b \<Longrightarrow> cur_hash a = cur_hash b \<Longrightarrow> a = b"
  by simp

lemma mk_cursor_sel [simp]: "cur_number (mk_cursor n h) = n" "cur_hash (mk_cursor n h) = h"
  by (simp_all add: mk_cursor_def)

lemma mk_cursor_inject [simp]: "mk_cursor n h = mk_cursor n' h' \<longleftrightarrow> n = n' \<and> h = h'"
  by (simp add: mk_cursor_def)

lemma mk_cursor_collapse [simp]: "mk_cursor (cur_number c) (cur_hash c) = c"
  by (simp add: mk_cursor_def)

lemma default_hash_zero [simp]: "hash_is_zero default_hash"
  by (simp add: hash_is_zero_def default_hash_def)

section \<open>Equivalence of cursors\<close>

text \<open>The bytes of a hash without its leading zeros: its value as a big-endian number.\<close>

definition significant :: "hash \<Rightarrow> u8 list" where
  "significant h = dropWhile (\<lambda>b. b = 0) (hash_bytes h)"

lemma dropWhile_zeros_replicate:
  "dropWhile (\<lambda>b. b = (0 :: u8)) (replicate n 0 @ xs) = dropWhile (\<lambda>b. b = 0) xs"
  by (induction n) simp_all

lemma leading_zeros_decomp:
  "\<exists>n. xs = replicate n (0 :: u8) @ dropWhile (\<lambda>b. b = 0) xs"
proof -
  have "xs = takeWhile (\<lambda>b. b = 0) xs @ dropWhile (\<lambda>b. b = 0) xs" by simp
  moreover have "takeWhile (\<lambda>b. b = 0) xs = replicate (length (takeWhile (\<lambda>b. b = 0) xs)) 0"
    by (rule replicate_eqI) (auto dest: set_takeWhileD)
  ultimately show ?thesis by metis
qed

lemma significant_eq_longer:
  assumes "length ys \<le> length xs"
  shows "dropWhile (\<lambda>b. b = (0 :: u8)) xs = dropWhile (\<lambda>b. b = 0) ys \<longleftrightarrow>
    drop (length xs - length ys) xs = ys \<and>
    take (length xs - length ys) xs = replicate (length xs - length ys) 0" (is "?L \<longleftrightarrow> ?R")
proof
  assume R: ?R
  then have "xs = replicate (length xs - length ys) 0 @ ys"
    by (metis append_take_drop_id)
  then show ?L by (metis dropWhile_zeros_replicate)
next
  assume L: ?L
  obtain n where n: "xs = replicate n 0 @ dropWhile (\<lambda>b. b = 0) xs"
    using leading_zeros_decomp by blast
  obtain m where m: "ys = replicate m 0 @ dropWhile (\<lambda>b. b = 0) ys"
    using leading_zeros_decomp by blast
  define s where "s = dropWhile (\<lambda>b. b = (0 :: u8)) ys"
  have xs: "xs = replicate n 0 @ s" and ys: "ys = replicate m 0 @ s"
    using n m L by (simp_all add: s_def)
  then have "m \<le> n" using assms by simp
  then have "xs = replicate (n - m) 0 @ ys"
    by (simp add: xs ys flip: append_assoc replicate_add)
  moreover have "length xs - length ys = n - m"
    by (simp add: xs ys)
  ultimately show ?R by simp
qed

lemma is_equivalent_iff:
  "is_equivalent a b \<longleftrightarrow> cur_number a = cur_number b \<and>
     (hash_is_empty (cur_hash a) \<or> hash_is_empty (cur_hash b) \<or>
      significant (cur_hash a) = significant (cur_hash b))"
proof (cases "cur_number a = cur_number b \<and> \<not> hash_is_empty (cur_hash a) \<and> \<not> hash_is_empty (cur_hash b)")
  case False
  then show ?thesis by (auto simp: is_equivalent_def)
next
  case True
  define xs where "xs = hash_bytes (cur_hash a)"
  define ys where "ys = hash_bytes (cur_hash b)"
  consider "length xs = length ys" | "length xs > length ys" | "length xs < length ys"
    by linarith
  then show ?thesis
  proof cases
    case 1
    then show ?thesis
      using True significant_eq_longer [of ys xs]
      by (simp add: is_equivalent_def hash_len_def significant_def hash.expand
          flip: xs_def ys_def) (metis hash.expand xs_def ys_def)
  next
    case 2
    then show ?thesis
      using True significant_eq_longer [of ys xs]
      by (auto simp: is_equivalent_def hash_len_def significant_def Let_def min_def
          simp flip: xs_def ys_def)
  next
    case 3
    then show ?thesis
      using True significant_eq_longer [of xs ys]
      by (auto simp: is_equivalent_def hash_len_def significant_def Let_def min_def
          simp flip: xs_def ys_def)
  qed
qed

text \<open>C21: Two cursors are equivalent exactly when their numbers agree and either one of the
  hashes is absent or both hashes are the same byte string up to leading zeros. In particular
  the relation is reflexive and symmetric.\<close>

theorem is_equivalent_spec:
  "(is_equivalent a b \<longleftrightarrow> cur_number a = cur_number b \<and>
      (hash_is_empty (cur_hash a) \<or> hash_is_empty (cur_hash b) \<or>
       significant (cur_hash a) = significant (cur_hash b)))
   \<and> is_equivalent a a \<and> is_equivalent a b = is_equivalent b a"
  by (auto simp: is_equivalent_iff)

lemma cursor_dna_roundtrip [simp]: "cursor_of_dna (cursor_to_dna c) = c"
  by (simp add: cursor_of_dna_def cursor_to_dna_def)

lemma dna_cursor_roundtrip [simp]: "cursor_to_dna (cursor_of_dna d) = d"
  by (simp add: cursor_of_dna_def cursor_to_dna_def)

end
