(* ===== verification/Chain.thy ===== *)
theory Chain
  imports Cursor
begin

text \<open>
  The canonical chain builder and chain segments: \<open>common/src/chain.rs\<close>. The builder keeps the
  hashes of the most recent canonical blocks together with, for every block that was reorged
  away, the cursor of the common ancestor a client has to go back to. This theory holds the
  definitions; their correctness is in the theory \<open>ChainInv\<close>.
\<close>

section \<open>Data\<close>

record block_info =
  bi_number :: nat
  bi_hash :: hash
  bi_parent :: hash

record pending_block_info =
  pbi_number :: nat
  pbi_generation :: nat
  pbi_parent :: hash

definition block_cursor :: "block_info \<Rightarrow> cursor" where
  "block_cursor b = \<lparr>cur_number = bi_number b, cur_hash = bi_hash b\<rparr>"

definition parent_cursor :: "block_info \<Rightarrow> cursor option" where
  "parent_cursor b =
     (if bi_number b = 0 then None
      else Some \<lparr>cur_number = u64_sub (bi_number b) 1, cur_hash = bi_parent b\<rparr>)"

definition pending_parent_cursor :: "pending_block_info \<Rightarrow> cursor option" where
  "pending_parent_cursor b =
     (if pbi_number b = 0 then None
      else Some \<lparr>cur_number = u64_sub (pbi_number b) 1, cur_hash = pbi_parent b\<rparr>)"

datatype reconnect_action = Continue | OfflineReorg cursor | Unknown

type_synonym reorg_map = "(hash, cursor) btree_map"

record canonical_block =
  cb_hash :: hash
  cb_reorgs :: reorg_map

record extra_reorg =
  er_block_number :: nat
  er_reorgs :: reorg_map

record segment_info =
  first_block :: cursor
  last_block :: cursor

record chain_segment =
  cs_previous_segment :: "segment_info option"
  cs_info :: segment_info
  cs_canonical :: "canonical_block list"
  cs_extra_reorgs :: "extra_reorg list"

datatype chain_error = BuilderError | ViewError

text \<open>The fields of the variant \<open>CanonicalChainBuilder::Building\<close>.\<close>

record building =
  bd_previous_segment :: "segment_info option"
  bd_info :: segment_info
  bd_canonical :: "hash list"
  bd_reorgs :: "(nat, reorg_map) btree_map"

datatype chain_builder = Empty | Building building

section \<open>The builder\<close>

definition builder_new :: chain_builder where
  "builder_new = Empty"

text \<open>The loop of \<open>restore_from_segment\<close>; \<open>off\<close> is the index yielded by \<open>enumerate\<close>.\<close>

fun restore_loop ::
  "nat \<Rightarrow> nat \<Rightarrow> canonical_block list \<Rightarrow> hash list \<Rightarrow> (nat, reorg_map) btree_map
    \<Rightarrow> hash list \<times> (nat, reorg_map) btree_map" where
  "restore_loop first off [] canonical reorgs = (canonical, reorgs)"
| "restore_loop first off (b # bs) canonical reorgs =
     restore_loop first (Suc off) bs (canonical @ [cb_hash b])
       (bt_insert (u64_add first off) (cb_reorgs b) reorgs)"

definition restore_from_segment :: "chain_segment \<Rightarrow> (chain_builder, chain_error) outcome" where
  "restore_from_segment seg =
     (let info = cs_info seg;
          (canonical, reorgs) =
            restore_loop (cur_number (first_block info)) 0 (cs_canonical seg) [] []
      in Ok (Building \<lparr>bd_previous_segment = cs_previous_segment seg, bd_info = info,
                       bd_canonical = canonical, bd_reorgs = reorgs\<rparr>))"

fun builder_info :: "chain_builder \<Rightarrow> segment_info option" where
  "builder_info Empty = None"
| "builder_info (Building b) = Some (bd_info b)"

fun segment_size :: "chain_builder \<Rightarrow> nat" where
  "segment_size Empty = 0"
| "segment_size (Building b) = length (bd_canonical b)"

fun can_grow :: "chain_builder \<Rightarrow> block_info \<Rightarrow> bool" where
  "can_grow Empty block = True"
| "can_grow (Building b) block =
     (let last = last_block (bd_info b) in
      if hash_is_zero (cur_hash last) then True
      else u64_add (cur_number last) 1 = bi_number block \<and> cur_hash last = bi_parent block)"

definition grow :: "chain_builder \<Rightarrow> block_info \<Rightarrow> (chain_builder, chain_error) outcome" where
  "grow builder block =
     (if \<not> can_grow builder block then Err BuilderError
      else case builder of
        Empty \<Rightarrow>
          Ok (Building \<lparr>bd_previous_segment = None,
                        bd_info = \<lparr>first_block = block_cursor block, last_block = block_cursor block\<rparr>,
                        bd_canonical = [bi_hash block], bd_reorgs = []\<rparr>)
      | Building b \<Rightarrow>
          Ok (Building (b\<lparr>bd_info := (bd_info b)\<lparr>last_block := block_cursor block\<rparr>,
                          bd_canonical := bd_canonical b @ [bi_hash block]\<rparr>)))"

text \<open>The loop of \<open>shrink\<close> over the hashes to remove; \<open>n\<close> is the index of the first of them.\<close>

fun shrink_loop ::
  "nat \<Rightarrow> cursor \<Rightarrow> nat \<Rightarrow> hash list \<Rightarrow> cursor list \<Rightarrow> (nat, reorg_map) btree_map
    \<Rightarrow> cursor list \<times> (nat, reorg_map) btree_map" where
  "shrink_loop first new_head n [] removed reorgs = (removed, reorgs)"
| "shrink_loop first new_head n (h # hs) removed reorgs =
     (let block_number = u64_add first n in
      shrink_loop first new_head (Suc n) hs
        (removed @ [\<lparr>cur_number = block_number, cur_hash = h\<rparr>])
        (bt_entry [] block_number (bt_insert h new_head) reorgs))"

definition shrink ::
  "chain_builder \<Rightarrow> cursor \<Rightarrow> (cursor list \<times> chain_builder, chain_error) outcome" where
  "shrink builder new_head = (case builder of
     Empty \<Rightarrow> Err BuilderError
   | Building b \<Rightarrow>
      (let info = bd_info b; canonical = bd_canonical b;
           first = cur_number (first_block info) in
       if cur_number new_head < first then Err BuilderError
       else if cur_number new_head > cur_number (last_block info) then Err BuilderError
       else
        let new_head_index = u64_sub (cur_number new_head) first in
        if new_head_index \<ge> length canonical \<or> canonical ! new_head_index \<noteq> cur_hash new_head
        then Err BuilderError
        else if new_head_index = length canonical - 1 then Ok ([], builder)
        else
          let (removed, reorgs) =
                shrink_loop first new_head (new_head_index + 1)
                  (drop (new_head_index + 1) canonical) [] (bd_reorgs b);
              b' = b\<lparr>bd_info := info\<lparr>last_block := new_head\<rparr>,
                     bd_canonical := take (new_head_index + 1) canonical,
                     bd_reorgs := reorgs\<rparr>
          in if length (bd_canonical b') = u64_add (u64_sub (cur_number new_head) first) 1
             then Ok (removed, Building b') else Panic))"

text \<open>The blocks of \<open>current_segment\<close>, with the reorgs recorded at their number.\<close>

fun segment_blocks ::
  "nat \<Rightarrow> nat \<Rightarrow> hash list \<Rightarrow> (nat, reorg_map) btree_map \<Rightarrow> canonical_block list" where
  "segment_blocks first off [] reorgs = []"
| "segment_blocks first off (h # hs) reorgs =
     \<lparr>cb_hash = h, cb_reorgs = bt_get_or [] reorgs (u64_add first off)\<rparr>
       # segment_blocks first (Suc off) hs reorgs"

definition extra_reorgs :: "nat \<Rightarrow> (nat, reorg_map) btree_map \<Rightarrow> extra_reorg list" where
  "extra_reorgs last_number reorgs =
     map (\<lambda>(n, r). \<lparr>er_block_number = n, er_reorgs = r\<rparr>)
       (filter (\<lambda>(n, r). n > last_number) reorgs)"

definition current_segment :: "chain_builder \<Rightarrow> (chain_segment, chain_error) outcome" where
  "current_segment builder = (case builder of
     Empty \<Rightarrow> Err BuilderError
   | Building b \<Rightarrow>
       Ok \<lparr>cs_previous_segment = bd_previous_segment b,
           cs_info = bd_info b,
           cs_canonical =
             segment_blocks (cur_number (first_block (bd_info b))) 0 (bd_canonical b) (bd_reorgs b),
           cs_extra_reorgs = extra_reorgs (cur_number (last_block (bd_info b))) (bd_reorgs b)\<rparr>)"

text \<open>The drain loop of \<open>take_segment\<close>: the taken blocks leave with their reorgs.\<close>

fun take_blocks ::
  "nat \<Rightarrow> nat \<Rightarrow> hash list \<Rightarrow> canonical_block list \<Rightarrow> (nat, reorg_map) btree_map
    \<Rightarrow> canonical_block list \<times> (nat, reorg_map) btree_map" where
  "take_blocks first off [] acc reorgs = (acc, reorgs)"
| "take_blocks first off (h # hs) acc reorgs =
     (let n = u64_add first off in
      take_blocks first (Suc off) hs
        (acc @ [\<lparr>cb_hash = h, cb_reorgs = bt_get_or [] reorgs n\<rparr>])
        (bt_remove n reorgs))"

definition take_segment ::
  "chain_builder \<Rightarrow> nat \<Rightarrow> (chain_segment \<times> chain_builder, chain_error) outcome" where
  "take_segment builder count = (case builder of
     Empty \<Rightarrow> Err BuilderError
   | Building b \<Rightarrow>
      (let info = bd_info b; canonical = bd_canonical b;
           first = cur_number (first_block info) in
       if u64_sub (cur_number (last_block info)) first < count then Err BuilderError
       else
        obind (fetch canonical (u64_sub count 1)) (\<lambda>last_hash.
        if count > length canonical then Panic
        else
         let last_cursor = \<lparr>cur_number = u64_sub (u64_add first count) 1, cur_hash = last_hash\<rparr>;
             (blocks, reorgs) = take_blocks first 0 (take count canonical) [] (bd_reorgs b);
             rest = drop count canonical;
             seg_info = \<lparr>first_block = first_block info, last_block = last_cursor\<rparr>
         in obind (fetch rest 0) (\<lambda>first_hash.
            Ok (\<lparr>cs_previous_segment = bd_previous_segment b, cs_info = seg_info,
                 cs_canonical = blocks, cs_extra_reorgs = []\<rparr>,
                Building \<lparr>bd_previous_segment = Some seg_info,
                          bd_info = info\<lparr>first_block :=
                            \<lparr>cur_number = u64_add first count, cur_hash = first_hash\<rparr>\<rparr>,
                          bd_canonical = rest, bd_reorgs = reorgs\<rparr>)))))"

section \<open>Segments\<close>

definition segment_canonical :: "chain_segment \<Rightarrow> nat \<Rightarrow> (cursor, chain_error) outcome" where
  "segment_canonical seg block_number =
     (if block_number < cur_number (first_block (cs_info seg)) then Err ViewError
      else if block_number > cur_number (last_block (cs_info seg)) then Err ViewError
      else
        let offset = u64_sub block_number (cur_number (first_block (cs_info seg))) in
        obind (fetch (cs_canonical seg) offset) (\<lambda>canonical.
        Ok (mk_cursor block_number (cb_hash canonical))))"

definition siblings :: "chain_segment \<Rightarrow> cursor \<Rightarrow> (cursor list, chain_error) outcome" where
  "siblings seg c =
     (if cur_number c < cur_number (first_block (cs_info seg)) then Err ViewError
      else if cur_number c > cur_number (last_block (cs_info seg)) then
        (case find (\<lambda>r. er_block_number r = cur_number c) (cs_extra_reorgs seg) of
           None \<Rightarrow> Err ViewError
         | Some r \<Rightarrow> Ok (map (mk_cursor (cur_number c)) (bt_keys (er_reorgs r))))
      else
        let offset = u64_sub (cur_number c) (cur_number (first_block (cs_info seg))) in
        obind (fetch (cs_canonical seg) offset) (\<lambda>canonical.
        Ok (map (mk_cursor (cur_number c)) (bt_keys (cb_reorgs canonical)))))"

definition reconnect :: "chain_segment \<Rightarrow> cursor \<Rightarrow> (reconnect_action, chain_error) outcome" where
  "reconnect seg c =
     (if cur_number c < cur_number (first_block (cs_info seg)) then Err ViewError
      else if cur_number c > cur_number (last_block (cs_info seg)) then
        (case find (\<lambda>r. er_block_number r = cur_number c) (cs_extra_reorgs seg) of
           None \<Rightarrow> Err ViewError
         | Some r \<Rightarrow>
            (case bt_get (er_reorgs r) (cur_hash c) of
               None \<Rightarrow> Ok Unknown
             | Some reorg_target \<Rightarrow> Ok (OfflineReorg reorg_target)))
      else
        let offset = u64_sub (cur_number c) (cur_number (first_block (cs_info seg))) in
        obind (fetch (cs_canonical seg) offset) (\<lambda>canonical.
        if cb_hash canonical = cur_hash c \<or> hash_is_zero (cur_hash c) then Ok Continue
        else case bt_get (cb_reorgs canonical) (cur_hash c) of
               None \<Rightarrow> Ok Unknown
             | Some reorg_target \<Rightarrow> Ok (OfflineReorg reorg_target)))"

fun is_continue :: "reconnect_action \<Rightarrow> bool" where
  "is_continue Continue = True"
| "is_continue _ = False"

fun is_offline_reorg :: "reconnect_action \<Rightarrow> bool" where
  "is_offline_reorg (OfflineReorg c) = True"
| "is_offline_reorg _ = False"

fun is_unknown :: "reconnect_action \<Rightarrow> bool" where
  "is_unknown Unknown = True"
| "is_unknown _ = False"

fun as_offline_reorg_cursor :: "reconnect_action \<Rightarrow> cursor option" where
  "as_offline_reorg_cursor (OfflineReorg c) = Some c"
| "as_offline_reorg_cursor _ = None"

end
