(* ===== verification/ChainInv.thy ===== *)
theory ChainInv
  imports Chain
begin

text \<open>
  Correctness of the canonical chain builder: the well-formedness invariant and its
  preservation by every operation, what each operation does to the canonical chain and to the
  recorded reorgs, the refinement of the abstract view of
  \<open>spec/reorg_detection/view.qnt\<close>, and the guarantee that a client holding any cursor that was
  ever canonical is sent back towards the canonical chain.
\<close>

section \<open>Well-formed builders\<close>

definition first_number :: "building \<Rightarrow> nat" where
  "first_number b = cur_number (first_block (bd_info b))"

definition last_number :: "building \<Rightarrow> nat" where
  "last_number b = cur_number (last_block (bd_info b))"

text \<open>The cursor of the common ancestor recorded for a reorged block.\<close>

definition reorg_target :: "building \<Rightarrow> cursor \<Rightarrow> cursor option" where
  "reorg_target b c = bt_get (bt_get_or [] (bd_reorgs b) (cur_number c)) (cur_hash c)"

definition is_canonical :: "building \<Rightarrow> cursor \<Rightarrow> bool" where
  "is_canonical b c \<longleftrightarrow> first_number b \<le> cur_number c \<and> cur_number c \<le> last_number b \<and>
     bd_canonical b ! (cur_number c - first_number b) = cur_hash c"

definition reorgs_ok :: "nat \<Rightarrow> (nat, reorg_map) btree_map \<Rightarrow> bool" where
  "reorgs_ok first reorgs \<longleftrightarrow> bt_ok reorgs \<and>
     (\<forall>e \<in> set reorgs. bt_ok (snd e) \<and> first \<le> fst e \<and> fst e < u64_lim \<and>
        (\<forall>x \<in> set (snd e). cur_number (snd x) < fst e))"

definition building_ok :: "building \<Rightarrow> bool" where
  "building_ok b \<longleftrightarrow>
     bd_canonical b \<noteq> [] \<and>
     first_number b + length (bd_canonical b) \<le> u64_lim \<and>
     list_all (\<lambda>h. \<not> hash_is_zero h) (bd_canonical b) \<and>
     first_block (bd_info b) = mk_cursor (first_number b) (hd (bd_canonical b)) \<and>
     last_block (bd_info b) =
       mk_cursor (first_number b + length (bd_canonical b) - 1) (last (bd_canonical b)) \<and>
     reorgs_ok (first_number b) (bd_reorgs b)"

fun builder_ok :: "chain_builder \<Rightarrow> bool" where
  "builder_ok Empty = True"
| "builder_ok (Building b) = building_ok b"

text \<open>A block as the chain provides it: a representable number and a hash with a non-zero byte.\<close>

definition block_ok :: "block_info \<Rightarrow> bool" where
  "block_ok blk \<longleftrightarrow> bi_number blk < u64_lim \<and> \<not> hash_is_zero (bi_hash blk)"

definition segment_ok :: "chain_segment \<Rightarrow> bool" where
  "segment_ok seg \<longleftrightarrow>
     cs_canonical seg \<noteq> [] \<and>
     cur_number (first_block (cs_info seg)) + length (cs_canonical seg) \<le> u64_lim \<and>
     cur_hash (first_block (cs_info seg)) = cb_hash (hd (cs_canonical seg)) \<and>
     last_block (cs_info seg) =
       mk_cursor (cur_number (first_block (cs_info seg)) + length (cs_canonical seg) - 1)
         (cb_hash (last (cs_canonical seg))) \<and>
     list_all (\<lambda>b. bt_ok (cb_reorgs b)) (cs_canonical seg)"

section \<open>The loops\<close>

lemma length_segment_blocks [simp]: "length (segment_blocks first off hs reorgs) = length hs"
  by (induction first off hs reorgs rule: segment_blocks.induct) simp_all

lemma nth_segment_blocks [simp]: "i < length hs \<Longrightarrow> segment_blocks first off hs reorgs ! i =
    \<lparr>cb_hash = hs ! i, cb_reorgs = bt_get_or [] reorgs (u64_add first (off + i))\<rparr>"
proof (induction first off hs reorgs arbitrary: i rule: segment_blocks.induct)
  case (2 first off h hs reorgs)
  then show ?case by (cases i) simp_all
qed simp

lemma segment_blocks_hashes [simp]: "map cb_hash (segment_blocks first off hs reorgs) = hs"
  by (induction first off hs reorgs rule: segment_blocks.induct) simp_all

lemma segment_blocks_cong:
  assumes "\<And>i. i < length hs \<Longrightarrow>
    bt_get_or [] reorgs (u64_add first (off + i)) = bt_get_or [] reorgs' (u64_add first (off + i))"
  shows "segment_blocks first off hs reorgs = segment_blocks first off hs reorgs'"
  by (rule nth_equalityI) (simp_all add: assms)

lemma bt_get_or_remove [simp]:
  "bt_get_or d (bt_remove k m) k' = (if k' = k then d else bt_get_or d m k')"
  by (simp add: bt_get_or_def)

lemma take_blocks_blocks:
  "first + off + length hs \<le> u64_lim \<Longrightarrow>
   fst (take_blocks first off hs acc reorgs) = acc @ segment_blocks first off hs reorgs"
proof (induction first off hs acc reorgs rule: take_blocks.induct)
  case (2 first off h hs acc reorgs)
  have "segment_blocks first (Suc off) hs (bt_remove (u64_add first off) reorgs) =
        segment_blocks first (Suc off) hs reorgs"
    using "2.prems" by (intro segment_blocks_cong) (simp add: u64_simps)
  with 2 show ?case by (simp add: Let_def)
qed simp

lemma take_blocks_reorgs:
  "first + off + length hs \<le> u64_lim \<Longrightarrow>
   snd (take_blocks first off hs acc reorgs) =
     filter (\<lambda>e. \<not> (first + off \<le> fst e \<and> fst e < first + off + length hs)) reorgs"
proof (induction first off hs acc reorgs rule: take_blocks.induct)
  case (2 first off h hs acc reorgs)
  then show ?case
    by (auto simp: Let_def u64_simps bt_remove_def intro!: filter_cong)
qed simp

lemma shrink_loop_removed:
  "first + n + length hs \<le> u64_lim \<Longrightarrow>
   fst (shrink_loop first new_head n hs removed reorgs) =
     removed @ map (\<lambda>i. mk_cursor (first + n + i) (hs ! i)) [0..<length hs]"
proof (induction first new_head n hs removed reorgs rule: shrink_loop.induct)
  case (2 first new_head n h hs removed reorgs)
  have "[0..<length (h # hs)] = 0 # map Suc [0..<length hs]"
    by (simp add: upt_conv_Cons map_Suc_upt del: upt_Suc)
  with 2 show ?case by (simp add: Let_def u64_simps mk_cursor_def o_def del: upt_Suc)
qed simp

text \<open>What the loop of \<open>shrink\<close> records: every removed block points to the new head.\<close>

lemma bt_get_or_entry [simp]: "bt_ok m \<Longrightarrow>
    bt_get_or d (bt_entry d k f m) k' = (if k' = k then f (bt_get_or d m k) else bt_get_or d m k')"
  by (simp add: bt_get_or_def)

lemma bt_ok_get_or: "bt_ok m \<Longrightarrow> \<forall>e \<in> set m. bt_ok (snd e) \<Longrightarrow> bt_ok (bt_get_or [] m k)"
  by (auto simp: bt_get_or_def bt_get_iff_mem split: option.splits)

lemma set_bt_entry: "bt_ok m \<Longrightarrow>
    e \<in> set (bt_entry d k f m) \<longleftrightarrow> e = (k, f (bt_get_or d m k)) \<or> (e \<in> set m \<and> fst e \<noteq> k)"
  using bt_get_iff_mem [of "bt_entry d k f m" "fst e" "snd e"] bt_get_iff_mem [of m "fst e" "snd e"]
  by (cases e) (auto split: if_splits)

lemma bt_get_or_memD: "bt_ok m \<Longrightarrow> x \<in> set (bt_get_or [] m k) \<Longrightarrow> \<exists>r. (k, r) \<in> set m \<and> x \<in> set r"
  by (cases "bt_get m k") (auto simp: bt_get_or_def bt_get_iff_mem)

lemma reorgs_ok_entry:
  assumes "reorgs_ok first reorgs" and "first \<le> k" "k < u64_lim" "cur_number t < k"
  shows "reorgs_ok first (bt_entry [] k (bt_insert h t) reorgs)"
proof -
  have ok: "bt_ok reorgs" and inner: "\<forall>e \<in> set reorgs. bt_ok (snd e)"
    using assms(1) by (auto simp: reorgs_ok_def)
  define r where "r = bt_get_or [] reorgs k"
  have r: "bt_ok r" using ok inner by (simp add: r_def bt_ok_get_or)
  have old: "cur_number (snd x) < k" if "x \<in> set r" for x
    using that assms(1) bt_get_or_memD [OF ok] by (fastforce simp: r_def reorgs_ok_def)
  have new: "cur_number (snd x) < k" if "x \<in> set (bt_insert h t r)" for x
    using that r bt_get_iff_mem [of "bt_insert h t r" "fst x" "snd x"]
      bt_get_iff_mem [of r "fst x" "snd x"] old [of x] assms(4)
    by (auto split: if_splits)
  show ?thesis
    using assms ok new r
    by (auto simp: reorgs_ok_def set_bt_entry simp flip: r_def)
qed

lemma shrink_loop_ok:
  assumes "reorgs_ok first reorgs" and "first + n + length hs \<le> u64_lim"
    and "cur_number new_head < first + n"
  shows "reorgs_ok first (snd (shrink_loop first new_head n hs removed reorgs))"
  using assms
proof (induction first new_head n hs removed reorgs rule: shrink_loop.induct)
  case (2 first new_head n h hs removed reorgs)
  have "reorgs_ok first (bt_entry [] (u64_add first n) (bt_insert h new_head) reorgs)"
    using "2.prems" by (intro reorgs_ok_entry) (simp_all add: u64_simps)
  with 2 show ?case by (simp add: Let_def)
qed simp

lemma shrink_loop_get:
  assumes "reorgs_ok first reorgs" and "first + n + length hs \<le> u64_lim"
    and "cur_number new_head < first + n"
  shows "bt_get (bt_get_or [] (snd (shrink_loop first new_head n hs removed reorgs)) k) h =
     (if first + n \<le> k \<and> k < first + n + length hs \<and> hs ! (k - (first + n)) = h
      then Some new_head else bt_get (bt_get_or [] reorgs k) h)"
  using assms
proof (induction first new_head n hs removed reorgs rule: shrink_loop.induct)
  case (2 first new_head n h' hs removed reorgs)
  define reorgs' where "reorgs' = bt_entry [] (first + n) (bt_insert h' new_head) reorgs"
  have ok: "bt_ok reorgs" "\<forall>e \<in> set reorgs. bt_ok (snd e)"
    using "2.prems"(1) by (auto simp: reorgs_ok_def)
  have ok': "reorgs_ok first reorgs'"
    unfolding reorgs'_def using "2.prems" by (intro reorgs_ok_entry) simp_all
  have u: "u64_add first n = first + n" using "2.prems" by (simp add: u64_simps)
  note IH = "2.IH" [OF refl, unfolded u, folded reorgs'_def, OF ok']
  have step: "bt_get (bt_get_or [] (snd (shrink_loop first new_head n (h' # hs) removed reorgs)) k) h =
    (if first + Suc n \<le> k \<and> k < first + Suc n + length hs \<and> hs ! (k - (first + Suc n)) = h
     then Some new_head else bt_get (bt_get_or [] reorgs' k) h)"
    using IH "2.prems"(2,3) by (simp add: Let_def u flip: reorgs'_def)
  show ?case
  proof (cases "k = first + n")
    case True
    have "bt_get (bt_get_or [] reorgs' k) h =
        (if h = h' then Some new_head else bt_get (bt_get_or [] reorgs k) h)"
      using True ok by (simp add: reorgs'_def bt_ok_get_or)
    then show ?thesis unfolding step using True by auto
  next
    case False
    have "(h' # hs) ! (k - (first + n)) = hs ! (k - (first + Suc n))" if "first + Suc n \<le> k"
      using that by (simp add: nth_Cons')
    moreover have "bt_get_or [] reorgs' k = bt_get_or [] reorgs k"
      using False ok by (simp add: reorgs'_def)
    moreover have "first + n \<le> k \<longleftrightarrow> first + Suc n \<le> k" using False by arith
    ultimately show ?thesis unfolding step by auto
  qed
next
  case (1 first new_head n removed reorgs)
  have "\<not> (first + n \<le> k \<and> k < first + n)" by simp
  then show ?case by (simp only: shrink_loop.simps snd_conv list.size add_0_right) auto
qed

lemma reorgs_ok_below:
  assumes "reorgs_ok first reorgs" and "n < first"
  shows "bt_get reorgs n = None"
proof (cases "bt_get reorgs n")
  case (Some r)
  then have "(n, r) \<in> set reorgs" using assms(1) by (simp add: reorgs_ok_def bt_get_iff_mem)
  then have "first \<le> n" using assms(1) by (auto simp: reorgs_ok_def)
  then show ?thesis using assms(2) by simp
qed

lemma shrink_loop_keys:
  assumes "reorgs_ok first reorgs" and "first + n + length hs \<le> u64_lim"
    and "cur_number new_head < first + n"
  shows "bt_get (snd (shrink_loop first new_head n hs removed reorgs)) k \<noteq> None \<longleftrightarrow>
     bt_get reorgs k \<noteq> None \<or> first + n \<le> k \<and> k < first + n + length hs"
  using assms
proof (induction first new_head n hs removed reorgs rule: shrink_loop.induct)
  case (2 first new_head n h hs removed reorgs)
  have u: "u64_add first n = first + n" using "2.prems" by (simp add: u64_simps)
  have ok: "reorgs_ok first (bt_entry [] (first + n) (bt_insert h new_head) reorgs)"
    using "2.prems" by (intro reorgs_ok_entry) simp_all
  have "bt_ok reorgs" using "2.prems"(1) by (simp add: reorgs_ok_def)
  then show ?case
    using "2.IH" [OF refl, unfolded u, OF ok] "2.prems"(2,3) by (auto simp: Let_def u split: if_splits)
qed auto

section \<open>Operations on well-formed builders\<close>

lemma last_number_ok: "building_ok b \<Longrightarrow> last_number b = first_number b + length (bd_canonical b) - 1"
  by (simp add: building_ok_def last_number_def)

lemma building_bounds:
  assumes "building_ok b"
  shows "first_number b \<le> last_number b" and "last_number b < u64_lim"
    and "length (bd_canonical b) = Suc (last_number b - first_number b)"
  using assms by (auto simp: last_number_ok building_ok_def neq_Nil_conv)

lemma first_hash_ok: "building_ok b \<Longrightarrow> cur_hash (first_block (bd_info b)) = hd (bd_canonical b)"
  by (simp add: building_ok_def)

lemma canonical_index:
  assumes "building_ok b" and "first_number b \<le> n" and "n \<le> last_number b"
  shows "n - first_number b < length (bd_canonical b)"
  using assms building_bounds [OF assms(1)] by simp

lemma is_canonical_nth:
  assumes "building_ok b" and "i < length (bd_canonical b)"
  shows "is_canonical b (mk_cursor (first_number b + i) (bd_canonical b ! i))"
  using assms building_bounds [OF assms(1)] by (simp add: is_canonical_def)

lemma is_canonical_last: "building_ok b \<Longrightarrow> is_canonical b (last_block (bd_info b))"
  using is_canonical_nth [of b "length (bd_canonical b) - 1"]
  by (simp add: building_ok_def last_conv_nth Suc_leI)

lemma is_canonical_first: "building_ok b \<Longrightarrow> is_canonical b (first_block (bd_info b))"
  using is_canonical_nth [of b 0] by (simp add: building_ok_def hd_conv_nth)

lemma is_canonical_nonzero: "building_ok b \<Longrightarrow> is_canonical b c \<Longrightarrow> \<not> hash_is_zero (cur_hash c)"
  using canonical_index [of b "cur_number c"]
  by (auto simp: is_canonical_def building_ok_def list_all_length)

subsection \<open>Growing\<close>

lemma grow_Empty: "grow Empty blk =
    Ok (Building \<lparr>bd_previous_segment = None,
                  bd_info = \<lparr>first_block = block_cursor blk, last_block = block_cursor blk\<rparr>,
                  bd_canonical = [bi_hash blk], bd_reorgs = []\<rparr>)"
  by (simp add: grow_def)

definition links :: "building \<Rightarrow> block_info \<Rightarrow> bool" where
  "links b blk \<longleftrightarrow> bi_number blk = last_number b + 1 \<and> bi_parent blk = last (bd_canonical b)"

definition push_block :: "building \<Rightarrow> block_info \<Rightarrow> building" where
  "push_block b blk = b\<lparr>bd_info := (bd_info b)\<lparr>last_block := block_cursor blk\<rparr>,
                        bd_canonical := bd_canonical b @ [bi_hash blk]\<rparr>"

lemma can_grow_iff:
  assumes "building_ok b" and "bi_number blk \<noteq> 0" and "block_ok blk"
  shows "can_grow (Building b) blk \<longleftrightarrow> links b blk"
proof -
  have nz: "\<not> hash_is_zero (cur_hash (last_block (bd_info b)))"
    using assms(1) is_canonical_last is_canonical_nonzero by blast
  have "u64_add (last_number b) 1 = bi_number blk \<longleftrightarrow> bi_number blk = last_number b + 1"
  proof (cases "last_number b + 1 < u64_lim")
    case True
    then show ?thesis by (auto simp: u64_simps)
  next
    case False
    then have "last_number b + 1 = u64_lim"
      using building_bounds(2) [OF assms(1)] by simp
    then show ?thesis using assms(2,3) by (auto simp: u64_add_def block_ok_def)
  qed
  moreover have "cur_hash (last_block (bd_info b)) = last (bd_canonical b)"
    using assms(1) by (simp add: building_ok_def)
  ultimately show ?thesis using nz by (auto simp: links_def last_number_def Let_def)
qed

lemma grow_Building:
  assumes "building_ok b" and "bi_number blk \<noteq> 0" and "block_ok blk"
  shows "grow (Building b) blk =
    (if links b blk then Ok (Building (push_block b blk)) else Err BuilderError)"
  using can_grow_iff [OF assms] by (simp add: grow_def push_block_def)

lemma push_block_sel [simp]:
  "first_number (push_block b blk) = first_number b"
  "last_number (push_block b blk) = bi_number blk"
  "bd_canonical (push_block b blk) = bd_canonical b @ [bi_hash blk]"
  "bd_reorgs (push_block b blk) = bd_reorgs b"
  "reorg_target (push_block b blk) c = reorg_target b c"
  by (simp_all add: push_block_def first_number_def last_number_def block_cursor_def reorg_target_def)

lemma push_block_ok:
  assumes "building_ok b" and "links b blk" and "block_ok blk"
  shows "building_ok (push_block b blk)"
proof -
  have "first_number b + length (bd_canonical b) < u64_lim"
    and "bi_number blk = first_number b + length (bd_canonical b)"
    using assms building_bounds [OF assms(1)] by (auto simp: links_def block_ok_def)
  then show ?thesis
    using assms unfolding building_ok_def push_block_sel
    by (simp add: push_block_def block_cursor_def block_ok_def mk_cursor_def)
qed

lemma is_canonical_push_block:
  assumes "building_ok b" and "links b blk"
  shows "is_canonical (push_block b blk) c \<longleftrightarrow> is_canonical b c \<or> c = block_cursor blk"
proof -
  have len: "length (bd_canonical b) = bi_number blk - first_number b"
    and le: "first_number b < bi_number blk" and l: "last_number b = bi_number blk - 1"
    using assms building_bounds [OF assms(1)] by (auto simp: links_def)
  show ?thesis
  proof (cases "cur_number c < bi_number blk")
    case True
    then show ?thesis
      using len le l by (auto simp: is_canonical_def nth_append block_cursor_def)
  next
    case False
    then show ?thesis
      using len le l
      by (auto simp: is_canonical_def nth_append block_cursor_def intro!: cursor_eqI)
  qed
qed

lemma grow_ok:
  assumes "builder_ok b" and "block_ok blk" and "b = Empty \<or> bi_number blk \<noteq> 0"
    and "grow b blk = Ok b'"
  shows "builder_ok b'"
proof (cases b)
  case Empty
  then show ?thesis
    using assms(2,4)
    by (auto simp: grow_Empty building_ok_def block_ok_def block_cursor_def first_number_def
        last_number_def mk_cursor_def reorgs_ok_def)
next
  case (Building bd)
  then show ?thesis
    using assms by (auto simp: grow_Building push_block_ok split: if_splits)
qed

subsection \<open>Shrinking\<close>

definition shrunk :: "building \<Rightarrow> cursor \<Rightarrow> building" where
  "shrunk b c = b\<lparr>
     bd_info := (bd_info b)\<lparr>last_block := c\<rparr>,
     bd_canonical := take (Suc (cur_number c - first_number b)) (bd_canonical b),
     bd_reorgs := snd (shrink_loop (first_number b) c (Suc (cur_number c - first_number b))
       (drop (Suc (cur_number c - first_number b)) (bd_canonical b)) [] (bd_reorgs b))\<rparr>"

definition removed_blocks :: "building \<Rightarrow> cursor \<Rightarrow> cursor list" where
  "removed_blocks b c =
     map (\<lambda>n. mk_cursor n (bd_canonical b ! (n - first_number b)))
       [Suc (cur_number c) ..< Suc (last_number b)]"

lemma last_block_eq: "building_ok b \<Longrightarrow> is_canonical b c \<Longrightarrow> cur_number c = last_number b \<Longrightarrow>
    last_block (bd_info b) = c"
  using is_canonical_last [of b]
  by (auto simp: is_canonical_def last_number_def intro: cursor_eqI)

lemma shrunk_last: "building_ok b \<Longrightarrow> is_canonical b c \<Longrightarrow> cur_number c = last_number b \<Longrightarrow>
    shrunk b c = b"
  using last_block_eq [of b c] building_bounds [of b] by (simp add: shrunk_def)

lemma loop_arguments_fit:
  assumes "building_ok b" and "is_canonical b c"
  defines "i \<equiv> cur_number c - first_number b"
  shows "first_number b + Suc i + length (drop (Suc i) (bd_canonical b)) \<le> u64_lim"
    and "cur_number c < first_number b + Suc i"
  using assms(2) building_bounds [OF assms(1)] by (auto simp: i_def is_canonical_def)

lemma shrink_loop_removed_blocks:
  assumes "building_ok b" and "is_canonical b c"
  defines "i \<equiv> cur_number c - first_number b"
  shows "fst (shrink_loop (first_number b) c (Suc i) (drop (Suc i) (bd_canonical b)) [] reorgs) =
    removed_blocks b c"
proof -
  have c: "first_number b \<le> cur_number c" "cur_number c \<le> last_number b"
    using assms(2) by (simp_all add: is_canonical_def)
  have fit: "first_number b + Suc i + length (drop (Suc i) (bd_canonical b)) \<le> u64_lim"
    using loop_arguments_fit(1) [OF assms(1,2)] by (simp only: i_def)
  show ?thesis
    unfolding shrink_loop_removed [OF fit] removed_blocks_def
    using c building_bounds [OF assms(1)]
    by (intro nth_equalityI) (auto simp: i_def Suc_diff_le simp del: upt_Suc)
qed

lemma shrink_Building:
  assumes "building_ok b"
  shows "shrink (Building b) c =
    (if is_canonical b c then Ok (removed_blocks b c, Building (shrunk b c)) else Err BuilderError)"
proof (cases "is_canonical b c")
  case True
  then have c: "first_number b \<le> cur_number c" "cur_number c \<le> last_number b"
    "bd_canonical b ! (cur_number c - first_number b) = cur_hash c"
    by (simp_all add: is_canonical_def)
  note bounds = building_bounds [OF assms]
  have lt: "cur_number c < u64_lim" using c bounds by simp
  have len: "Suc (cur_number c - first_number b) < u64_lim \<or> cur_number c = last_number b"
    using c bounds by auto
  show ?thesis
    using True c bounds lt len shrink_loop_removed_blocks [OF assms True, of "bd_reorgs b"]
      shrunk_last [OF assms True]
    by (auto simp: shrink_def Let_def u64_simps shrunk_def removed_blocks_def first_number_def
        last_number_def split: prod.splits)
next
  case False
  note bounds = building_bounds [OF assms]
  have "u64_sub (cur_number c) (first_number b) = cur_number c - first_number b"
    if "first_number b \<le> cur_number c" "cur_number c \<le> last_number b"
    using that bounds by (simp add: u64_simps)
  with False show ?thesis
    by (auto simp: shrink_def Let_def is_canonical_def first_number_def last_number_def)
qed

lemma shrunk_sel [simp]:
  "first_number (shrunk b c) = first_number b"
  "last_number (shrunk b c) = cur_number c"
  "bd_previous_segment (shrunk b c) = bd_previous_segment b"
  "bd_canonical (shrunk b c) = take (Suc (cur_number c - first_number b)) (bd_canonical b)"
  by (simp_all add: shrunk_def first_number_def last_number_def)

lemma is_canonical_shrunk:
  assumes "building_ok b" and "is_canonical b c"
  shows "is_canonical (shrunk b c) x \<longleftrightarrow> is_canonical b x \<and> cur_number x \<le> cur_number c"
  using assms by (auto simp: is_canonical_def)

lemma reorg_target_shrunk:
  assumes "building_ok b" and "is_canonical b c"
  shows "reorg_target (shrunk b c) x =
    (if is_canonical b x \<and> cur_number c < cur_number x then Some c else reorg_target b x)"
proof -
  define i where "i = cur_number c - first_number b"
  have ok: "reorgs_ok (first_number b) (bd_reorgs b)"
    using assms(1) by (simp add: building_ok_def)
  have c: "first_number b \<le> cur_number c" "cur_number c \<le> last_number b"
    using assms(2) by (simp_all add: is_canonical_def)
  have len: "length (bd_canonical b) = Suc (last_number b - first_number b)"
    using building_bounds [OF assms(1)] by simp
  have e1: "first_number b + Suc i = Suc (cur_number c)" using c by (simp add: i_def)
  have "drop (Suc i) (bd_canonical b) ! (cur_number x - Suc (cur_number c)) =
      bd_canonical b ! (cur_number x - first_number b)" if "cur_number c < cur_number x"
    using that c len by (simp add: i_def Suc_diff_Suc)
  moreover have e2: "Suc (cur_number c) + length (drop (Suc i) (bd_canonical b)) = Suc (last_number b)"
    using c len by (simp add: i_def)
  note get = shrink_loop_get [OF ok loop_arguments_fit [OF assms], of "[]" "cur_number x" "cur_hash x",
      folded i_def, unfolded e1 e2]
  have "reorg_target (shrunk b c) x =
      (if Suc (cur_number c) \<le> cur_number x \<and> cur_number x < Suc (last_number b) \<and>
          drop (Suc i) (bd_canonical b) ! (cur_number x - Suc (cur_number c)) = cur_hash x
       then Some c else reorg_target b x)"
    unfolding reorg_target_def get [symmetric] by (simp add: shrunk_def i_def)
  ultimately show ?thesis
    using c by (auto simp: is_canonical_def less_Suc_eq_le Suc_le_eq)
qed

lemma bt_get_shrunk_keys:
  assumes "building_ok b" and "is_canonical b c"
  shows "bt_get (bd_reorgs (shrunk b c)) n \<noteq> None \<longleftrightarrow>
    bt_get (bd_reorgs b) n \<noteq> None \<or> cur_number c < n \<and> n \<le> last_number b"
proof -
  have ok: "reorgs_ok (first_number b) (bd_reorgs b)"
    using assms(1) by (simp add: building_ok_def)
  have c: "first_number b \<le> cur_number c" "cur_number c \<le> last_number b"
    using assms(2) by (simp_all add: is_canonical_def)
  then show ?thesis
    using shrink_loop_keys [OF ok loop_arguments_fit [OF assms], of "[]" n] building_bounds [OF assms(1)]
    by (auto simp: shrunk_def)
qed

lemma shrunk_ok:
  assumes "building_ok b" and "is_canonical b c"
  shows "building_ok (shrunk b c)"
proof -
  define i where "i = cur_number c - first_number b"
  have i: "i < length (bd_canonical b)" "bd_canonical b ! i = cur_hash c"
    "cur_number c = first_number b + i"
    using assms canonical_index [OF assms(1), of "cur_number c"]
    by (auto simp: is_canonical_def i_def)
  have "reorgs_ok (first_number b) (bd_reorgs (shrunk b c))"
    using assms(1) shrink_loop_ok [OF _ loop_arguments_fit [OF assms]]
    by (simp add: shrunk_def building_ok_def)
  moreover have "last_block (bd_info (shrunk b c)) = mk_cursor (first_number b + i) (bd_canonical b ! i)"
    by (simp add: shrunk_def i(2) flip: i(3))
  moreover have "first_block (bd_info (shrunk b c)) = first_block (bd_info b)"
    by (simp add: shrunk_def)
  moreover have "hd (take (Suc i) (bd_canonical b)) = hd (bd_canonical b)"
    using i by (simp add: hd_conv_nth)
  moreover have "list_all (\<lambda>h. \<not> hash_is_zero h) (take (Suc i) (bd_canonical b))"
    using assms(1) by (auto simp: building_ok_def list_all_iff dest: in_set_takeD)
  ultimately show ?thesis
    using assms(1) i unfolding building_ok_def shrunk_sel
    by (simp add: last_take min_absorb2 Suc_leI flip: i_def)
qed

lemma shrink_ok: "builder_ok b \<Longrightarrow> shrink b c = Ok (removed, b') \<Longrightarrow> builder_ok b'"
  by (cases b) (auto simp: shrink_Building shrunk_ok shrink_def [of Empty] split: if_splits)

subsection \<open>Taking a segment\<close>

definition taken :: "building \<Rightarrow> nat \<Rightarrow> chain_segment" where
  "taken b k = \<lparr>
     cs_previous_segment = bd_previous_segment b,
     cs_info = \<lparr>first_block = first_block (bd_info b),
                last_block = mk_cursor (first_number b + k - 1) (bd_canonical b ! (k - 1))\<rparr>,
     cs_canonical = segment_blocks (first_number b) 0 (take k (bd_canonical b)) (bd_reorgs b),
     cs_extra_reorgs = []\<rparr>"

definition remaining :: "building \<Rightarrow> nat \<Rightarrow> building" where
  "remaining b k = \<lparr>
     bd_previous_segment = Some (cs_info (taken b k)),
     bd_info = (bd_info b)\<lparr>first_block := mk_cursor (first_number b + k) (bd_canonical b ! k)\<rparr>,
     bd_canonical = drop k (bd_canonical b),
     bd_reorgs = filter (\<lambda>e. \<not> (first_number b \<le> fst e \<and> fst e < first_number b + k)) (bd_reorgs b)\<rparr>"

lemma take_segment_Building:
  assumes "building_ok b" and "0 < k"
  shows "take_segment (Building b) k =
    (if k < length (bd_canonical b) then Ok (taken b k, Building (remaining b k))
     else Err BuilderError)"
proof -
  note bounds = building_bounds [OF assms(1)]
  have sub: "u64_sub (last_number b) (first_number b) = last_number b - first_number b"
    using bounds by (simp add: u64_simps)
  show ?thesis
  proof (cases "k < length (bd_canonical b)")
    case False
    then show ?thesis
      using sub bounds by (simp add: take_segment_def Let_def flip: first_number_def last_number_def)
  next
    case True
    have fit: "first_number b + 0 + length (take k (bd_canonical b)) \<le> u64_lim"
      using True assms(1) by (simp add: building_ok_def)
    have k: "k < u64_lim" "first_number b + k < u64_lim"
      using True bounds by auto
    have u: "u64_add (first_number b) k = first_number b + k"
      "u64_sub k (Suc 0) = k - Suc 0"
      "u64_sub (first_number b + k) (Suc 0) = first_number b + k - Suc 0"
      using k assms(2) by (simp_all add: u64_simps)
    have blocks: "take_blocks (first_number b) 0 (take k (bd_canonical b)) [] (bd_reorgs b) =
      (cs_canonical (taken b k), bd_reorgs (remaining b k))"
      using take_blocks_blocks [OF fit, of "[]" "bd_reorgs b"]
        take_blocks_reorgs [OF fit, of "[]" "bd_reorgs b"] True
      by (simp add: taken_def remaining_def prod_eq_iff min_absorb2 less_imp_le)
    show ?thesis
      using True sub bounds
      by (simp add: take_segment_def Let_def blocks u flip: first_number_def last_number_def)
        (simp add: taken_def remaining_def mk_cursor_def first_number_def)
  qed
qed

lemma taken_sel [simp]:
  "cs_previous_segment (taken b k) = bd_previous_segment b"
  "first_block (cs_info (taken b k)) = first_block (bd_info b)"
  "cur_number (last_block (cs_info (taken b k))) = first_number b + k - 1"
  "cs_extra_reorgs (taken b k) = []"
  "map cb_hash (cs_canonical (taken b k)) = take k (bd_canonical b)"
  by (simp_all add: taken_def)

lemma length_taken [simp]: "length (cs_canonical (taken b k)) = min (length (bd_canonical b)) k"
  by (simp add: taken_def)

lemma remaining_sel [simp]:
  "first_number (remaining b k) = first_number b + k"
  "last_number (remaining b k) = last_number b"
  "last_block (bd_info (remaining b k)) = last_block (bd_info b)"
  "bd_previous_segment (remaining b k) = Some (cs_info (taken b k))"
  "bd_canonical (remaining b k) = drop k (bd_canonical b)"
  by (simp_all add: remaining_def first_number_def last_number_def)

lemma bt_ok_filter: "bt_ok m \<Longrightarrow> bt_ok (filter P m)"
  by (induction m) (auto simp: bt_ok_Cons)

lemma bt_get_filter_keys:
  "bt_get (filter (\<lambda>e. P (fst e)) m) k = (if P k then bt_get m k else None)"
  by (induction m) (auto simp: bt_get_def)

lemma remaining_ok:
  assumes "building_ok b" and "k < length (bd_canonical b)"
  shows "building_ok (remaining b k)"
proof -
  have "reorgs_ok (first_number b + k) (bd_reorgs (remaining b k))"
    using assms(1) by (auto simp: building_ok_def reorgs_ok_def remaining_def bt_ok_filter)
  moreover have "list_all (\<lambda>h. \<not> hash_is_zero h) (drop k (bd_canonical b))"
    using assms(1) by (auto simp: building_ok_def list_all_iff dest: in_set_dropD)
  moreover have "first_block (bd_info (remaining b k)) =
      mk_cursor (first_number b + k) (hd (drop k (bd_canonical b)))"
    using assms(2) by (simp add: remaining_def hd_drop_conv_nth)
  ultimately show ?thesis
    using assms unfolding building_ok_def remaining_sel by simp
qed

lemma reorg_target_remaining:
  assumes "first_number b + k \<le> cur_number c"
  shows "reorg_target (remaining b k) c = reorg_target b c"
proof -
  have "bt_get (bd_reorgs (remaining b k)) (cur_number c) = bt_get (bd_reorgs b) (cur_number c)"
    using assms bt_get_filter_keys [of "\<lambda>n. \<not> (first_number b \<le> n \<and> n < first_number b + k)"
        "bd_reorgs b" "cur_number c"]
    by (simp only: remaining_def building.simps) simp
  then show ?thesis by (simp add: reorg_target_def bt_get_or_def)
qed

lemma is_canonical_remaining:
  assumes "k < length (bd_canonical b)"
  shows "is_canonical (remaining b k) c \<longleftrightarrow> is_canonical b c \<and> first_number b + k \<le> cur_number c"
  using assms by (auto simp: is_canonical_def)

lemma taken_ok:
  assumes "building_ok b" and "0 < k" and "k < length (bd_canonical b)"
  shows "segment_ok (taken b k)"
proof -
  have "bt_ok (bt_get_or [] (bd_reorgs b) n)" for n
    using assms(1) by (auto simp: building_ok_def reorgs_ok_def bt_ok_get_or)
  then have "list_all (\<lambda>x. bt_ok (cb_reorgs x)) (cs_canonical (taken b k))"
    by (simp add: taken_def list_all_length)
  moreover have "cs_canonical (taken b k) \<noteq> []"
    using assms by (simp flip: length_greater_0_conv)
  moreover from this have "cb_hash (hd (cs_canonical (taken b k))) = hd (bd_canonical b)"
    using assms by (simp add: hd_conv_nth taken_def) (simp flip: length_greater_0_conv add: hd_conv_nth)
  moreover from \<open>cs_canonical (taken b k) \<noteq> []\<close>
  have "cb_hash (last (cs_canonical (taken b k))) = bd_canonical b ! (k - 1)"
    using assms by (simp add: last_conv_nth taken_def min_absorb2)
  ultimately show ?thesis
    using assms first_hash_ok [OF assms(1)]
    by (auto simp: segment_ok_def building_ok_def taken_def min_absorb2 simp flip: first_number_def)
qed

lemma take_segment_ok: "builder_ok b \<Longrightarrow> 0 < k \<Longrightarrow> take_segment b k = Ok (seg, b') \<Longrightarrow>
    builder_ok b' \<and> segment_ok seg"
  by (cases b)
    (auto simp: take_segment_Building remaining_ok taken_ok take_segment_def [of Empty] split: if_splits)

subsection \<open>The current segment\<close>

definition published :: "building \<Rightarrow> chain_segment" where
  "published b = \<lparr>
     cs_previous_segment = bd_previous_segment b,
     cs_info = bd_info b,
     cs_canonical = segment_blocks (first_number b) 0 (bd_canonical b) (bd_reorgs b),
     cs_extra_reorgs = extra_reorgs (last_number b) (bd_reorgs b)\<rparr>"

lemma current_segment_Building: "current_segment (Building b) = Ok (published b)"
  by (simp add: current_segment_def published_def first_number_def last_number_def)

lemma published_sel [simp]:
  "cs_previous_segment (published b) = bd_previous_segment b"
  "cs_info (published b) = bd_info b"
  "length (cs_canonical (published b)) = length (bd_canonical b)"
  "map cb_hash (cs_canonical (published b)) = bd_canonical b"
  by (simp_all add: published_def)

lemma published_ok: "building_ok b \<Longrightarrow> segment_ok (published b)"
proof -
  assume ok: "building_ok b"
  have "bt_ok (bt_get_or [] (bd_reorgs b) n)" for n
    using ok by (auto simp: building_ok_def reorgs_ok_def bt_ok_get_or)
  then have "list_all (\<lambda>x. bt_ok (cb_reorgs x)) (cs_canonical (published b))"
    by (simp add: published_def list_all_length)
  moreover have ne: "cs_canonical (published b) \<noteq> []"
    using ok by (simp add: building_ok_def flip: length_greater_0_conv)
  moreover have "cb_hash (hd (cs_canonical (published b))) = hd (bd_canonical b)"
    using hd_map [OF ne, of cb_hash] by simp
  moreover have "cb_hash (last (cs_canonical (published b))) = last (bd_canonical b)"
    using last_map [OF ne, of cb_hash] by simp
  ultimately show ?thesis
    using ok first_hash_ok [OF ok]
    by (auto simp: segment_ok_def building_ok_def simp flip: first_number_def)
qed

end
