(* ===== verification/Reorg.thy ===== *)
theory Reorg
  imports ChainInv
begin

text \<open>
  Reorg detection. Clients reconnect with the cursor of the last block they saw; the published
  segment tells them to continue, or where to go back to. The theory relates \<open>reconnect\<close> to
  the builder that published the segment, follows the set of all cursors that were ever
  canonical through every run of the builder (\<open>chain_run\<close>), and shows that no such cursor is
  ever answered with \<open>Unknown\<close>. It also covers a restart through \<open>restore_from_segment\<close>.
\<close>

section \<open>Restoring a builder from its published segment\<close>

definition restored :: "chain_segment \<Rightarrow> building" where
  "restored seg = \<lparr>
     bd_previous_segment = cs_previous_segment seg,
     bd_info = cs_info seg,
     bd_canonical = map cb_hash (cs_canonical seg),
     bd_reorgs =
       (let first = cur_number (first_block (cs_info seg)) in
        zip [first..<first + length (cs_canonical seg)] (map cb_reorgs (cs_canonical seg)))\<rparr>"

lemma restore_loop_eq:
  "first + off + length bs \<le> u64_lim \<Longrightarrow> \<forall>e \<in> set reorgs. fst e < first + off \<Longrightarrow>
   restore_loop first off bs canonical reorgs =
     (canonical @ map cb_hash bs,
      reorgs @ zip [first + off..<first + off + length bs] (map cb_reorgs bs))"
proof (induction first off bs canonical reorgs rule: restore_loop.induct)
  case (2 first off b bs canonical reorgs)
  have u: "u64_add first off = first + off" using "2.prems"(1) by (simp add: u64_simps)
  have "bt_insert (first + off) (cb_reorgs b) reorgs = reorgs @ [(first + off, cb_reorgs b)]"
    using "2.prems"(2) by (rule bt_insert_snoc)
  moreover have "[first + off..<first + off + length (b # bs)] =
      (first + off) # [first + Suc off..<first + Suc off + length bs]"
    using upt_Cons_length [of "first + off" b bs] by simp
  ultimately show ?case
    using 2 by (simp add: u less_Suc_eq del: upt_Suc)
qed simp

lemma restore_from_segment_eq: "segment_ok seg \<Longrightarrow> restore_from_segment seg = Ok (Building (restored seg))"
  using restore_loop_eq [of "cur_number (first_block (cs_info seg))" 0 "cs_canonical seg" "[]" "[]"]
  by (simp add: restore_from_segment_def restored_def segment_ok_def Let_def)

lemma bt_get_zip_upt:
  "bt_get (zip [a..<a + length vs] vs) k = (if a \<le> k \<and> k < a + length vs then Some (vs ! (k - a)) else None)"
proof (induction vs arbitrary: a)
  case (Cons v vs)
  then show ?case
    using Cons.IH [of "Suc a"] upt_Cons_length [of a v vs] by (auto simp: bt_get_def nth_Cons' simp del: upt_Suc)
qed (simp add: bt_get_def)

lemma bt_ok_zip_upt: "bt_ok (zip [a..<a + length vs] vs)"
  by (simp add: bt_ok_def sorted_wrt_upt)

lemma restored_sel [simp]:
  "bd_previous_segment (restored seg) = cs_previous_segment seg"
  "bd_info (restored seg) = cs_info seg"
  "bd_canonical (restored seg) = map cb_hash (cs_canonical seg)"
  "first_number (restored seg) = cur_number (first_block (cs_info seg))"
  "last_number (restored seg) = cur_number (last_block (cs_info seg))"
  by (simp_all add: restored_def first_number_def last_number_def)

lemma bt_get_restored:
  "bt_get (bd_reorgs (restored seg)) n =
    (let first = cur_number (first_block (cs_info seg)) in
     if first \<le> n \<and> n < first + length (cs_canonical seg)
     then Some (cb_reorgs (cs_canonical seg ! (n - first))) else None)"
  using bt_get_zip_upt [of "cur_number (first_block (cs_info seg))" "map cb_reorgs (cs_canonical seg)" n]
  by (auto simp: restored_def Let_def)

text \<open>Publishing a restored builder gives back the segment, except for the extra reorgs.\<close>

lemma published_restored:
  assumes "segment_ok seg"
  shows "published (restored seg) = seg\<lparr>cs_extra_reorgs := []\<rparr>"
proof -
  define first where "first = cur_number (first_block (cs_info seg))"
  have fit: "first + length (cs_canonical seg) \<le> u64_lim" and
    last: "cur_number (last_block (cs_info seg)) = first + length (cs_canonical seg) - 1"
    and ne: "cs_canonical seg \<noteq> []"
    using assms by (simp_all add: segment_ok_def first_def)
  have "segment_blocks first 0 (map cb_hash (cs_canonical seg)) (bd_reorgs (restored seg)) =
      cs_canonical seg"
  proof (rule nth_equalityI)
    fix i
    assume "i < length (segment_blocks first 0 (map cb_hash (cs_canonical seg)) (bd_reorgs (restored seg)))"
    then have i: "i < length (cs_canonical seg)" by simp
    then have "u64_add first i = first + i" using fit by (simp add: u64_simps)
    then show "segment_blocks first 0 (map cb_hash (cs_canonical seg)) (bd_reorgs (restored seg)) ! i =
        cs_canonical seg ! i"
      using i by (simp add: bt_get_or_def bt_get_restored flip: first_def)
  qed simp
  moreover have "extra_reorgs (cur_number (last_block (cs_info seg))) (bd_reorgs (restored seg)) = []"
    using ne by (auto simp: extra_reorgs_def restored_def last Let_def filter_empty_conv neq_Nil_conv
        dest!: set_zip_leftD simp flip: first_def)
  ultimately show ?thesis
    by (simp add: published_def flip: first_def)
qed

lemma bt_get_or_restored:
  assumes "building_ok b" and "first_number b \<le> n" and "n \<le> last_number b"
  shows "bt_get_or [] (bd_reorgs (restored (published b))) n = bt_get_or [] (bd_reorgs b) n"
proof -
  note bounds = building_bounds [OF assms(1)]
  have "u64_add (first_number b) (n - first_number b) = n"
    using assms bounds by (simp add: u64_simps)
  moreover have "n < first_number b + length (bd_canonical b)"
    using assms bounds by simp
  ultimately show ?thesis
    using assms(2) by (simp add: bt_get_or_def bt_get_restored Let_def flip: first_number_def)
      (simp add: published_def bt_get_or_def)
qed

text \<open>No entry of the builder is lost when every reorged number is at or below the last block.\<close>

lemma no_extra_reorgs:
  assumes "cs_extra_reorgs (published b) = []" and "bt_ok (bd_reorgs b)" and "last_number b < n"
  shows "bt_get (bd_reorgs b) n = None"
proof (rule ccontr)
  assume "bt_get (bd_reorgs b) n \<noteq> None"
  then obtain r where "(n, r) \<in> set (bd_reorgs b)"
    using assms(2) by (auto simp: bt_get_iff_mem)
  then show False
    using assms(1,3) by (auto simp: published_def extra_reorgs_def filter_empty_conv)
qed

lemma reorg_target_restored:
  assumes "building_ok b"
  shows "reorg_target (restored (published b)) c = (if cur_number c \<le> last_number b then reorg_target b c else None)"
proof -
  have ok: "reorgs_ok (first_number b) (bd_reorgs b)" using assms by (simp add: building_ok_def)
  have len: "first_number b + length (bd_canonical b) = Suc (last_number b)"
    using building_bounds [OF assms] by simp
  consider "first_number b \<le> cur_number c \<and> cur_number c \<le> last_number b"
    | "cur_number c < first_number b" | "last_number b < cur_number c" by linarith
  then show ?thesis
  proof cases
    case 1
    then show ?thesis using bt_get_or_restored [OF assms] by (simp add: reorg_target_def)
  next
    case 2
    then show ?thesis
      using reorgs_ok_below [OF ok] by (simp add: reorg_target_def bt_get_or_def bt_get_restored Let_def flip: first_number_def)
  next
    case 3
    then show ?thesis
      using len by (simp add: reorg_target_def bt_get_or_def bt_get_restored Let_def flip: first_number_def)
  qed
qed

lemma reorg_target_above:
  assumes "building_ok b" and "cs_extra_reorgs (published b) = []" and "last_number b < cur_number c"
  shows "reorg_target b c = None"
proof -
  have "bt_get (bd_reorgs b) (cur_number c) = None"
    using no_extra_reorgs assms by (simp add: building_ok_def reorgs_ok_def)
  then show ?thesis by (simp add: reorg_target_def bt_get_or_def)
qed

section \<open>What \<open>reconnect\<close> answers\<close>

fun reorg_action :: "cursor option \<Rightarrow> reconnect_action" where
  "reorg_action None = Unknown"
| "reorg_action (Some t) = OfflineReorg t"

lemma find_extra_reorgs: "l < n \<Longrightarrow>
    find (\<lambda>r. er_block_number r = n) (extra_reorgs l reorgs) =
    map_option (\<lambda>r. \<lparr>er_block_number = n, er_reorgs = r\<rparr>) (bt_get reorgs n)"
  by (induction reorgs) (auto simp: extra_reorgs_def bt_get_def)

lemma reconnect_published:
  assumes "building_ok b" and "first_number b \<le> cur_number c"
  shows "reconnect (published b) c =
    (if cur_number c \<le> last_number b
     then if is_canonical b c \<or> hash_is_zero (cur_hash c) then Ok Continue
          else Ok (reorg_action (reorg_target b c))
     else if bt_get (bd_reorgs b) (cur_number c) = None then Err ViewError
     else Ok (reorg_action (reorg_target b c)))"
proof (cases "cur_number c \<le> last_number b")
  case True
  note bounds = building_bounds [OF assms(1)]
  have u: "u64_sub (cur_number c) (first_number b) = cur_number c - first_number b"
    "u64_add (first_number b) (cur_number c - first_number b) = cur_number c"
    using True assms bounds by (simp_all add: u64_simps)
  show ?thesis
    using True assms canonical_index [OF assms True]
    by (auto simp: reconnect_def Let_def u published_def is_canonical_def reorg_target_def
        split: option.splits simp flip: first_number_def last_number_def)
next
  case False
  then show ?thesis
    using assms(2)
    by (auto simp: reconnect_def Let_def published_def find_extra_reorgs reorg_target_def bt_get_or_def
        split: option.splits simp flip: first_number_def last_number_def)
qed

lemma reconnect_taken:
  assumes "building_ok b" and "k < length (bd_canonical b)"
    and "first_number b \<le> cur_number c" and "cur_number c < first_number b + k"
  shows "reconnect (taken b k) c =
    (if is_canonical b c \<or> hash_is_zero (cur_hash c) then Ok Continue
     else Ok (reorg_action (reorg_target b c)))"
proof -
  note bounds = building_bounds [OF assms(1)]
  have u: "u64_sub (cur_number c) (first_number b) = cur_number c - first_number b"
    "u64_add (first_number b) (cur_number c - first_number b) = cur_number c"
    and le: "cur_number c \<le> last_number b"
    using assms bounds by (simp_all add: u64_simps)
  show ?thesis
    using assms le
    by (auto simp: reconnect_def Let_def u taken_def is_canonical_def reorg_target_def
        split: option.splits simp flip: first_number_def last_number_def)
qed

section \<open>Runs of the builder and the cursors they ever exposed\<close>

text \<open>\<open>chain_run b H\<close>: some sequence of operations leads to the builder \<open>b\<close>, and \<open>H\<close> holds the
  cursors of all blocks that were canonical at some time. A restart is the step that publishes
  the segment and restores from it.\<close>

inductive chain_run :: "chain_builder \<Rightarrow> cursor set \<Rightarrow> bool" where
  run_new: "chain_run builder_new {}"
| run_grow: "\<lbrakk>chain_run b H; block_ok blk; b = Empty \<or> bi_number blk \<noteq> 0; grow b blk = Ok b'\<rbrakk>
    \<Longrightarrow> chain_run b' (insert (block_cursor blk) H)"
| run_shrink: "\<lbrakk>chain_run b H; shrink b c = Ok (removed, b')\<rbrakk> \<Longrightarrow> chain_run b' H"
| run_take: "\<lbrakk>chain_run b H; 0 < k; take_segment b k = Ok (seg, b')\<rbrakk> \<Longrightarrow> chain_run b' H"
| run_restart: "\<lbrakk>chain_run b H; current_segment b = Ok seg; cs_extra_reorgs seg = [];
    restore_from_segment seg = Ok b'\<rbrakk> \<Longrightarrow> chain_run b' H"

definition history_ok :: "building \<Rightarrow> cursor set \<Rightarrow> bool" where
  "history_ok b H \<longleftrightarrow>
     (\<forall>c. is_canonical b c \<longrightarrow> c \<in> H) \<and>
     (\<forall>c t. reorg_target b c = Some t \<longrightarrow> c \<in> H \<and> t \<in> H \<and> cur_number t < cur_number c) \<and>
     (\<forall>c \<in> H. first_number b \<le> cur_number c \<longrightarrow> is_canonical b c \<or> reorg_target b c \<noteq> None) \<and>
     (\<forall>c \<in> H. \<not> hash_is_zero (cur_hash c))"

fun run_inv :: "chain_builder \<Rightarrow> cursor set \<Rightarrow> bool" where
  "run_inv Empty H \<longleftrightarrow> H = {}"
| "run_inv (Building b) H \<longleftrightarrow> building_ok b \<and> history_ok b H"

lemma run_inv_grow:
  assumes "run_inv b H" and "block_ok blk" and "b = Empty \<or> bi_number blk \<noteq> 0"
    and "grow b blk = Ok b'"
  shows "run_inv b' (insert (block_cursor blk) H)"
proof (cases b)
  case Empty
  have "builder_ok b'" using assms Empty grow_ok by (metis builder_ok.simps(1))
  then show ?thesis
    using assms Empty
    by (auto simp: grow_Empty history_ok_def is_canonical_def reorg_target_def bt_get_or_def
        first_number_def last_number_def block_cursor_def block_ok_def intro: cursor_eqI)
next
  case (Building bd)
  then have ok: "building_ok bd" "links bd blk" and b': "b' = Building (push_block bd blk)"
    and h: "history_ok bd H"
    using assms by (auto simp: grow_Building split: if_splits)
  have nz: "\<not> hash_is_zero (cur_hash (block_cursor blk))"
    using assms(2) by (simp add: block_ok_def block_cursor_def)
  have "history_ok (push_block bd blk) (insert (block_cursor blk) H)"
    using h nz unfolding history_ok_def is_canonical_push_block [OF ok] push_block_sel by blast
  then show ?thesis using ok assms(2) by (simp add: b' push_block_ok)
qed

lemma history_ok_shrunk:
  assumes "building_ok b" and "is_canonical b c" and h: "history_ok b H"
  shows "history_ok (shrunk b c) H"
proof -
  have "c \<in> H" using assms by (auto simp: history_ok_def)
  then show ?thesis
    using h unfolding history_ok_def is_canonical_shrunk [OF assms(1,2)]
      reorg_target_shrunk [OF assms(1,2)] shrunk_sel by (auto split: if_splits)
qed

lemma history_ok_remaining:
  assumes "building_ok b" and "k < length (bd_canonical b)" and h: "history_ok b H"
  shows "history_ok (remaining b k) H"
proof -
  have sub: "reorg_target b c = Some t" if "reorg_target (remaining b k) c = Some t" for c t
  proof (cases "first_number b + k \<le> cur_number c")
    case True
    then show ?thesis using that by (simp add: reorg_target_remaining)
  next
    case False
    have "reorgs_ok (first_number b + k) (bd_reorgs (remaining b k))"
      using remaining_ok [OF assms(1,2)] by (simp add: building_ok_def)
    then have "bt_get (bd_reorgs (remaining b k)) (cur_number c) = None"
      by (rule reorgs_ok_below) (use False in simp)
    then show ?thesis using that by (simp add: reorg_target_def bt_get_or_def)
  qed
  have kept: "is_canonical (remaining b k) c \<or> reorg_target (remaining b k) c \<noteq> None"
    if "c \<in> H" "first_number b + k \<le> cur_number c" for c
    using h that reorg_target_remaining [OF that(2)] is_canonical_remaining [OF assms(2)]
    by (simp add: history_ok_def)
  show ?thesis
    unfolding history_ok_def remaining_sel
    using h kept is_canonical_remaining [OF assms(2)]
    by (simp add: history_ok_def) (use sub in blast)
qed

lemma restored_ok:
  assumes "building_ok b"
  shows "building_ok (restored (published b))"
    and "is_canonical (restored (published b)) c \<longleftrightarrow> is_canonical b c"
proof -
  show "is_canonical (restored (published b)) c \<longleftrightarrow> is_canonical b c"
    by (simp add: is_canonical_def first_number_def last_number_def)
  define first where "first = first_number b"
  have ok: "reorgs_ok first (bd_reorgs b)" and fit: "first + length (bd_canonical b) \<le> u64_lim"
    using assms by (simp_all add: building_ok_def first_def)
  have mem: "bt_ok r \<and> first \<le> n \<and> n < u64_lim \<and> (\<forall>x \<in> set r. cur_number (snd x) < n)"
    if "(n, r) \<in> set (bd_reorgs (restored (published b)))" for n r
  proof -
    have sorted: "bt_ok (bd_reorgs (restored (published b)))"
      using bt_ok_zip_upt [of _ "map cb_reorgs (cs_canonical (published b))"]
      by (simp add: restored_def Let_def)
    then have "bt_get (bd_reorgs (restored (published b))) n = Some r"
      using that by (simp add: bt_get_iff_mem)
    then have n: "first \<le> n" "n < first + length (bd_canonical b)"
      and "r = bt_get_or [] (bd_reorgs (restored (published b))) n"
      by (auto simp: bt_get_restored bt_get_or_def Let_def first_def first_number_def split: if_splits)
    moreover have "n \<le> last_number b"
      using n building_bounds [OF assms] by (simp add: first_def)
    ultimately have r: "r = bt_get_or [] (bd_reorgs b) n"
      using bt_get_or_restored [OF assms] by (simp add: first_def)
    have "bt_ok r" using ok by (auto simp: r reorgs_ok_def intro: bt_ok_get_or)
    moreover have "cur_number (snd x) < n" if "x \<in> set r" for x
      using that ok bt_get_or_memD [of "bd_reorgs b" x n] unfolding r
      by (fastforce simp: reorgs_ok_def)
    ultimately show ?thesis using n fit by auto
  qed
  moreover have "bt_ok (bd_reorgs (restored (published b)))"
    using bt_ok_zip_upt [of _ "map cb_reorgs (cs_canonical (published b))"]
    by (simp add: restored_def Let_def)
  ultimately have "reorgs_ok first (bd_reorgs (restored (published b)))"
    by (fastforce simp: reorgs_ok_def)
  then show "building_ok (restored (published b))"
    using assms by (simp add: building_ok_def first_def flip: first_number_def)
qed

lemma run_inv_shrink: "run_inv b H \<Longrightarrow> shrink b c = Ok (removed, b') \<Longrightarrow> run_inv b' H"
  by (cases b) (auto simp: shrink_Building shrunk_ok history_ok_shrunk shrink_def [of Empty] split: if_splits)

lemma run_inv_take: "run_inv b H \<Longrightarrow> 0 < k \<Longrightarrow> take_segment b k = Ok (seg, b') \<Longrightarrow> run_inv b' H"
  by (cases b)
    (auto simp: take_segment_Building remaining_ok history_ok_remaining take_segment_def [of Empty]
      split: if_splits)

text \<open>A restored builder knows the cursors up to its last block. When no reorg is above the last block, these are
  all.\<close>

lemma run_inv_restore:
  assumes "run_inv b H" and "current_segment b = Ok seg" and "restore_from_segment seg = Ok b'"
  shows "run_inv b' {c \<in> H. cur_number c \<le> cur_number (last_block (cs_info seg))}"
    and "cs_extra_reorgs seg = [] \<Longrightarrow> {c \<in> H. cur_number c \<le> cur_number (last_block (cs_info seg))} = H"
proof -
  obtain bd where b: "b = Building bd" and seg: "seg = published bd"
    using assms(2) by (cases b) (auto simp: current_segment_Building current_segment_def [of Empty])
  then have ok: "building_ok bd" "history_ok bd H" using assms(1) by simp_all
  have last: "cur_number (last_block (cs_info seg)) = last_number bd" by (simp add: seg last_number_def)
  have b': "b' = Building (restored (published bd))"
    using assms(3) seg restore_from_segment_eq [OF published_ok] ok by simp
  have first: "first_number (restored (published bd)) = first_number bd" by (simp add: first_number_def)
  have canonical: "is_canonical bd c \<Longrightarrow> cur_number c \<le> last_number bd" for c by (simp add: is_canonical_def)
  have "history_ok (restored (published bd)) {c \<in> H. cur_number c \<le> last_number bd}"
    unfolding history_ok_def restored_ok(2) [OF ok(1)] reorg_target_restored [OF ok(1)] first
    using ok(2) canonical unfolding history_ok_def by (fastforce split: if_splits)
  then show "run_inv b' {c \<in> H. cur_number c \<le> cur_number (last_block (cs_info seg))}"
    using restored_ok(1) [OF ok(1)] by (simp add: b' last)
  show "{c \<in> H. cur_number c \<le> cur_number (last_block (cs_info seg))} = H" if none: "cs_extra_reorgs seg = []"
  proof -
    have "cur_number c \<le> last_number bd" if "c \<in> H" for c
    proof (rule ccontr)
      assume above: "\<not> cur_number c \<le> last_number bd"
      then have "\<not> is_canonical bd c" "reorg_target bd c = None"
        using canonical reorg_target_above [OF ok(1)] none seg by auto
      moreover have "first_number bd \<le> cur_number c" using above building_bounds [OF ok(1)] by simp
      ultimately show False using ok(2) that by (auto simp: history_ok_def)
    qed
    then show ?thesis by (auto simp: last)
  qed
qed

lemma run_inv_restart:
  assumes "run_inv b H" and "current_segment b = Ok seg" and "cs_extra_reorgs seg = []"
    and "restore_from_segment seg = Ok b'"
  shows "run_inv b' H"
  using run_inv_restore [OF assms(1,2,4)] assms(3) by simp

lemmas run_inv_steps = run_inv_grow run_inv_shrink run_inv_take run_inv_restart

lemma chain_run_inv: "chain_run b H \<Longrightarrow> run_inv b H"
  by (induction rule: chain_run.induct) (simp add: builder_new_def, (blast intro: run_inv_steps)+)

text \<open>In every run the last published segment answers each cursor that was ever canonical and is
  not below the segment: it is still canonical, or a strictly lower cursor is given that was
  itself canonical at some time.\<close>

lemma reconnect_history:
  assumes "run_inv (Building b) H" and "c \<in> H" and "first_number b \<le> cur_number c"
  shows "reconnect (published b) c =
    (if is_canonical b c then Ok Continue else Ok (reorg_action (reorg_target b c)))"
    and "\<not> is_canonical b c \<Longrightarrow>
      \<exists>t \<in> H. reorg_target b c = Some t \<and> cur_number t < cur_number c"
proof -
  have ok: "building_ok b" and h: "history_ok b H" using assms(1) by simp_all
  have nz: "\<not> hash_is_zero (cur_hash c)" using h assms(2) by (simp add: history_ok_def)
  show ex: "\<exists>t \<in> H. reorg_target b c = Some t \<and> cur_number t < cur_number c"
    if "\<not> is_canonical b c"
    using h assms(2,3) that by (fastforce simp: history_ok_def)
  have "bt_get (bd_reorgs b) (cur_number c) \<noteq> None" if "\<not> is_canonical b c"
    using ex [OF that] by (auto simp: reorg_target_def bt_get_or_def split: option.splits)
  moreover have "\<not> is_canonical b c" if "\<not> cur_number c \<le> last_number b"
    using that by (simp add: is_canonical_def)
  ultimately show "reconnect (published b) c =
      (if is_canonical b c then Ok Continue else Ok (reorg_action (reorg_target b c)))"
    using nz unfolding reconnect_published [OF ok assms(3)] by (cases "is_canonical b c") auto
qed

text \<open>The walk a client makes: it goes back to the cursor it is given until it may continue.
  It stops on a cursor below the segment, whose answer is in an older segment.\<close>

function follow :: "chain_segment \<Rightarrow> cursor \<Rightarrow> (cursor, chain_error) outcome" where
  "follow seg c = (case reconnect seg c of
      Ok Continue \<Rightarrow> Ok c
    | Ok (OfflineReorg t) \<Rightarrow>
        if cur_number t < cur_number c \<and> cur_number (first_block (cs_info seg)) \<le> cur_number t
        then follow seg t else Ok t
    | Ok Unknown \<Rightarrow> Err ViewError
    | Err e \<Rightarrow> Err e
    | Panic \<Rightarrow> Panic)"
  by pat_completeness auto
termination
  by (relation "measure (\<lambda>(seg, c). cur_number c)") auto

declare follow.simps [simp del]

lemma follow_published:
  assumes "run_inv (Building b) H"
  shows "c \<in> H \<Longrightarrow> first_number b \<le> cur_number c \<Longrightarrow>
    \<exists>t \<in> H. follow (published b) c = Ok t \<and> cur_number t \<le> cur_number c \<and>
      (is_canonical b t \<or> cur_number t < first_number b)"
proof (induction "cur_number c" arbitrary: c rule: less_induct)
  case less
  note step = reconnect_history [OF assms less.prems]
  show ?case
  proof (cases "is_canonical b c")
    case True
    then show ?thesis using step(1) less.prems(1) by (subst follow.simps) auto
  next
    case False
    then obtain t where t: "t \<in> H" "reorg_target b c = Some t" "cur_number t < cur_number c"
      using step(2) by blast
    show ?thesis
    proof (cases "first_number b \<le> cur_number t")
      case True
      then have "follow (published b) c = follow (published b) t"
        using step(1) False t by (subst follow.simps) (simp add: first_number_def)
      then show ?thesis using less.hyps [OF t(3,1) True] t(3) by auto
    next
      case below: False
      then have "follow (published b) c = Ok t"
        using step(1) False t by (subst follow.simps) (simp add: first_number_def)
      then show ?thesis using t below by auto
    qed
  qed
qed

text \<open>C1: A client that was given any canonical block at any time of a run, and is not behind the
  published segment, always gets back: \<open>reconnect\<close> never errs on its cursor nor answers
  \<open>Unknown\<close>, and following the offline reorgs it returns ends, at a block at or below the
  client's cursor that is canonical now or lies below the segment.\<close>

theorem reorged_client_recovers:
  assumes "chain_run (Building b) H" and "current_segment (Building b) = Ok seg"
    and "c \<in> H" and "cur_number (first_block (bd_info b)) \<le> cur_number c"
  shows "(reconnect seg c = Ok Continue \<or>
          (\<exists>t \<in> H. reconnect seg c = Ok (OfflineReorg t) \<and> cur_number t < cur_number c)) \<and>
         (\<exists>t \<in> H. follow seg c = Ok t \<and> cur_number t \<le> cur_number c \<and>
            (segment_canonical seg (cur_number t) = Ok t \<or>
             cur_number t < cur_number (first_block (cs_info seg))))"
proof -
  have inv: "run_inv (Building b) H" using assms(1) by (rule chain_run_inv)
  then have ok: "building_ok b" by simp
  have seg: "seg = published b" using assms(2) by (simp add: current_segment_Building)
  have c: "first_number b \<le> cur_number c" using assms(4) by (simp add: first_number_def)
  note step = reconnect_history [OF inv assms(3) c]
  have "segment_canonical seg (cur_number t) = Ok t" if "is_canonical b t" for t
  proof -
    have t: "first_number b \<le> cur_number t" "cur_number t \<le> last_number b"
      using that by (simp_all add: is_canonical_def)
    then have "u64_sub (cur_number t) (first_number b) = cur_number t - first_number b"
      using building_bounds [OF ok] by (simp add: u64_simps)
    then show ?thesis
      using that t canonical_index [OF ok t]
      by (simp add: segment_canonical_def seg published_def is_canonical_def
          flip: first_number_def last_number_def)
  qed
  then show ?thesis
    using step follow_published [OF inv assms(3) c]
    by (auto simp: seg split: if_splits simp flip: first_number_def)
qed

end
