(* ===== verification/ChainSpec.thy ===== *)
theory ChainSpec
  imports Reorg
begin

text \<open>
  The abstract model of the repository's own specification, \<open>spec/reorg_detection/view.qnt\<close>, and
  the functional refinement of its \<open>grow\<close>, \<open>shrink\<close> and \<open>finalize\<close> by the operations of
  \<open>common/src/chain.rs\<close>. The view's finalized block is the first block of the builder.
  The theory also collects the properties of the builder's operations.
\<close>

section \<open>The view of the specification\<close>

record view =
  v_finalized :: nat
  v_head :: nat
  v_canonical :: "nat \<rightharpoonup> hash"
  v_reorgs :: "nat \<rightharpoonup> (hash \<rightharpoonup> cursor)"

definition map_remove_range :: "(nat \<rightharpoonup> 'a) \<Rightarrow> nat \<Rightarrow> nat \<Rightarrow> (nat \<rightharpoonup> 'a)" where
  "map_remove_range m lb ub = (\<lambda>n. if n < lb \<or> n > ub then m n else None)"

definition view_can_finalize :: "view \<Rightarrow> nat \<Rightarrow> bool" where
  "view_can_finalize v n \<longleftrightarrow> v_finalized v < n \<and> v_head v \<ge> n"

definition view_finalize :: "view \<Rightarrow> nat \<Rightarrow> view" where
  "view_finalize v n = v\<lparr>
     v_finalized := n,
     v_canonical := map_remove_range (v_canonical v) (v_finalized v) (n - 1),
     v_reorgs := map_remove_range (v_reorgs v) (v_finalized v) (n - 1)\<rparr>"

definition view_can_grow :: "view \<Rightarrow> block_info \<Rightarrow> bool" where
  "view_can_grow v blk \<longleftrightarrow> v_head v + 1 = bi_number blk \<and> v_canonical v (v_head v) = Some (bi_parent blk)"

definition view_grow :: "view \<Rightarrow> block_info \<Rightarrow> view" where
  "view_grow v blk = v\<lparr>
     v_head := bi_number blk,
     v_canonical := (v_canonical v)(bi_number blk \<mapsto> bi_hash blk),
     v_reorgs := (if v_reorgs v (bi_number blk) \<noteq> None then v_reorgs v
                  else (v_reorgs v)(bi_number blk \<mapsto> Map.empty))\<rparr>"

definition view_can_shrink :: "view \<Rightarrow> cursor \<Rightarrow> bool" where
  "view_can_shrink v c \<longleftrightarrow> cur_number c > v_finalized v \<and> cur_number c < v_head v \<and>
     v_canonical v (cur_number c) = Some (cur_hash c)"

definition view_shrink :: "view \<Rightarrow> cursor \<Rightarrow> view" where
  "view_shrink v c = v\<lparr>
     v_head := cur_number c,
     v_canonical := map_remove_range (v_canonical v) (cur_number c + 1) (v_head v),
     v_reorgs := (\<lambda>n. case v_reorgs v n of
         None \<Rightarrow> None
       | Some r \<Rightarrow>
           if n \<le> cur_number c \<or> n > v_head v then Some r
           else (case v_canonical v n of
                   Some canon \<Rightarrow> Some (r(canon \<mapsto> mk_cursor (cur_number c) (cur_hash c)))
                 | None \<Rightarrow> Some r))\<rparr>"

text \<open>The abstraction: a block number has a reorg map as soon as it is in range or was reorged.\<close>

definition view_of :: "building \<Rightarrow> view" where
  "view_of b = \<lparr>
     v_finalized = first_number b,
     v_head = last_number b,
     v_canonical = (\<lambda>n. if first_number b \<le> n \<and> n \<le> last_number b
                        then Some (bd_canonical b ! (n - first_number b)) else None),
     v_reorgs = (\<lambda>n. if first_number b \<le> n \<and> n \<le> last_number b \<or> bt_get (bd_reorgs b) n \<noteq> None
                     then Some (\<lambda>h. reorg_target b (mk_cursor n h)) else None)\<rparr>"

text \<open>A small chain used to apply the properties: blocks 5, 6 and 7, all on one fork.\<close>

definition demo_hash :: "nat \<Rightarrow> hash" where
  "demo_hash n = Hash [1, word_of_nat n]"

definition demo_cursor :: "nat \<Rightarrow> cursor" where
  "demo_cursor n = mk_cursor n (demo_hash n)"

definition demo_block :: "nat \<Rightarrow> block_info" where
  "demo_block n = \<lparr>bi_number = n, bi_hash = demo_hash n, bi_parent = demo_hash (n - 1)\<rparr>"

definition demo_building :: building where
  "demo_building = \<lparr>bd_previous_segment = None,
     bd_info = \<lparr>first_block = demo_cursor 5, last_block = demo_cursor 7\<rparr>,
     bd_canonical = [demo_hash 5, demo_hash 6, demo_hash 7], bd_reorgs = []\<rparr>"

text \<open>The same chain after a reorg back to block 5.\<close>

definition demo_reorged :: building where
  "demo_reorged = \<lparr>bd_previous_segment = None,
     bd_info = \<lparr>first_block = demo_cursor 5, last_block = demo_cursor 5\<rparr>,
     bd_canonical = [demo_hash 5],
     bd_reorgs = [(6, [(demo_hash 6, demo_cursor 5)]), (7, [(demo_hash 7, demo_cursor 5)])]\<rparr>"

section \<open>Refinement\<close>

lemma view_eqI:
  "v_finalized v = v_finalized w \<Longrightarrow> v_head v = v_head w \<Longrightarrow> (\<And>n. v_canonical v n = v_canonical w n) \<Longrightarrow>
   (\<And>n. v_reorgs v n = v_reorgs w n) \<Longrightarrow> (v :: view) = w"
  by (cases v, cases w) (simp add: fun_eq_iff)

lemma view_can_grow_iff:
  assumes "building_ok b"
  shows "view_can_grow (view_of b) blk \<longleftrightarrow> links b blk"
proof -
  have "bd_canonical b ! (last_number b - first_number b) = last (bd_canonical b)"
    using assms building_bounds [OF assms] by (simp add: building_ok_def last_conv_nth)
  then show ?thesis
    using building_bounds(1) [OF assms] by (auto simp: view_can_grow_def view_of_def links_def)
qed

lemma view_push_block:
  assumes "building_ok b" and "links b blk"
  shows "view_of (push_block b blk) = view_grow (view_of b) blk"
proof (rule view_eqI)
  have bounds: "length (bd_canonical b) = Suc (last_number b - first_number b)"
    "first_number b \<le> last_number b" "bi_number blk = Suc (last_number b)"
    using building_bounds [OF assms(1)] assms(2) by (simp_all add: links_def)
  show "v_canonical (view_of (push_block b blk)) n = v_canonical (view_grow (view_of b) blk) n" for n
    using bounds by (auto simp: view_of_def view_grow_def nth_append)
  have empty: "reorg_target b (mk_cursor n h) = None" if "bt_get (bd_reorgs b) n = None" for n h
    using that by (simp add: reorg_target_def bt_get_or_def)
  show "v_reorgs (view_of (push_block b blk)) n = v_reorgs (view_grow (view_of b) blk) n" for n
    using bounds empty by (auto simp: view_of_def view_grow_def)
qed (simp_all add: view_of_def view_grow_def)

lemma view_finalize_remaining:
  assumes "building_ok b" and "0 < k" and "k < length (bd_canonical b)"
  shows "view_of (remaining b k) = view_finalize (view_of b) (first_number b + k)"
proof (rule view_eqI)
  show "v_canonical (view_of (remaining b k)) n =
      v_canonical (view_finalize (view_of b) (first_number b + k)) n" for n
    using assms by (auto simp: view_of_def view_finalize_def map_remove_range_def)
  have below: "bt_get (bd_reorgs (remaining b k)) n = None" if "n < first_number b + k" for n
    using remaining_ok [OF assms(1,3)] that reorgs_ok_below [of "first_number b + k"]
    by (simp add: building_ok_def)
  have above: "bt_get (bd_reorgs (remaining b k)) n = bt_get (bd_reorgs b) n"
    if "first_number b + k \<le> n" for n
    using that bt_get_filter_keys [of "\<lambda>n. \<not> (first_number b \<le> n \<and> n < first_number b + k)" "bd_reorgs b" n]
    by (simp add: remaining_def)
  have low: "bt_get (bd_reorgs b) n = None" if "n < first_number b" for n
    using assms(1) that reorgs_ok_below [of "first_number b" "bd_reorgs b" n]
    by (simp add: building_ok_def)
  have "first_number b + k \<le> last_number b"
    using assms(3) building_bounds [OF assms(1)] by simp
  then show "v_reorgs (view_of (remaining b k)) n =
      v_reorgs (view_finalize (view_of b) (first_number b + k)) n" for n
    using assms below above low reorg_target_remaining [of b k "mk_cursor n _"]
    by (cases "n < first_number b + k")
      (auto simp: view_of_def view_finalize_def map_remove_range_def)
qed (simp_all add: view_of_def view_finalize_def)

lemma view_shrunk:
  assumes "building_ok b" and "is_canonical b c"
  shows "view_of (shrunk b c) = view_shrink (view_of b) c"
proof (rule view_eqI)
  note bounds = building_bounds [OF assms(1)]
  have c: "first_number b \<le> cur_number c" "cur_number c \<le> last_number b"
    using assms(2) by (simp_all add: is_canonical_def)
  show "v_canonical (view_of (shrunk b c)) n = v_canonical (view_shrink (view_of b) c) n" for n
    using c bounds by (auto simp: view_of_def view_shrink_def map_remove_range_def)
  have keys: "bt_get (bd_reorgs (shrunk b c)) n \<noteq> None \<longleftrightarrow>
      bt_get (bd_reorgs b) n \<noteq> None \<or> cur_number c < n \<and> n \<le> last_number b" for n
    by (rule bt_get_shrunk_keys [OF assms])
  have canon: "is_canonical b (mk_cursor n h) \<longleftrightarrow>
      first_number b \<le> n \<and> n \<le> last_number b \<and> bd_canonical b ! (n - first_number b) = h" for n h
    by (simp add: is_canonical_def)
  show "v_reorgs (view_of (shrunk b c)) n = v_reorgs (view_shrink (view_of b) c) n" for n
    using c
    by (auto simp: view_of_def view_shrink_def keys reorg_target_shrunk [OF assms] canon fun_eq_iff
        simp del: not_None_eq)
qed (simp_all add: view_of_def view_shrink_def)

text \<open>C4: The builder refines the specification's view. On a well-formed builder, and for a
  non-genesis block with a representable number and a non-zero hash, \<open>grow\<close> succeeds exactly when
  the view can grow and then acts as the view's \<open>grow\<close>; whenever the view can shrink, \<open>shrink\<close>
  succeeds, and every success acts as the view's \<open>shrink\<close>; \<open>take_segment\<close> of \<open>k\<close> blocks succeeds
  exactly when the view can finalize the block \<open>k\<close> above its first one and then acts as
  \<open>finalize\<close>.\<close>

theorem builder_refines_view:
  assumes "builder_ok (Building b)" and "block_ok blk" and "bi_number blk \<noteq> 0" and "0 < k"
  shows "(if view_can_grow (view_of b) blk
          then \<exists>b'. grow (Building b) blk = Ok (Building b') \<and> view_of b' = view_grow (view_of b) blk
          else grow (Building b) blk = Err BuilderError) \<and>
         (view_can_shrink (view_of b) c \<longrightarrow> is_ok (shrink (Building b) c)) \<and>
         (\<forall>removed b'. shrink (Building b) c = Ok (removed, Building b') \<longrightarrow>
            view_of b' = view_shrink (view_of b) c) \<and>
         (if view_can_finalize (view_of b) (v_finalized (view_of b) + k)
          then \<exists>seg b'. take_segment (Building b) k = Ok (seg, Building b') \<and>
                 view_of b' = view_finalize (view_of b) (v_finalized (view_of b) + k)
          else take_segment (Building b) k = Err BuilderError)"
proof -
  have ok: "building_ok b" using assms(1) by simp
  have "view_can_shrink (view_of b) c \<Longrightarrow> is_canonical b c"
    by (auto simp: view_can_shrink_def view_of_def is_canonical_def split: if_splits)
  moreover have "view_can_finalize (view_of b) (v_finalized (view_of b) + k) \<longleftrightarrow> k < length (bd_canonical b)"
    using assms(4) building_bounds [OF ok] by (auto simp: view_can_finalize_def view_of_def)
  moreover have "v_finalized (view_of b) = first_number b" by (simp add: view_of_def)
  ultimately show ?thesis
    using assms(2,3,4) ok
    by (auto simp: view_can_grow_iff grow_Building view_push_block shrink_Building view_shrunk
        take_segment_Building view_finalize_remaining split: if_splits)
qed

section \<open>Properties of the operations\<close>

lemma set_removed_blocks:
  assumes "building_ok b" and "is_canonical b c"
  shows "x \<in> set (removed_blocks b c) \<longleftrightarrow> is_canonical b x \<and> cur_number c < cur_number x"
  using assms(2)
  by (auto simp: removed_blocks_def is_canonical_def image_iff simp del: upt_Suc intro: cursor_eqI)
    (metis Suc_le_eq atLeastLessThan_iff less_Suc_eq_le mk_cursor_collapse)

lemma removed_blocks_hashes:
  assumes "building_ok b" and "is_canonical b c"
  shows "bd_canonical (shrunk b c) @ map cur_hash (removed_blocks b c) = bd_canonical b"
proof -
  have c: "first_number b \<le> cur_number c" "cur_number c \<le> last_number b"
    using assms(2) by (simp_all add: is_canonical_def)
  have "map cur_hash (removed_blocks b c) = drop (Suc (cur_number c - first_number b)) (bd_canonical b)"
    using c building_bounds [OF assms(1)]
    by (intro nth_equalityI) (auto simp: removed_blocks_def Suc_diff_le simp del: upt_Suc)
  then show ?thesis by simp
qed

text \<open>C9: In every run of the builder, restarts included, the builder is well formed, neither
  \<open>shrink\<close> nor \<open>take_segment\<close> of a positive size hits an assertion or an index out of range, and
  every segment it publishes is well formed.\<close>

theorem chain_run_safe:
  assumes "chain_run b H"
  shows "builder_ok b \<and> shrink b c \<noteq> Panic \<and> take_segment b (Suc k) \<noteq> Panic \<and>
    (case current_segment b of Ok seg \<Rightarrow> segment_ok seg | Err e \<Rightarrow> b = Empty | Panic \<Rightarrow> False)"
proof (cases b)
  case Empty
  then show ?thesis by (simp add: shrink_def take_segment_def current_segment_def)
next
  case (Building bd)
  then have "building_ok bd" using chain_run_inv [OF assms] by simp
  then show ?thesis
    by (simp add: Building shrink_Building take_segment_Building current_segment_Building published_ok)
qed

text \<open>C10: \<open>shrink\<close> fails exactly on a cursor that is not canonical. Otherwise it cuts the chain
  after that cursor, returns the removed blocks in ascending order without a gap, and records
  the new head as reorg target of exactly the removed blocks, keeping all other targets.\<close>

theorem shrink_spec:
  assumes "builder_ok (Building b)"
  shows "case shrink (Building b) c of
      Ok (removed, b') \<Rightarrow> is_canonical b c \<and> (\<exists>bd. b' = Building bd \<and>
        bd_canonical bd @ map cur_hash removed = bd_canonical b \<and>
        map cur_number removed = [Suc (cur_number c)..<Suc (last_number b)] \<and>
        first_block (bd_info bd) = first_block (bd_info b) \<and> last_block (bd_info bd) = c \<and>
        bd_previous_segment bd = bd_previous_segment b \<and>
        (\<forall>x. reorg_target bd x = (if x \<in> set removed then Some c else reorg_target b x)))
    | Err e \<Rightarrow> \<not> is_canonical b c \<and> e = BuilderError
    | Panic \<Rightarrow> False"
proof -
  have ok: "building_ok b" using assms by simp
  have "map cur_number (removed_blocks b c) = [Suc (cur_number c)..<Suc (last_number b)]"
    by (simp add: removed_blocks_def o_def del: upt_Suc)
  moreover have "first_block (bd_info (shrunk b c)) = first_block (bd_info b)"
    "last_block (bd_info (shrunk b c)) = c"
    by (simp_all add: shrunk_def)
  ultimately show ?thesis
    using removed_blocks_hashes [OF ok] reorg_target_shrunk [OF ok] set_removed_blocks [OF ok]
    by (simp add: shrink_Building [OF ok] del: shrunk_sel(4) upt_Suc)
qed

text \<open>C11: \<open>take_segment\<close> of \<open>k > 0\<close> blocks succeeds exactly when at least one block is left over.
  The taken hashes followed by the remaining ones are the chain before; the segment is well
  formed, starts at the old first block, carries the reorgs recorded at its blocks, and becomes
  the previous segment of the rest, which starts \<open>k\<close> blocks later and keeps the last block and
  all reorgs at its blocks and above.\<close>

theorem take_segment_spec:
  assumes "builder_ok (Building b)" and "0 < k"
  shows "case take_segment (Building b) k of
      Ok (seg, b') \<Rightarrow> k < length (bd_canonical b) \<and> (\<exists>bd. b' = Building bd \<and>
        map cb_hash (cs_canonical seg) @ bd_canonical bd = bd_canonical b \<and>
        length (cs_canonical seg) = k \<and> segment_ok seg \<and> building_ok bd \<and>
        first_block (cs_info seg) = first_block (bd_info b) \<and>
        cs_previous_segment seg = bd_previous_segment b \<and>
        bd_previous_segment bd = Some (cs_info seg) \<and>
        first_number bd = first_number b + k \<and>
        last_block (bd_info bd) = last_block (bd_info b) \<and>
        (\<forall>i < k. cb_reorgs (cs_canonical seg ! i) = bt_get_or [] (bd_reorgs b) (first_number b + i)) \<and>
        (\<forall>c. first_number bd \<le> cur_number c \<longrightarrow> reorg_target bd c = reorg_target b c))
    | Err e \<Rightarrow> length (bd_canonical b) \<le> k \<and> e = BuilderError
    | Panic \<Rightarrow> False"
proof (cases "k < length (bd_canonical b)")
  case True
  have ok: "building_ok b" using assms by simp
  have "u64_add (first_number b) i = first_number b + i" if "i < k" for i
    using that True building_bounds [OF ok] by (simp add: u64_simps)
  then have "cb_reorgs (cs_canonical (taken b k) ! i) = bt_get_or [] (bd_reorgs b) (first_number b + i)"
    if "i < k" for i
    using that True by (simp add: taken_def)
  then show ?thesis
    using True ok assms(2)
    by (simp add: take_segment_Building taken_ok remaining_ok reorg_target_remaining min_absorb2)
next
  case False
  then show ?thesis using assms by (simp add: take_segment_Building)
qed

text \<open>C19: Restoring a builder from a stored segment and publishing it again gives back the
  segment with its blocks and their reorgs; the reorgs of blocks above the last one are gone.\<close>

theorem restore_roundtrip:
  assumes "segment_ok seg"
  shows "obind (restore_from_segment seg) current_segment = Ok (seg\<lparr>cs_extra_reorgs := []\<rparr>)"
  using assms by (simp add: restore_from_segment_eq current_segment_Building published_restored)

section \<open>The demonstration chain\<close>

lemmas demo_defs = demo_hash_def demo_cursor_def demo_block_def demo_building_def demo_reorged_def

lemmas demo_eval = demo_defs building_ok_def reorgs_ok_def first_number_def last_number_def
  hash_is_zero_def u64_lim_def u64_add_def u64_sub_def grow_def shrink_def Let_def block_cursor_def
  block_ok_def mk_cursor_def bt_entry_def bt_get_or_def bt_get_def bt_ok_def published_def
  extra_reorgs_def reconnect_def segment_ok_def view_of_def view_can_grow_def

lemma demo_building_ok: "builder_ok (Building demo_building)"
  by (simp add: demo_eval)

lemma demo_grow:
  "grow Empty (demo_block 5) = Ok (Building (demo_building
     \<lparr>bd_info := \<lparr>first_block = demo_cursor 5, last_block = demo_cursor 5\<rparr>,
      bd_canonical := [demo_hash 5]\<rparr>))"
  "grow (Building (demo_building
     \<lparr>bd_info := \<lparr>first_block = demo_cursor 5, last_block = demo_cursor 5\<rparr>,
      bd_canonical := [demo_hash 5]\<rparr>)) (demo_block 6) = Ok (Building (demo_building
     \<lparr>bd_info := \<lparr>first_block = demo_cursor 5, last_block = demo_cursor 6\<rparr>,
      bd_canonical := [demo_hash 5, demo_hash 6]\<rparr>))"
  "grow (Building (demo_building
     \<lparr>bd_info := \<lparr>first_block = demo_cursor 5, last_block = demo_cursor 6\<rparr>,
      bd_canonical := [demo_hash 5, demo_hash 6]\<rparr>)) (demo_block 7) = Ok (Building demo_building)"
  by (simp_all add: demo_eval)

lemma demo_block_ok: "block_ok (demo_block 5)" "block_ok (demo_block 6)" "block_ok (demo_block 7)"
  by (simp_all add: demo_eval)

lemma demo_run: "chain_run (Building demo_building) {demo_cursor 7, demo_cursor 6, demo_cursor 5}"
proof -
  have cursors: "block_cursor (demo_block n) = demo_cursor n" for n
    by (simp add: demo_defs block_cursor_def mk_cursor_def)
  have nonzero: "bi_number (demo_block 6) \<noteq> 0" "bi_number (demo_block 7) \<noteq> 0"
    by (simp_all add: demo_block_def)
  have "chain_run Empty {}" using run_new by (simp add: builder_new_def)
  from run_grow [OF this demo_block_ok(1) _ demo_grow(1)]
    run_grow [OF _ demo_block_ok(2) _ demo_grow(2)] run_grow [OF _ demo_block_ok(3) _ demo_grow(3)]
  show ?thesis using nonzero by (simp add: cursors)
qed

lemma demo_shrink:
  "shrink (Building demo_building) (demo_cursor 5) =
    Ok ([demo_cursor 6, demo_cursor 7], Building demo_reorged)"
  by (simp add: demo_eval)

lemma demo_reorged_run: "chain_run (Building demo_reorged) {demo_cursor 7, demo_cursor 6, demo_cursor 5}"
  using run_shrink [OF demo_run demo_shrink] .

text \<open>C20: A restart forgets reorgs. There is a run in which a client holds a cursor that was
  canonical and is answered with an offline reorg, and once the ingestion restarts from the
  very segment that gave this answer, the same cursor is refused with an error.\<close>

theorem restart_forgets_reorgs:
  "\<exists>b H seg b' seg' c t. chain_run b H \<and> c \<in> H \<and>
     current_segment b = Ok seg \<and> reconnect seg c = Ok (OfflineReorg t) \<and>
     restore_from_segment seg = Ok b' \<and> current_segment b' = Ok seg' \<and>
     reconnect seg' c = Err ViewError"
proof -
  have ok: "building_ok demo_reorged" using chain_run_inv [OF demo_reorged_run] by simp
  have "reconnect (published demo_reorged) (demo_cursor 7) = Ok (OfflineReorg (demo_cursor 5))"
    by (simp add: demo_eval)
  moreover have "reconnect ((published demo_reorged)\<lparr>cs_extra_reorgs := []\<rparr>) (demo_cursor 7) = Err ViewError"
    by (simp add: demo_eval)
  ultimately show ?thesis
    using demo_reorged_run restore_from_segment_eq [OF published_ok [OF ok]]
      published_restored [OF published_ok [OF ok]]
    by (intro exI [of _ "Building demo_reorged"] exI [of _ "{demo_cursor 7, demo_cursor 6, demo_cursor 5}"]
        exI [of _ "published demo_reorged"] exI [of _ "Building (restored (published demo_reorged))"]
        exI [of _ "(published demo_reorged)\<lparr>cs_extra_reorgs := []\<rparr>"] exI [of _ "demo_cursor 7"]
        exI [of _ "demo_cursor 5"])
      (simp add: current_segment_Building)
qed

section \<open>Witnesses\<close>

theorem builder_refines_view_witness:
  "\<exists>b'. grow (Building demo_building) (demo_block 8) = Ok (Building b') \<and>
     view_of b' = view_grow (view_of demo_building) (demo_block 8)"
proof -
  have "view_can_grow (view_of demo_building) (demo_block 8)" by (simp add: demo_eval)
  moreover have "block_ok (demo_block 8)" "bi_number (demo_block 8) \<noteq> 0" by (simp_all add: demo_eval)
  ultimately show ?thesis
    using builder_refines_view [OF demo_building_ok, of "demo_block 8" 1] by simp
qed

theorem chain_run_safe_witness:
  "builder_ok (Building demo_reorged) \<and> shrink (Building demo_reorged) (demo_cursor 6) \<noteq> Panic"
  using chain_run_safe [OF demo_reorged_run, of "demo_cursor 6" 0] by simp

theorem shrink_spec_witness:
  "is_canonical demo_building (demo_cursor 5) \<and>
   reorg_target demo_reorged (demo_cursor 7) = Some (demo_cursor 5)"
  using shrink_spec [OF demo_building_ok, of "demo_cursor 5"] by (simp add: demo_shrink)

theorem take_segment_spec_witness:
  "\<exists>seg b'. take_segment (Building demo_building) 2 = Ok (seg, b') \<and>
     map cb_hash (cs_canonical seg) = [demo_hash 5, demo_hash 6] \<and> segment_ok seg"
proof -
  have "take_segment (Building demo_building) 2 =
      Ok (taken demo_building 2, Building (remaining demo_building 2))"
    using demo_building_ok by (simp add: take_segment_Building) (simp add: demo_building_def)
  moreover have "map cb_hash (cs_canonical (taken demo_building 2)) = [demo_hash 5, demo_hash 6]"
    by (simp add: demo_eval)
  ultimately show ?thesis using take_segment_spec [OF demo_building_ok, of 2] by auto
qed

theorem restore_roundtrip_witness:
  "segment_ok (published demo_reorged) \<and>
   obind (restore_from_segment (published demo_reorged)) current_segment =
     Ok ((published demo_reorged)\<lparr>cs_extra_reorgs := []\<rparr>)"
proof -
  have "segment_ok (published demo_reorged)" by (simp add: demo_eval)
  then show ?thesis using restore_roundtrip by blast
qed

theorem reorged_client_recovers_witness:
  "\<exists>t. reconnect (published demo_reorged) (demo_cursor 7) = Ok (OfflineReorg t) \<and>
     cur_number t < 7 \<and> is_ok (follow (published demo_reorged) (demo_cursor 7))"
proof -
  have "reconnect (published demo_reorged) (demo_cursor 7) \<noteq> Ok Continue" by (simp add: demo_eval)
  moreover have "cur_number (first_block (bd_info demo_reorged)) \<le> cur_number (demo_cursor 7)"
    "cur_number (demo_cursor 7) = 7" by (simp_all add: demo_eval)
  ultimately show ?thesis
    using reorged_client_recovers [OF demo_reorged_run current_segment_Building, of "demo_cursor 7"]
    by auto
qed

end
