(* ===== verification/Keys.thy ===== *)
theory Keys
  imports Cursor
begin

text \<open>
  Names of the stored objects: the \<open>format!\<close> strings of \<open>common/src/chain_store.rs\<close> and
  \<open>common/src/block_store.rs\<close>, and the key prefixes of \<open>etcd/src/utils.rs\<close>. The lemmas show
  that the padded decimal names determine the number they were made from, so that different
  blocks, segments and groups never share an object.
\<close>

section \<open>Decimal names\<close>

text \<open>\<open>{:0>w}\<close>: decimal digits filled with zeros on the left up to a width.\<close>

definition pad :: "nat \<Rightarrow> nat \<Rightarrow> string" where
  "pad w n = replicate (w - length (show_nat n)) (CHR ''0'') @ show_nat n"

definition segment_filename :: "nat \<Rightarrow> string" where
  "segment_filename first = ''z-'' @ pad 10 first"

definition canon_key :: "string \<Rightarrow> string" where
  "canon_key key = ''canon'' @ ''/'' @ key"

definition recent_snapshot_filename :: "nat \<Rightarrow> nat \<Rightarrow> nat \<Rightarrow> nat \<Rightarrow> string" where
  "recent_snapshot_filename first_b last_b timestamp_ns counter =
     ''recent'' @ ''/z-'' @ pad 10 first_b @ ''-'' @ pad 10 last_b @ ''-'' @ pad 20 timestamp_ns
       @ ''-'' @ pad 6 (counter mod 1000000)"

text \<open>Keys of the block store.\<close>

definition format_block_prefix :: "nat \<Rightarrow> string" where
  "format_block_prefix number = ''block/'' @ pad 10 number"

definition format_pending_block_key :: "nat \<Rightarrow> nat \<Rightarrow> string" where
  "format_pending_block_key number generation =
     format_block_prefix number @ ''/pending-'' @ pad 4 generation"

definition format_block_key :: "(u8 list \<Rightarrow> string) \<Rightarrow> cursor \<Rightarrow> string" where
  "format_block_key hex_encode c =
     format_block_prefix (cur_number c) @ ''/'' @ hash_display hex_encode (cur_hash c)"

definition format_segment_key :: "cursor \<Rightarrow> string \<Rightarrow> string" where
  "format_segment_key first name = ''segment/'' @ pad 10 (cur_number first) @ ''/'' @ name"

definition format_group_key :: "cursor \<Rightarrow> string" where
  "format_group_key first = ''group/'' @ pad 10 (cur_number first) @ ''/index''"

text \<open>\<open>normalize_prefix\<close>: a non-empty prefix ends in a slash.\<close>

definition normalize_prefix :: "string option \<Rightarrow> string" where
  "normalize_prefix p =
     (let prefix = (case p of Some s \<Rightarrow> s | None \<Rightarrow> [])
      in if (prefix \<noteq> [] \<and> last prefix = CHR ''/'') \<or> prefix = [] then prefix else prefix @ ''/'')"

section \<open>Names determine numbers\<close>

text \<open>The value of a string of decimal digits.\<close>

definition digits_value :: "string \<Rightarrow> nat" where
  "digits_value s = foldl (\<lambda>v c. v * 10 + (of_char c - 48)) 0 s"

lemma digits_value_snoc [simp]: "digits_value (s @ [c]) = digits_value s * 10 + (of_char c - 48)"
  by (simp add: digits_value_def)

lemma of_char_digit: "d < 10 \<Longrightarrow> (of_char (char_of (48 + d)) :: nat) = 48 + d"
  by simp

lemma show_nat_small: "n < 10 \<Longrightarrow> show_nat n = [char_of (48 + n)]"
  and show_nat_large: "\<not> n < 10 \<Longrightarrow> show_nat n = show_nat (n div 10) @ [char_of (48 + n mod 10)]"
  by (simp_all add: show_nat.simps [of n])

lemma digits_value_show_nat: "digits_value (show_nat n) = n"
proof (induction n rule: show_nat.induct)
  case (1 n)
  show ?case
  proof (cases "n < 10")
    case True
    then show ?thesis
      using of_char_digit [OF True] by (simp add: show_nat_small digits_value_def)
  next
    case False
    then show ?thesis
      using 1 of_char_digit [of "n mod 10"] by (simp add: show_nat_large)
  qed
qed

lemma digits_value_zeros: "digits_value (replicate k (CHR ''0'') @ s) = digits_value s"
  by (induction k) (simp_all add: digits_value_def)

lemma digits_value_pad: "digits_value (pad w n) = n"
  by (simp add: pad_def digits_value_zeros digits_value_show_nat)

lemma pad_inject [simp]: "pad w n = pad w m \<longleftrightarrow> n = m"
  by (metis digits_value_pad)

text \<open>Names consist of digits, so a slash or a dash ends them.\<close>

lemma digit_char:
  assumes "(d :: nat) < 10" and "of_char c < (48 :: nat)"
  shows "char_of (48 + d) \<noteq> c"
proof
  assume "char_of (48 + d) = c"
  then have "(of_char c :: nat) = 48 + d" using of_char_digit [OF assms(1)] by auto
  then show False using assms(2) by simp
qed

lemma show_nat_digits: "c \<in> set (show_nat n) \<Longrightarrow> (48 :: nat) \<le> of_char c"
proof (induction n rule: show_nat.induct)
  case (1 n)
  show ?case
  proof (cases "n < 10")
    case True
    then show ?thesis using "1.prems" digit_char [OF True] by (auto simp: show_nat_small not_le [symmetric])
  next
    case False
    then have "c \<in> set (show_nat (n div 10)) \<or> c = char_of (48 + n mod 10)"
      using "1.prems" by (auto simp: show_nat_large)
    then show ?thesis using 1 False of_char_digit [of "n mod 10"] by auto
  qed
qed

lemma pad_digits: "c \<in> set (pad w n) \<Longrightarrow> (48 :: nat) \<le> of_char c"
  using show_nat_digits by (auto simp: pad_def)

text \<open>Splitting two equal names at the first separator.\<close>

lemma append_separator_inject:
  assumes "\<forall>c \<in> set xs. (48 :: nat) \<le> of_char c" and "\<forall>c \<in> set ys. (48 :: nat) \<le> of_char c"
    and "of_char s < (48 :: nat)" and "xs @ s # us = ys @ s # vs"
  shows "xs = ys \<and> us = vs"
  using assms
proof (induction xs arbitrary: ys)
  case Nil
  then show ?case by (cases ys) auto
next
  case (Cons x xs)
  then show ?case by (cases ys) auto
qed

lemma pad_separator_inject:
  assumes "of_char s < (48 :: nat)" and "pad w n @ s # us = pad w m @ s # vs"
  shows "n = m \<and> us = vs"
  using append_separator_inject [OF _ _ assms] pad_digits by (metis pad_inject)

lemma pad_slash_eq [simp]:
  "pad w n @ CHR ''/'' # us = pad w m @ CHR ''/'' # vs \<longleftrightarrow> n = m \<and> us = vs"
  using pad_separator_inject [of "CHR ''/''" w n us m vs] by auto

lemma length_show_nat_le: "n < 10 ^ Suc k \<Longrightarrow> length (show_nat n) \<le> Suc k"
proof (induction k arbitrary: n)
  case 0
  then show ?case by (simp add: show_nat_small)
next
  case (Suc k)
  show ?case
  proof (cases "n < 10")
    case False
    have "n div 10 < 10 ^ Suc k" using Suc.prems by (simp add: less_mult_imp_div_less)
    then show ?thesis using Suc.IH [of "n div 10"] False by (simp add: show_nat_large)
  qed (simp add: show_nat_small)
qed

lemma length_pad: "n < 10 ^ w \<Longrightarrow> 0 < w \<Longrightarrow> length (pad w n) = w"
  using length_show_nat_le [of n "w - 1"] by (simp add: pad_def)

text \<open>The display of a hash determines the hash, since the \<open>hex\<close> crate writes two digits per byte and different
  strings for different bytes.\<close>

lemma hash_display_inject:
  assumes "inj hex" and "\<forall>bs. length (hex bs) = 2 * length bs"
  shows "hash_display hex g = hash_display hex h \<longleftrightarrow> g = h"
proof -
  have "hex bs \<noteq> ''0''" for bs
  proof
    assume "hex bs = ''0''"
    then have "2 * length bs = length ''0''" using assms(2) by metis
    then show False by simp
  qed
  then have "''0'' \<noteq> hex bs" "hex bs \<noteq> ''0''" for bs by metis+
  then show ?thesis
    using assms(1) by (cases g; cases h) (simp add: hash_display_def inj_eq)
qed

lemma pad_dash_eq [simp]:
  "pad w n @ CHR ''-'' # us = pad w m @ CHR ''-'' # vs \<longleftrightarrow> n = m \<and> us = vs"
  using pad_separator_inject [of "CHR ''-''" w n us m vs] by auto

text \<open>A reference encoder: lower-case hexadecimal digits.\<close>

definition hex_digit :: "nat \<Rightarrow> char" where
  "hex_digit n = (if n < 10 then char_of (48 + n) else char_of (87 + n))"

definition hex_encode :: "u8 list \<Rightarrow> string" where
  "hex_encode bs = concat (map (\<lambda>b. [hex_digit (unat b div 16), hex_digit (unat b mod 16)]) bs)"

lemma hex_digit_inject:
  assumes "m < 16" and "n < 16"
  shows "hex_digit m = hex_digit n \<longleftrightarrow> m = n"
proof
  assume "hex_digit m = hex_digit n"
  then have "(of_char (hex_digit m) :: nat) = of_char (hex_digit n)" by simp
  moreover have "(of_char (hex_digit k) :: nat) = (if k < 10 then 48 + k else 87 + k)" if "k < 16" for k
    using that by (simp add: hex_digit_def)
  ultimately show "m = n" using assms by (simp split: if_splits)
qed simp

lemma length_hex_encode: "length (hex_encode bs) = 2 * length bs"
  by (induction bs) (simp_all add: hex_encode_def)

lemma inj_hex_encode: "inj hex_encode"
proof (rule injI)
  fix as bs
  assume "hex_encode as = hex_encode bs"
  then show "as = bs"
  proof (induction as arbitrary: bs)
    case Nil
    then show ?case using length_hex_encode [of bs] by (simp add: hex_encode_def)
  next
    case (Cons a as)
    then obtain b bs' where bs: "bs = b # bs'" using length_hex_encode [of bs] by (cases bs) (simp_all add: hex_encode_def)
    have "unat x < 2 ^ LENGTH(8)" for x :: u8 by (rule unsigned_less)
    then have lt: "unat x div 16 < 16" for x :: u8 by (simp add: less_mult_imp_div_less)
    have "unat a div 16 = unat b div 16" "unat a mod 16 = unat b mod 16" "hex_encode as = hex_encode bs'"
      using Cons.prems lt by (simp_all add: bs hex_encode_def hex_digit_inject)
    moreover from this have "a = b" by (metis div_mult_mod_eq word_unat_eq_iff)
    ultimately show ?case using Cons.IH by (simp add: bs)
  qed
qed

text \<open>C30: Object names are unambiguous. Two chain segments, recent snapshots, blocks, pending blocks, segment
  fragments or groups have the same key only when they have the same numbers, and also the same hash, generation,
  fragment name, time and counter (modulo 1000000) where the key holds them; and keys of different kinds are never equal. Of the
  encoder of the \<open>hex\<close> crate only this is used: it is injective and writes two digits for a byte.\<close>

theorem keys_injective:
  assumes "inj hex" and "\<forall>bs. length (hex bs) = 2 * length bs"
  shows "(canon_key (segment_filename a) = canon_key (segment_filename b) \<longleftrightarrow> a = b) \<and>
   (canon_key (recent_snapshot_filename a x t i) = canon_key (recent_snapshot_filename b y u j) \<longleftrightarrow>
      a = b \<and> x = y \<and> t = u \<and> i mod 1000000 = j mod 1000000) \<and>
   (format_block_key hex c = format_block_key hex d \<longleftrightarrow> c = d) \<and>
   (format_pending_block_key a g = format_pending_block_key b h \<longleftrightarrow> a = b \<and> g = h) \<and>
   (format_segment_key c m = format_segment_key d n \<longleftrightarrow> cur_number c = cur_number d \<and> m = n) \<and>
   (format_group_key c = format_group_key d \<longleftrightarrow> cur_number c = cur_number d) \<and>
   distinct [canon_key (segment_filename a), canon_key (recent_snapshot_filename b x t i), canon_key ''recent'',
     format_block_key hex c, format_pending_block_key y g, format_segment_key d m, format_group_key e]"
proof -
  have "c = d \<longleftrightarrow> cur_number c = cur_number d \<and> cur_hash c = cur_hash d" by (cases c; cases d) simp
  then have "format_block_key hex c = format_block_key hex d \<longleftrightarrow> c = d"
    by (simp add: format_block_key_def format_block_prefix_def hash_display_inject [OF assms])
  moreover have "canon_key (segment_filename a) = canon_key (segment_filename b) \<longleftrightarrow> a = b"
    "canon_key (recent_snapshot_filename a x t i) = canon_key (recent_snapshot_filename b y u j) \<longleftrightarrow>
      a = b \<and> x = y \<and> t = u \<and> i mod 1000000 = j mod 1000000"
    by (simp_all add: canon_key_def segment_filename_def recent_snapshot_filename_def)
  moreover have "format_pending_block_key a g = format_pending_block_key b h \<longleftrightarrow> a = b \<and> g = h"
    "format_segment_key c m = format_segment_key d n \<longleftrightarrow> cur_number c = cur_number d \<and> m = n"
    "format_group_key c = format_group_key d \<longleftrightarrow> cur_number c = cur_number d"
    by (simp_all add: format_pending_block_key_def format_block_prefix_def format_segment_key_def format_group_key_def)
  moreover have "distinct [canon_key (segment_filename a), canon_key (recent_snapshot_filename b x t i), canon_key ''recent'',
     format_block_key hex c, format_pending_block_key y g, format_segment_key d m, format_group_key e]"
    by (simp add: canon_key_def segment_filename_def recent_snapshot_filename_def format_block_key_def format_block_prefix_def
        format_pending_block_key_def format_segment_key_def format_group_key_def hash_display_def)
  ultimately show ?thesis by blast
qed

theorem keys_injective_witness:
  "format_block_key hex_encode (mk_cursor 7 (Hash [])) \<noteq> format_block_key hex_encode (mk_cursor 7 (Hash [0])) \<and>
   format_block_key hex_encode (mk_cursor 7 (Hash [1])) \<noteq> format_pending_block_key 7 1"
  using keys_injective [OF inj_hex_encode, where c = "mk_cursor 7 (Hash [])" and d = "mk_cursor 7 (Hash [0])"]
    keys_injective [OF inj_hex_encode, where c = "mk_cursor 7 (Hash [1])" and y = 7 and g = 1] length_hex_encode
  by (simp add: mk_cursor_def)

lemma block_prefix_iff:
  assumes "a < 10 ^ 10" and "b < 10 ^ 10"
  shows "take (length (format_block_prefix a)) (format_block_prefix b @ rest) = format_block_prefix a \<longleftrightarrow> a = b"
  using length_pad [OF assms(1)] length_pad [OF assms(2)] by (auto simp: format_block_prefix_def)

text \<open>For block numbers of at most ten digits the listing by block prefix is exact: the prefix
  of a block is a prefix of another block's or pending block's key only for the same block.\<close>

lemma block_prefix_exact:
  assumes "a < 10 ^ 10" and "cur_number c < 10 ^ 10" and "b < 10 ^ 10"
  shows "(take (length (format_block_prefix a)) (format_block_key hex c) = format_block_prefix a \<longleftrightarrow>
            a = cur_number c) \<and>
         (take (length (format_block_prefix a)) (format_pending_block_key b g) = format_block_prefix a \<longleftrightarrow>
            a = b)"
  using block_prefix_iff [OF assms(1)] assms(2,3)
  by (simp add: format_block_key_def format_pending_block_key_def)

end
