(* ===== verification/Effects.thy ===== *)
theory Effects
  imports Prelude
begin

text \<open>
  Code that talks to the outside: a computation takes the state \<open>'w\<close> of everything outside the
  program (object store, etcd, caches, clocks) and returns an outcome with the new outside state.
  \<open>ibind\<close> is sequencing with \<open>await?\<close>, \<open>ichange\<close> is \<open>change_context\<close>.
\<close>

type_synonym ('w, 'a, 'e) io = "'w \<Rightarrow> ('a, 'e) outcome \<times> 'w"

definition ilift :: "('a, 'e) outcome \<Rightarrow> ('w, 'a, 'e) io" where
  "ilift r = (\<lambda>w. (r, w))"

definition ireturn :: "'a \<Rightarrow> ('w, 'a, 'e) io" where
  "ireturn x = (\<lambda>w. (Ok x, w))"

definition ierr :: "'e \<Rightarrow> ('w, 'a, 'e) io" where
  "ierr e = (\<lambda>w. (Err e, w))"

definition ipanic :: "('w, 'a, 'e) io" where
  "ipanic = (\<lambda>w. (Panic, w))"

definition ibind :: "('w, 'a, 'e) io \<Rightarrow> ('a \<Rightarrow> ('w, 'b, 'e) io) \<Rightarrow> ('w, 'b, 'e) io" where
  "ibind p f = (\<lambda>w. case p w of
     (Ok x, w') \<Rightarrow> f x w'
   | (Err e, w') \<Rightarrow> (Err e, w')
   | (Panic, w') \<Rightarrow> (Panic, w'))"

definition ichange :: "('e \<Rightarrow> 'f) \<Rightarrow> ('w, 'a, 'e) io \<Rightarrow> ('w, 'a, 'f) io" where
  "ichange g p = (\<lambda>w. case p w of (r, w') \<Rightarrow> (map_err g r, w'))"

definition ioption :: "'e \<Rightarrow> 'a option \<Rightarrow> ('w, 'a, 'e) io" where
  "ioption e x = (case x of Some a \<Rightarrow> ireturn a | None \<Rightarrow> ierr e)"

text \<open>\<open>keeps P p\<close>: whatever \<open>p\<close> returns, it does not change \<open>P\<close> of the outside state.\<close>

definition keeps :: "('w \<Rightarrow> 'v) \<Rightarrow> ('w, 'a, 'e) io \<Rightarrow> bool" where
  "keeps v p \<longleftrightarrow> (\<forall>w. v (snd (p w)) = v w)"

lemma ireturn_apply [simp]: "ireturn x w = (Ok x, w)"
  and ierr_apply [simp]: "ierr e w = (Err e, w)"
  and ipanic_apply [simp]: "ipanic w = (Panic, w)"
  and ilift_apply [simp]: "ilift r w = (r, w)"
  by (simp_all add: ireturn_def ierr_def ipanic_def ilift_def)

lemma ibind_ireturn [simp]: "ibind (ireturn x) f = f x"
  by (simp add: ibind_def fun_eq_iff)

lemma ibind_ierr [simp]: "ibind (ierr e) f = ierr e"
  by (simp add: ibind_def fun_eq_iff)

lemma ibind_ilift_Ok [simp]: "ibind (ilift (Ok x)) f = f x"
  by (simp add: ibind_def fun_eq_iff)

lemma ibind_assoc: "ibind (ibind p f) g = ibind p (\<lambda>x. ibind (f x) g)"
  by (auto simp: ibind_def fun_eq_iff split: prod.splits outcome.splits)

lemma ibind_step: "p w = (Ok x, w') \<Longrightarrow> ibind p f w = f x w'"
  by (simp add: ibind_def)

lemma ibind_eq_Ok [outcome_simps]:
  "ibind p f w = (Ok y, w'') \<longleftrightarrow> (\<exists>x w'. p w = (Ok x, w') \<and> f x w' = (Ok y, w''))"
  by (auto simp: ibind_def split: prod.splits outcome.splits)

lemma ibind_eq_Err [outcome_simps]:
  "ibind p f w = (Err e, w'') \<longleftrightarrow>
     p w = (Err e, w'') \<or> (\<exists>x w'. p w = (Ok x, w') \<and> f x w' = (Err e, w''))"
  by (auto simp: ibind_def split: prod.splits outcome.splits)

lemma ibind_eq_Panic [outcome_simps]:
  "ibind p f w = (Panic, w'') \<longleftrightarrow>
     p w = (Panic, w'') \<or> (\<exists>x w'. p w = (Ok x, w') \<and> f x w' = (Panic, w''))"
  by (auto simp: ibind_def split: prod.splits outcome.splits)

lemma ichange_eq_Ok [outcome_simps]: "ichange g p w = (Ok x, w') \<longleftrightarrow> p w = (Ok x, w')"
  by (auto simp: ichange_def outcome_simps split: prod.splits)

lemma ichange_eq_Panic [outcome_simps]: "ichange g p w = (Panic, w') \<longleftrightarrow> p w = (Panic, w')"
  by (cases "p w", cases "fst (p w)") (auto simp: ichange_def)

lemma ichange_eq_Err [outcome_simps]:
  "ichange g p w = (Err e, w') \<longleftrightarrow> (\<exists>e'. p w = (Err e', w') \<and> e = g e')"
  by (cases "p w", cases "fst (p w)") (auto simp: ichange_def)

lemma ioption_simps [simp]: "ioption e (Some a) = ireturn a" "ioption e None = ierr e"
  by (simp_all add: ioption_def)

lemma keeps_ireturn [intro, simp]: "keeps v (ireturn x)"
  and keeps_ierr [intro, simp]: "keeps v (ierr e)"
  and keeps_ipanic [intro, simp]: "keeps v ipanic"
  and keeps_ilift [intro, simp]: "keeps v (ilift r)"
  by (simp_all add: keeps_def)

lemma keeps_ioption [intro, simp]: "keeps v (ioption e x)"
  by (cases x) simp_all

lemma keeps_ibind [intro]: "keeps v p \<Longrightarrow> (\<And>x. keeps v (f x)) \<Longrightarrow> keeps v (ibind p f)"
  by (auto simp: keeps_def ibind_def split: prod.splits outcome.splits) (metis snd_conv)+

lemma keeps_ichange [intro, simp]: "keeps v p \<Longrightarrow> keeps v (ichange g p)"
  by (auto simp: keeps_def ichange_def split: prod.splits) (metis snd_conv)

lemma keepsD: "keeps v p \<Longrightarrow> p w = (r, w') \<Longrightarrow> v w' = v w"
  by (metis keeps_def snd_conv)

text \<open>A computation next to a buffer it does not use.\<close>

definition on_world :: "('w, 'a, 'e) io \<Rightarrow> ('w \<times> 'o, 'a, 'e) io" where
  "on_world p = (\<lambda>(w, out). case p w of (r, w') \<Rightarrow> (r, (w', out)))"

lemma on_world_eq: "on_world p wo = (r, wo') \<longleftrightarrow> p (fst wo) = (r, fst wo') \<and> snd wo' = snd wo"
  by (cases wo; cases wo') (auto simp: on_world_def split: prod.splits)

end
