(* ===== verification/ObjectStore.thy ===== *)
theory ObjectStore
  imports Keys Effects
begin

text \<open>
  The object store wrapper of \<open>common/src/object_store/mod.rs\<close> and the error classification of
  \<open>common/src/object_store/error.rs\<close>. Objects are stored with a CRC-32 trailer, compressed.
  The bucket client (S3, Azure, GCS SDKs), zstd and crc32fast are parameters; the locale
  \<open>object_backend\<close> states what the code relies on, and shows that what was put is what is read.
\<close>

section \<open>Types\<close>

type_synonym bytes = "u8 list"
type_synonym object_version = string

datatype object_store_error =
    Configuration | Precondition | NotModified | NotFound | Request | Metadata | ChecksumMismatch

datatype put_mode = Overwrite | Create | Update object_version

record get_result =
  gr_body :: bytes
  gr_version :: object_version

text \<open>\<open>ObjectStoreClient\<close>: the calls the wrapper makes on the configured backend. Arguments are
  bucket and key, then the options.\<close>

record 'w object_client =
  oc_has_bucket :: "string \<Rightarrow> ('w, bool, object_store_error) io"
  oc_create_bucket :: "string \<Rightarrow> ('w, unit, object_store_error) io"
  oc_get_object :: "string \<Rightarrow> string \<Rightarrow> object_version option
    \<Rightarrow> ('w, object_version \<times> bytes, object_store_error) io"
  oc_put_object :: "string \<Rightarrow> string \<Rightarrow> bytes \<Rightarrow> put_mode \<Rightarrow> ('w, object_version, object_store_error) io"
  oc_delete_object :: "string \<Rightarrow> string \<Rightarrow> ('w, unit, object_store_error) io"
  oc_list_objects :: "string \<Rightarrow> string \<Rightarrow> ('w, string list, object_store_error) io"

text \<open>\<open>zstd::stream::copy_encode\<close>, \<open>copy_decode\<close> (\<open>None\<close> is an error) and \<open>crc32fast::hash\<close>.\<close>

record codec =
  zstd_encode :: "bytes \<Rightarrow> bytes option"
  zstd_decode :: "bytes \<Rightarrow> bytes option"
  crc32 :: "bytes \<Rightarrow> nat"

record 'w object_store =
  os_client :: "'w object_client"
  os_prefix :: string
  os_bucket :: string

section \<open>Errors\<close>

text \<open>\<open>change_to_object_store_context\<close>: an SDK error by the status code of its raw response.\<close>

fun object_store_status_error :: "nat option \<Rightarrow> object_store_error" where
  "object_store_status_error (Some status) =
     (if status = 412 then Precondition
      else if status = 304 then NotModified
      else if status = 404 then NotFound
      else Request)"
| "object_store_status_error None = Request"

fun change_to_object_store_context :: "('a, nat option) outcome \<Rightarrow> ('a, object_store_error) outcome" where
  "change_to_object_store_context r = map_err object_store_status_error r"

fun is_precondition :: "object_store_error \<Rightarrow> bool" where
  "is_precondition Precondition = True" | "is_precondition _ = False"

fun is_not_modified :: "object_store_error \<Rightarrow> bool" where
  "is_not_modified NotModified = True" | "is_not_modified _ = False"

fun is_not_found :: "object_store_error \<Rightarrow> bool" where
  "is_not_found NotFound = True" | "is_not_found _ = False"

section \<open>Operations\<close>

definition object_store_new :: "'w object_client \<Rightarrow> string \<Rightarrow> string option \<Rightarrow> 'w object_store" where
  "object_store_new client bucket prefix =
     \<lparr>os_client = client, os_prefix = normalize_prefix prefix, os_bucket = bucket\<rparr>"

definition full_key :: "'w object_store \<Rightarrow> string \<Rightarrow> string" where
  "full_key s path = os_prefix s @ path"

definition ensure_bucket :: "'w object_store \<Rightarrow> ('w, unit, object_store_error) io" where
  "ensure_bucket s =
     ibind (oc_has_bucket (os_client s) (os_bucket s)) (\<lambda>exists.
     if exists then ireturn () else oc_create_bucket (os_client s) (os_bucket s))"

text \<open>Big-endian \<open>u32\<close>: \<open>put_u32\<close> and \<open>get_u32\<close> of the bytes crate.\<close>

definition put_u32 :: "nat \<Rightarrow> bytes" where
  "put_u32 n = [word_of_nat (n div 2 ^ 24), word_of_nat (n div 2 ^ 16 mod 2 ^ 8),
                word_of_nat (n div 2 ^ 8 mod 2 ^ 8), word_of_nat (n mod 2 ^ 8)]"

definition get_u32 :: "bytes \<Rightarrow> nat" where
  "get_u32 bs = foldl (\<lambda>v b. v * 256 + unat b) 0 (take 4 bs)"

definition object_store_get ::
  "codec \<Rightarrow> 'w object_store \<Rightarrow> string \<Rightarrow> object_version option \<Rightarrow> ('w, get_result, object_store_error) io" where
  "object_store_get K s path version =
     ibind (oc_get_object (os_client s) (os_bucket s) (full_key s path) version) (\<lambda>(v, body).
     case zstd_decode K body of
       None \<Rightarrow> ierr Request
     | Some decompressed \<Rightarrow>
         if length decompressed < 4 then ipanic
         else
           let checksum = get_u32 (drop (length decompressed - 4) decompressed);
               data = take (length decompressed - 4) decompressed
           in if crc32 K data \<noteq> checksum then ierr ChecksumMismatch
              else ireturn \<lparr>gr_body = data, gr_version = v\<rparr>)"

definition object_store_put ::
  "codec \<Rightarrow> 'w object_store \<Rightarrow> string \<Rightarrow> bytes \<Rightarrow> put_mode \<Rightarrow> ('w, object_version, object_store_error) io" where
  "object_store_put K s path body mode =
     (case zstd_encode K (body @ put_u32 (crc32 K body)) of
        None \<Rightarrow> ierr Request
      | Some compressed \<Rightarrow>
          oc_put_object (os_client s) (os_bucket s) (full_key s path) compressed mode)"

definition object_store_delete ::
  "'w object_store \<Rightarrow> string \<Rightarrow> bool option \<Rightarrow> ('w, unit, object_store_error) io" where
  "object_store_delete s path fullpath =
     (let key = (if fullpath = Some True then path else full_key s path)
      in oc_delete_object (os_client s) (os_bucket s) key)"

definition object_store_list :: "'w object_store \<Rightarrow> string \<Rightarrow> ('w, string list, object_store_error) io" where
  "object_store_list s prefix =
     oc_list_objects (os_client s) (os_bucket s) (full_key s prefix)"

section \<open>What the wrapper relies on\<close>

text \<open>\<open>objects w\<close> is the content of the configured bucket. The laws are the documented behaviour of
  the parameters: decompression inverts compression, a CRC-32 fits 32 bits, a successful put
  stores its body under a version, a conditional create only succeeds on a free key, a
  successful get returns what is stored (of the requested version) and changes nothing.\<close>

locale object_backend =
  fixes K :: codec
    and s :: "'w object_store"
    and objects :: "'w \<Rightarrow> string \<rightharpoonup> object_version \<times> bytes"
  assumes zstd_inverse: "zstd_encode K bs = Some cs \<Longrightarrow> zstd_decode K cs = Some bs"
    and crc32_bound: "crc32 K bs < 2 ^ 32"
    and put_ok: "oc_put_object (os_client s) (os_bucket s) k bs mode w = (Ok v, w') \<Longrightarrow>
      objects w' = (objects w)(k \<mapsto> (v, bs)) \<and> (mode = Create \<longrightarrow> objects w k = None)"
    and get_keeps: "keeps objects (oc_get_object (os_client s) (os_bucket s) k ver)"
    and get_ok: "oc_get_object (os_client s) (os_bucket s) k ver w = (Ok (v, bs), w') \<Longrightarrow>
      objects w k = Some (v, bs) \<and> (ver = None \<or> ver = Some v)"
    and get_not_found: "oc_get_object (os_client s) (os_bucket s) k ver w = (Err NotFound, w') \<Longrightarrow>
      objects w k = None"
    and get_no_panic: "fst (oc_get_object (os_client s) (os_bucket s) k ver w) \<noteq> Panic"
    and get_no_checksum:
      "fst (oc_get_object (os_client s) (os_bucket s) k ver w) \<noteq> Err ChecksumMismatch"

lemma get_u32_put_u32 [simp]:
  assumes "n < 2 ^ 32"
  shows "get_u32 (put_u32 n) = n"
proof -
  have b: "unat (word_of_nat m :: u8) = m" if "m < 256" for m
    using that by (simp add: unat_of_nat take_bit_eq_mod)
  have "n div 2 ^ 24 < 256" using assms by (simp add: less_mult_imp_div_less)
  then have "get_u32 (put_u32 n) =
      ((n div 2 ^ 24 * 256 + n div 2 ^ 16 mod 256) * 256 + n div 2 ^ 8 mod 256) * 256 + n mod 256"
    by (simp add: get_u32_def put_u32_def b)
  also have "\<dots> = n"
    by (simp add: div_mult2_eq [of n "2 ^ 16" "2 ^ 8", simplified]
        div_mult2_eq [of n "2 ^ 8" "2 ^ 8", simplified])
  finally show ?thesis .
qed

lemma length_put_u32 [simp]: "length (put_u32 n) = 4"
  by (simp add: put_u32_def)

text \<open>A stored object that the wrapper wrote: some body with its checksum, compressed.\<close>

definition written_as :: "codec \<Rightarrow> bytes \<Rightarrow> bytes \<Rightarrow> bool" where
  "written_as K body stored \<longleftrightarrow> zstd_encode K (body @ put_u32 (crc32 K body)) = Some stored"

context object_backend
begin

lemma put_stores:
  assumes "object_store_put K s path body mode w = (Ok v, w')"
  shows "\<exists>stored. written_as K body stored \<and>
    objects w' = (objects w)(full_key s path \<mapsto> (v, stored)) \<and>
    (mode = Create \<longrightarrow> objects w (full_key s path) = None)"
  using assms put_ok by (fastforce simp: object_store_put_def written_as_def split: option.splits)

lemma get_keeps_objects: "keeps objects (object_store_get K s path ver)"
  unfolding object_store_get_def
  by (intro keeps_ibind get_keeps) (auto split: option.splits simp: Let_def)

lemma get_written:
  assumes "objects w (full_key s path) = Some (v, stored)" and "written_as K body stored"
  shows "fst (object_store_get K s path ver w) \<noteq> Panic"
    and "fst (object_store_get K s path ver w) \<noteq> Err ChecksumMismatch"
    and "fst (object_store_get K s path ver w) \<noteq> Err NotFound"
    and "object_store_get K s path ver w = (Ok r, w') \<Longrightarrow>
      r = \<lparr>gr_body = body, gr_version = v\<rparr> \<and> objects w' = objects w \<and> (ver = None \<or> ver = Some v)"
proof -
  have dec: "zstd_decode K stored = Some (body @ put_u32 (crc32 K body))"
    using assms(2) zstd_inverse by (simp add: written_as_def)
  obtain r1 w1 where call: "oc_get_object (os_client s) (os_bucket s) (full_key s path) ver w = (r1, w1)"
    by (meson surj_pair)
  have step: "object_store_get K s path ver w =
      (case r1 of Ok x \<Rightarrow> (Ok \<lparr>gr_body = body, gr_version = v\<rparr>, w1) | Err e \<Rightarrow> (Err e, w1) | Panic \<Rightarrow> (Panic, w1))"
  proof (cases r1)
    case (Ok x)
    then have "x = (v, stored)"
      using get_ok [of "full_key s path" ver w "fst x" "snd x" w1] assms(1) call by auto
    then show ?thesis
      using Ok call dec crc32_bound by (simp add: object_store_get_def ibind_def)
  qed (simp_all add: object_store_get_def ibind_def call)
  show "fst (object_store_get K s path ver w) \<noteq> Panic"
    using get_no_panic [of "full_key s path" ver w] step call by (auto split: outcome.splits)
  show "fst (object_store_get K s path ver w) \<noteq> Err ChecksumMismatch"
    using get_no_checksum [of "full_key s path" ver w] step call by (auto split: outcome.splits)
  show "fst (object_store_get K s path ver w) \<noteq> Err NotFound"
    using get_not_found [of "full_key s path" ver w] step call assms(1) by (auto split: outcome.splits)
  show "object_store_get K s path ver w = (Ok r, w') \<Longrightarrow>
      r = \<lparr>gr_body = body, gr_version = v\<rparr> \<and> objects w' = objects w \<and> (ver = None \<or> ver = Some v)"
  proof -
    assume ok: "object_store_get K s path ver w = (Ok r, w')"
    then obtain x where r1: "r1 = Ok x" "r = \<lparr>gr_body = body, gr_version = v\<rparr>" "w' = w1"
      using step by (auto split: outcome.splits)
    then have "objects w (full_key s path) = Some x \<and> (ver = None \<or> ver = Some (fst x))"
      using get_ok [of "full_key s path" ver w "fst x" "snd x" w1] call by simp
    then show ?thesis using r1 assms(1) keepsD [OF get_keeps call] by auto
  qed
qed

end

end
