(* ===== verification/ChainStore.thy ===== *)
theory ChainStore
  imports Chain ObjectStore
begin

text \<open>
  The store of canonical chain segments, \<open>common/src/chain_store.rs\<close>: archived segments under
  their first block number, read through the file cache, and the immutable snapshots of the
  recent segment that the ingestion publishes by pointer. rkyv, the file cache (foyer) and the
  clock are parameters.
\<close>

section \<open>Types\<close>

record recent_segment_pointer =
  rsp_key :: string
  rsp_version :: object_version
  rsp_first_block :: nat
  rsp_last_block :: nat

datatype chain_store_error = ChainStoreError

text \<open>The memory and disk cache of raw objects. An insertion cannot fail; a lookup may.\<close>

record 'w file_cache =
  fca_get :: "string \<Rightarrow> ('w, bytes option, unit) io"
  fca_insert :: "string \<Rightarrow> bytes \<Rightarrow> 'w \<Rightarrow> 'w"

text \<open>\<open>rkyv::to_bytes\<close> and \<open>rkyv::from_bytes\<close> at a type; \<open>None\<close> is an error.\<close>

record 'a serde =
  to_bytes :: "'a \<Rightarrow> bytes option"
  from_bytes :: "bytes \<Rightarrow> 'a option"

text \<open>\<open>SystemTime::now\<close> in nanoseconds and the process-wide snapshot counter, which is read and
  advanced by \<open>fetch_add\<close>.\<close>

record 'w snapshot_clock =
  clk_now :: "'w \<Rightarrow> nat"
  clk_fetch_add :: "'w \<Rightarrow> nat \<times> 'w"

record 'w chain_store =
  cst_client :: "'w object_store"
  cst_cache :: "'w file_cache"
  cst_codec :: codec
  cst_serde :: "chain_segment serde"
  cst_clock :: "'w snapshot_clock"

section \<open>Operations\<close>

definition decode_segment ::
  "'w chain_store \<Rightarrow> bytes \<Rightarrow> ('w, chain_segment, chain_store_error) io" where
  "decode_segment st bytes = ioption ChainStoreError (from_bytes (cst_serde st) bytes)"

text \<open>A missing object is \<open>None\<close>; every other error is reported.\<close>

definition get_as_bytes ::
  "'w chain_store \<Rightarrow> string \<Rightarrow> object_version option \<Rightarrow> ('w, bytes option, chain_store_error) io" where
  "get_as_bytes st key version = (\<lambda>w.
     case object_store_get (cst_codec st) (cst_client st) key version w of
       (Ok response, w') \<Rightarrow> (Ok (Some (gr_body response)), w')
     | (Err err, w') \<Rightarrow> if is_not_found err then (Ok None, w') else (Err ChainStoreError, w')
     | (Panic, w') \<Rightarrow> (Panic, w'))"

definition get_by_key ::
  "'w chain_store \<Rightarrow> string \<Rightarrow> object_version option \<Rightarrow> ('w, chain_segment option, chain_store_error) io" where
  "get_by_key st key version =
     ibind (get_as_bytes st key version) (\<lambda>b.
     case b of None \<Rightarrow> ireturn None
     | Some bytes \<Rightarrow> ibind (decode_segment st bytes) (\<lambda>segment. ireturn (Some segment)))"

definition get_impl ::
  "'w chain_store \<Rightarrow> string \<Rightarrow> object_version option \<Rightarrow> bool
    \<Rightarrow> ('w, chain_segment option, chain_store_error) io" where
  "get_impl st name version skip_cache =
     (let key = canon_key name in
      if skip_cache then
        ibind (get_as_bytes st key version) (\<lambda>b.
        case b of None \<Rightarrow> ireturn None
        | Some bytes \<Rightarrow> ibind (decode_segment st bytes) (\<lambda>segment. ireturn (Some segment)))
      else
        ibind (ichange (\<lambda>_. ChainStoreError) (fca_get (cst_cache st) key)) (\<lambda>cached.
        case cached of
          Some existing \<Rightarrow> ibind (decode_segment st existing) (\<lambda>segment. ireturn (Some segment))
        | None \<Rightarrow>
            ibind (get_as_bytes st key version) (\<lambda>b.
            case b of None \<Rightarrow> ireturn None
            | Some bytes \<Rightarrow>
                ibind (\<lambda>w. (Ok (), fca_insert (cst_cache st) key bytes w)) (\<lambda>_.
                ibind (decode_segment st bytes) (\<lambda>segment. ireturn (Some segment))))))"

definition put_impl ::
  "'w chain_store \<Rightarrow> string \<Rightarrow> chain_segment \<Rightarrow> put_mode \<Rightarrow> ('w, object_version, chain_store_error) io" where
  "put_impl st name segment mode =
     ibind (ioption ChainStoreError (to_bytes (cst_serde st) segment)) (\<lambda>bytes.
     ichange (\<lambda>_. ChainStoreError)
       (object_store_put (cst_codec st) (cst_client st) (canon_key name) bytes mode))"

definition chain_store_get ::
  "'w chain_store \<Rightarrow> nat \<Rightarrow> ('w, chain_segment option, chain_store_error) io" where
  "chain_store_get st first_block_number = get_impl st (segment_filename first_block_number) None False"

definition chain_store_put ::
  "'w chain_store \<Rightarrow> chain_segment \<Rightarrow> ('w, object_version, chain_store_error) io" where
  "chain_store_put st segment =
     put_impl st (segment_filename (cur_number (first_block (cs_info segment)))) segment Overwrite"

definition put_recent_snapshot ::
  "'w chain_store \<Rightarrow> chain_segment \<Rightarrow> ('w, recent_segment_pointer, chain_store_error) io" where
  "put_recent_snapshot st segment =
     (let first = cur_number (first_block (cs_info segment));
          last_b = cur_number (last_block (cs_info segment)) in
      ibind (\<lambda>w. let timestamp_ns = clk_now (cst_clock st) w;
                     (counter, w') = clk_fetch_add (cst_clock st) w
                 in (Ok (recent_snapshot_filename first last_b timestamp_ns counter), w')) (\<lambda>name.
      ibind (put_impl st name segment Create) (\<lambda>version.
      ireturn \<lparr>rsp_key = canon_key name, rsp_version = version,
               rsp_first_block = first, rsp_last_block = last_b\<rparr>)))"

definition validate_recent_pointer :: "recent_segment_pointer \<Rightarrow> (unit, chain_store_error) outcome" where
  "validate_recent_pointer p =
     (let expected_prefix = ''canon'' @ ''/'' @ ''recent'' @ ''/'' in
      if take (length expected_prefix) (rsp_key p) \<noteq> expected_prefix then Err ChainStoreError
      else if rsp_version p = [] then Err ChainStoreError
      else if rsp_first_block p > rsp_last_block p then Err ChainStoreError
      else Ok ())"

definition get_recent_snapshot ::
  "'w chain_store \<Rightarrow> recent_segment_pointer \<Rightarrow> ('w, chain_segment option, chain_store_error) io" where
  "get_recent_snapshot st p =
     ibind (ilift (validate_recent_pointer p)) (\<lambda>_.
     ibind (get_by_key st (rsp_key p) (Some (rsp_version p))) (\<lambda>s.
     case s of None \<Rightarrow> ireturn None
     | Some segment \<Rightarrow>
         if cur_number (first_block (cs_info segment)) \<noteq> rsp_first_block p \<or>
            cur_number (last_block (cs_info segment)) \<noteq> rsp_last_block p
         then ierr ChainStoreError
         else ireturn (Some segment)))"

definition get_legacy_recent :: "'w chain_store \<Rightarrow> ('w, chain_segment option, chain_store_error) io" where
  "get_legacy_recent st = get_impl st ''recent'' None True"

definition delete_legacy_recent :: "'w chain_store \<Rightarrow> ('w, unit, chain_store_error) io" where
  "delete_legacy_recent st =
     ichange (\<lambda>_. ChainStoreError)
       (object_store_delete (cst_client st) (canon_key ''recent'') None)"

section \<open>What is read is what was written\<close>

text \<open>On top of the object store laws: deserialisation inverts serialisation; a cache lookup
  returns nothing or the bytes last inserted under the key; cache and clock do not touch the
  bucket.\<close>

locale segment_store =
  object_backend "cst_codec st" "cst_client st" objects
  for st :: "'w chain_store" and objects :: "'w \<Rightarrow> string \<rightharpoonup> object_version \<times> bytes" +
  fixes cached :: "'w \<Rightarrow> string \<rightharpoonup> bytes"
  assumes serde_inverse: "to_bytes (cst_serde st) segment = Some bs \<Longrightarrow> from_bytes (cst_serde st) bs = Some segment"
    and cache_get_keeps: "keeps objects (fca_get (cst_cache st) k)" "keeps cached (fca_get (cst_cache st) k)"
    and cache_get_ok: "fca_get (cst_cache st) k w = (Ok (Some bs), w') \<Longrightarrow> cached w k = Some bs"
    and cache_get_no_panic: "fst (fca_get (cst_cache st) k w) \<noteq> Panic"
    and cache_insert: "objects (fca_insert (cst_cache st) k bs w) = objects w"
      "cached (fca_insert (cst_cache st) k bs w) k' = (if k' = k then Some bs else cached w k') \<or>
       cached (fca_insert (cst_cache st) k bs w) k' = None"
    and store_keeps_cache: "keeps cached (oc_get_object (os_client (cst_client st)) (os_bucket (cst_client st)) k ver)"
begin

text \<open>The segment stored under a key, and coherence of the cache with the bucket.\<close>

definition stored_segment :: "'w \<Rightarrow> string \<Rightarrow> chain_segment \<Rightarrow> bool" where
  "stored_segment w key segment \<longleftrightarrow>
     (\<exists>v stored bs. objects w (full_key (cst_client st) key) = Some (v, stored) \<and>
        to_bytes (cst_serde st) segment = Some bs \<and> written_as (cst_codec st) bs stored)"

definition cache_coherent :: "'w \<Rightarrow> string \<Rightarrow> bool" where
  "cache_coherent w key \<longleftrightarrow>
     (\<forall>bs. cached w key = Some bs \<longrightarrow>
        (\<exists>v stored. objects w (full_key (cst_client st) key) = Some (v, stored) \<and>
           written_as (cst_codec st) bs stored))"

lemma put_impl_stores:
  assumes "put_impl st name segment mode w = (Ok v, w')"
  shows "stored_segment w' (canon_key name) segment"
proof -
  obtain bs where bs: "to_bytes (cst_serde st) segment = Some bs"
    and put: "object_store_put (cst_codec st) (cst_client st) (canon_key name) bs mode w = (Ok v, w')"
    using assms by (auto simp: put_impl_def ioption_def outcome_simps split: option.splits)
  then show ?thesis using put_stores [OF put] by (auto simp: stored_segment_def)
qed

lemma get_as_bytes_written:
  assumes "objects w (full_key (cst_client st) key) = Some (v, stored)"
    and "written_as (cst_codec st) bs stored" and "get_as_bytes st key ver w = (Ok r, w')"
  shows "r = Some bs \<and> objects w' = objects w \<and> (ver = None \<or> ver = Some v)"
proof -
  note read = get_written [OF assms(1,2), of ver]
  show ?thesis
  proof (cases "object_store_get (cst_codec st) (cst_client st) key ver w")
    case (Pair res w1)
    then show ?thesis
      using assms(3) read by (cases res) (auto simp: get_as_bytes_def split: if_splits elim: is_not_found.elims)
  qed
qed

lemma written_as_functional:
  assumes "written_as (cst_codec st) a stored" and "written_as (cst_codec st) b stored"
  shows "a = b"
proof -
  have "a @ put_u32 (crc32 (cst_codec st) a) = b @ put_u32 (crc32 (cst_codec st) b)"
    using zstd_inverse [OF assms(1) [unfolded written_as_def]]
      zstd_inverse [OF assms(2) [unfolded written_as_def]] by simp
  then show ?thesis by simp
qed

lemma get_impl_stored:
  assumes "stored_segment w (canon_key name) segment" and "cache_coherent w (canon_key name)"
    and "get_impl st name None skip_cache w = (Ok r, w')"
  shows "r = Some segment \<and> objects w' = objects w"
proof -
  obtain v stored bs where st: "objects w (full_key (cst_client st) (canon_key name)) = Some (v, stored)"
    "to_bytes (cst_serde st) segment = Some bs" "written_as (cst_codec st) bs stored"
    using assms(1) by (auto simp: stored_segment_def)
  have dec: "from_bytes (cst_serde st) bs = Some segment" using serde_inverse st(2) .
  show ?thesis
  proof (cases skip_cache)
    case True
    then show ?thesis
      using assms(3) get_as_bytes_written [OF st(1,3)] dec
      by (fastforce simp: get_impl_def outcome_simps decode_segment_def ioption_def split: option.splits)
  next
    case False
    then obtain c w1 where cache: "fca_get (cst_cache st) (canon_key name) w = (Ok c, w1)"
      using assms(3) by (auto simp: get_impl_def Let_def outcome_simps)
    have w1: "objects w1 = objects w" using keepsD [OF cache_get_keeps(1) cache] .
    show ?thesis
    proof (cases c)
      case (Some existing)
      then have "existing = bs"
        using cache_get_ok cache assms(2) st(1,3) written_as_functional
        by (fastforce simp: cache_coherent_def)
      then show ?thesis
        using assms(3) False cache Some dec w1
        by (simp add: get_impl_def Let_def ibind_def ichange_def decode_segment_def)
    next
      case None
      then obtain b w2 where "get_as_bytes st (canon_key name) None w1 = (Ok b, w2)"
        using assms(3) False cache by (auto simp: get_impl_def Let_def outcome_simps)
      moreover from this have "b = Some bs" "objects w2 = objects w"
        using get_as_bytes_written [OF _ st(3)] st(1) w1 by metis+
      ultimately show ?thesis
        using assms(3) False cache None dec
        by (simp add: get_impl_def Let_def ibind_def ichange_def decode_segment_def)
          (metis cache_insert(1))
    qed
  qed
qed

lemma get_by_key_stored:
  assumes "stored_segment w key segment" and "get_by_key st key ver w = (Ok r, w')"
  shows "r = Some segment"
proof -
  obtain v stored bs where st: "objects w (full_key (cst_client st) key) = Some (v, stored)"
    "to_bytes (cst_serde st) segment = Some bs" "written_as (cst_codec st) bs stored"
    using assms(1) by (auto simp: stored_segment_def)
  have dec: "from_bytes (cst_serde st) bs = Some segment" using serde_inverse st(2) .
  obtain b w1 where "get_as_bytes st key ver w = (Ok b, w1)"
    using assms(2) by (auto simp: get_by_key_def outcome_simps)
  moreover from this have "b = Some bs" using get_as_bytes_written [OF st(1,3)] by blast
  ultimately show ?thesis
    using assms(2) dec by (simp add: get_by_key_def ibind_def decode_segment_def)
qed

lemma put_get_segment:
  assumes "chain_store_put st segment w = (Ok v, w')"
    and "cached w' (canon_key (segment_filename (cur_number (first_block (cs_info segment))))) = None"
    and "chain_store_get st (cur_number (first_block (cs_info segment))) w' = (Ok r, w'')"
  shows "r = Some segment"
  using get_impl_stored [OF put_impl_stores] assms
  by (auto simp: chain_store_put_def chain_store_get_def cache_coherent_def)

lemma put_get_snapshot:
  assumes "put_recent_snapshot st segment w = (Ok p, w')"
    and "get_recent_snapshot st p w' = (Ok r, w'')"
  shows "r = Some segment"
proof -
  obtain name v w1 where name: "put_impl st name segment Create w1 = (Ok v, w')"
    and p: "rsp_key p = canon_key name"
    using assms(1) by (auto simp: put_recent_snapshot_def Let_def outcome_simps split: prod.splits)
  have p_valid: "validate_recent_pointer p = Ok ()"
    using assms(2) by (auto simp: get_recent_snapshot_def outcome_simps)
  then obtain s w2 where get: "get_by_key st (rsp_key p) (Some (rsp_version p)) w' = (Ok s, w2)"
    using assms(2) by (auto simp: get_recent_snapshot_def outcome_simps)
  then have "s = Some segment"
    using get_by_key_stored [OF put_impl_stores [OF name]] p by simp
  then show ?thesis
    using assms(2) p_valid get by (auto simp: get_recent_snapshot_def ibind_def split: if_splits)
qed

end

section \<open>A reference environment\<close>

text \<open>An in-memory bucket and cache with counter-valued versions, the identity as compression and
  serialisation by position in a table: a complete implementation of the parameters, on which
  the laws hold. The key-value pairs with their revisions serve the theory of the etcd state.\<close>

record mem_world =
  mw_bucket :: "(string \<times> object_version \<times> bytes) list"
  mw_cache :: "string \<rightharpoonup> bytes"
  mw_tick :: nat
  mw_kv :: "string \<rightharpoonup> bytes \<times> nat"
  mw_rev :: nat

definition mw_objects :: "mem_world \<Rightarrow> string \<rightharpoonup> object_version \<times> bytes" where
  "mw_objects w = map_of (mw_bucket w)"

definition mem_remove :: "string \<Rightarrow> mem_world \<Rightarrow> mem_world" where
  "mem_remove k w = w\<lparr>mw_bucket := filter (\<lambda>e. fst e \<noteq> k) (mw_bucket w)\<rparr>"

definition mem_names :: "string \<Rightarrow> mem_world \<Rightarrow> string list" where
  "mem_names prefix w = remdups (filter (\<lambda>k. take (length prefix) k = prefix) (map fst (mw_bucket w)))"

definition mem_codec :: codec where
  "mem_codec = \<lparr>zstd_encode = Some, zstd_decode = Some,
     crc32 = foldl (\<lambda>v b. (v * 31 + unat b) mod 2 ^ 32) 0\<rparr>"

definition mem_put ::
  "string \<Rightarrow> string \<Rightarrow> bytes \<Rightarrow> put_mode \<Rightarrow> (mem_world, object_version, object_store_error) io" where
  "mem_put bucket k bs mode w =
     (let v = show_nat (mw_tick w);
          w' = w\<lparr>mw_bucket := (k, v, bs) # mw_bucket w, mw_tick := Suc (mw_tick w)\<rparr>
      in case mode of
           Overwrite \<Rightarrow> (Ok v, w')
         | Create \<Rightarrow> if mw_objects w k = None then (Ok v, w') else (Err Precondition, w)
         | Update u \<Rightarrow>
             (case mw_objects w k of
                Some (u', _) \<Rightarrow> if u = u' then (Ok v, w') else (Err Precondition, w)
              | None \<Rightarrow> (Err Precondition, w)))"

definition mem_get ::
  "string \<Rightarrow> string \<Rightarrow> object_version option \<Rightarrow> (mem_world, object_version \<times> bytes, object_store_error) io" where
  "mem_get bucket k ver w =
     (case mw_objects w k of
        None \<Rightarrow> (Err NotFound, w)
      | Some (v, bs) \<Rightarrow> if ver = None \<or> ver = Some v then (Ok (v, bs), w) else (Err Precondition, w))"

definition mem_client :: "mem_world object_client" where
  "mem_client = \<lparr>
     oc_has_bucket = (\<lambda>_. ireturn True), oc_create_bucket = (\<lambda>_. ireturn ()),
     oc_get_object = mem_get, oc_put_object = mem_put,
     oc_delete_object = (\<lambda>_ k w. (Ok (), mem_remove k w)),
     oc_list_objects = (\<lambda>_ prefix w. (Ok (mem_names prefix w), w))\<rparr>"

definition table_serde :: "'a list \<Rightarrow> 'a serde" where
  "table_serde xs = \<lparr>
     to_bytes = (\<lambda>x. if x \<in> set (take 256 xs)
                      then Some [word_of_nat (length (takeWhile (\<lambda>y. y \<noteq> x) xs))] else None),
     from_bytes = (\<lambda>bs. case bs of [b] \<Rightarrow> if unat b < length xs then Some (xs ! unat b) else None
                                   | _ \<Rightarrow> None)\<rparr>"

definition mem_store :: "chain_segment list \<Rightarrow> mem_world chain_store" where
  "mem_store segments = \<lparr>
     cst_client = object_store_new mem_client ''bucket'' None,
     cst_cache = \<lparr>fca_get = (\<lambda>k w. (Ok (mw_cache w k), w)),
                   fca_insert = (\<lambda>k bs w. w\<lparr>mw_cache := (mw_cache w)(k \<mapsto> bs)\<rparr>)\<rparr>,
     cst_codec = mem_codec,
     cst_serde = table_serde segments,
     cst_clock = \<lparr>clk_now = mw_tick, clk_fetch_add = (\<lambda>w. (mw_tick w, w\<lparr>mw_tick := Suc (mw_tick w)\<rparr>))\<rparr>\<rparr>"

definition empty_world :: mem_world where
  "empty_world = \<lparr>mw_bucket = [], mw_cache = Map.empty, mw_tick = 1, mw_kv = Map.empty, mw_rev = 0\<rparr>"

lemma mw_objects_Cons [simp]: "mw_objects (w\<lparr>mw_bucket := (k, x) # mw_bucket w\<rparr>) = (mw_objects w)(k \<mapsto> x)"
  by (simp add: mw_objects_def)

lemma mw_objects_remove [simp]: "mw_objects (mem_remove k w) = (mw_objects w)(k := None)"
proof -
  have "map_of (filter (\<lambda>e. fst e \<noteq> k) m) = (map_of m)(k := None)" for m :: "(string \<times> object_version \<times> bytes) list"
    by (induction m) auto
  then show ?thesis by (simp add: mw_objects_def mem_remove_def)
qed

lemma mem_names_exact: "set (mem_names prefix w) = {k. mw_objects w k \<noteq> None \<and> take (length prefix) k = prefix}"
  by (auto simp: mem_names_def mw_objects_def map_of_eq_None_iff)

lemma mw_objects_update [simp]: "mw_objects (w\<lparr>mw_cache := c\<rparr>) = mw_objects w" "mw_objects (w\<lparr>mw_tick := n\<rparr>) = mw_objects w"
  by (simp_all add: mw_objects_def)

lemma table_serde_inverse:
  assumes "to_bytes (table_serde xs) x = Some bs"
  shows "from_bytes (table_serde xs) bs = Some x"
proof -
  define i where "i = length (takeWhile (\<lambda>y. y \<noteq> x) xs)"
  have x: "x \<in> set (take 256 xs)" and bs: "bs = [word_of_nat i]"
    using assms by (auto simp: table_serde_def i_def split: if_splits)
  obtain j where j: "j < 256" "j < length xs" "xs ! j = x"
    using x by (auto simp: in_set_conv_nth)
  have "i \<le> j"
    unfolding i_def using j by (metis (mono_tags, lifting) length_takeWhile_le nat_le_linear
        nth_mem set_takeWhileD takeWhile_nth le_neq_implies_less le_trans not_less)
  then have i: "i < 256" "i < length xs" using j by auto
  moreover have "xs ! i = x"
    using i(2) nth_length_takeWhile [of "\<lambda>y. y \<noteq> x" xs] by (simp add: i_def)
  moreover have "unat (word_of_nat i :: u8) = i"
    using i(1) by (simp add: unat_of_nat take_bit_eq_mod)
  ultimately show ?thesis by (simp add: bs table_serde_def)
qed

lemma foldl_mod_less: "0 < m \<Longrightarrow> v < m \<Longrightarrow> foldl (\<lambda>v b. f v b mod m) v bs < (m :: nat)"
  by (induction bs arbitrary: v) simp_all

interpretation mem: segment_store "mem_store segments" mw_objects mw_cache
proof unfold_locales
  fix bs show "crc32 (cst_codec (mem_store segments)) bs < 2 ^ 32"
    by (simp add: mem_store_def mem_codec_def foldl_mod_less)
qed (auto simp: mem_store_def mem_codec_def mem_client_def object_store_new_def mem_put_def mem_get_def
    Let_def keeps_def table_serde_inverse split: put_mode.splits option.splits if_splits)

section \<open>Properties\<close>

text \<open>C26: A successful read of an archived chain segment after it was put, with nothing cached under
  its name in between, returns exactly that segment, whatever errors the backend may return
  otherwise; and a successful read of a published recent snapshot through its pointer returns
  exactly the segment that was published.\<close>

theorem chain_store_read_back:
  assumes "segment_store st objects cached"
  shows "(chain_store_put st segment w = (Ok v, w') \<and>
          cached w' (canon_key (segment_filename (cur_number (first_block (cs_info segment))))) = None \<and>
          chain_store_get st (cur_number (first_block (cs_info segment))) w' = (Ok r, w'') \<longrightarrow>
            r = Some segment) \<and>
         (put_recent_snapshot st segment w = (Ok p, w') \<and> get_recent_snapshot st p w' = (Ok r, w'') \<longrightarrow>
            r = Some segment)"
  using segment_store.put_get_segment [OF assms] segment_store.put_get_snapshot [OF assms] by metis

text \<open>A segment to store, and the pointer its first snapshot gets in the reference environment.\<close>

definition stored_demo :: chain_segment where
  "stored_demo = \<lparr>cs_previous_segment = None,
     cs_info = \<lparr>first_block = mk_cursor 5 (Hash [1]), last_block = mk_cursor 5 (Hash [1])\<rparr>,
     cs_canonical = [\<lparr>cb_hash = Hash [1], cb_reorgs = []\<rparr>], cs_extra_reorgs = []\<rparr>"

theorem chain_store_read_back_witness:
  "\<exists>v w' r w''. chain_store_put (mem_store [stored_demo]) stored_demo empty_world = (Ok v, w') \<and>
     chain_store_get (mem_store [stored_demo]) 5 w' = (Ok r, w'') \<and> r = Some stored_demo"
proof -
  let ?st = "mem_store [stored_demo]"
  have five: "cur_number (first_block (cs_info stored_demo)) = 5"
    by (simp add: stored_demo_def)
  have "\<exists>v w' r w''. chain_store_put ?st stored_demo empty_world = (Ok v, w') \<and>
      mw_cache w' = Map.empty \<and> chain_store_get ?st 5 w' = (Ok r, w'')" (is "\<exists>v w' r w''. ?P v w' r w''")
    by (simp add: chain_store_put_def put_impl_def mem_store_def table_serde_def object_store_put_def
        mem_codec_def object_store_new_def mem_client_def mem_put_def ichange_def empty_world_def Let_def
        chain_store_get_def get_impl_def get_as_bytes_def object_store_get_def mem_get_def ibind_def
        full_key_def decode_segment_def put_u32_def get_u32_def five mw_objects_def)
  then obtain v w' r w'' where "?P v w' r w''" by blast
  then show ?thesis
    using chain_store_read_back [OF mem.segment_store_axioms, of "[stored_demo]" stored_demo empty_world v w' r w'']
    by (auto simp: five)
qed

end
