(* ===== verification/FullChain.thy ===== *)
theory FullChain
  imports ChainSpec ChainStore
begin

text \<open>
  The canonical chain as the server sees it, \<open>common/src/chain_view/full.rs\<close>: the recent segment
  plus the archived segments of fixed size that are fetched on demand. The properties connect it
  to the builder: the recent segment is what the builder published, the archive is what
  \<open>take_segment\<close> produced, and together they answer for the whole chain.
\<close>

section \<open>Definitions\<close>

datatype canonical_cursor = BeforeAvailable cursor | AfterAvailable cursor | Canonical cursor

datatype validated_cursor = Valid cursor | Invalid cursor "cursor list"

datatype next_cursor = NextContinue cursor bool | Invalidate cursor | AtHead

datatype chain_view_error = ChainViewError

record 'w full_chain =
  fc_store :: "'w chain_store"
  fc_starting_block :: nat
  fc_chain_segment_size :: nat
  fc_recent :: chain_segment

definition chain_segment_start :: "nat \<Rightarrow> nat \<Rightarrow> nat \<Rightarrow> (nat, chain_view_error) outcome" where
  "chain_segment_start block_number starting_block chain_segment_size =
     obind (u64_div (u64_sub block_number starting_block) chain_segment_size) (\<lambda>q.
     Ok (u64_add (u64_mul q chain_segment_size) starting_block))"

definition get_chain_segment :: "'w full_chain \<Rightarrow> nat \<Rightarrow> ('w, chain_segment, chain_view_error) io" where
  "get_chain_segment fc block_number =
     (if cur_number (first_block (cs_info (fc_recent fc))) \<le> block_number
      then ireturn (fc_recent fc)
      else
        ibind (ilift (chain_segment_start block_number (fc_starting_block fc) (fc_chain_segment_size fc)))
          (\<lambda>start.
        ibind (ichange (\<lambda>_. ChainViewError) (chain_store_get (fc_store fc) start)) (\<lambda>segment.
        ioption ChainViewError segment)))"

definition get_canonical_impl :: "'w full_chain \<Rightarrow> nat \<Rightarrow> ('w, cursor, chain_view_error) io" where
  "get_canonical_impl fc block_number =
     ibind (get_chain_segment fc block_number) (\<lambda>segment.
     ilift (map_err (\<lambda>_. ChainViewError) (segment_canonical segment block_number)))"

definition get_next_cursor :: "'w full_chain \<Rightarrow> cursor option \<Rightarrow> ('w, next_cursor, chain_view_error) io" where
  "get_next_cursor fc cursor = (case cursor of
     None \<Rightarrow>
       ibind (get_canonical_impl fc (fc_starting_block fc)) (\<lambda>first_available.
       ireturn (NextContinue first_available False))
   | Some c \<Rightarrow>
       ibind (get_chain_segment fc (cur_number c)) (\<lambda>segment.
       ibind (ilift (map_err (\<lambda>_. ChainViewError) (reconnect segment c))) (\<lambda>action.
       case action of
         Continue \<Rightarrow>
           if cur_number c = cur_number (last_block (cs_info (fc_recent fc)))
           then ireturn AtHead
           else
             ibind (get_canonical_impl fc (u64_add (cur_number c) 1)) (\<lambda>next_available.
             ireturn (NextContinue next_available
               (cur_number next_available = cur_number (last_block (cs_info (fc_recent fc))))))
       | OfflineReorg target \<Rightarrow> ireturn (Invalidate target)
       | Unknown \<Rightarrow> ierr ChainViewError)))"

definition validate_cursor :: "'w full_chain \<Rightarrow> cursor \<Rightarrow> ('w, validated_cursor, chain_view_error) io" where
  "validate_cursor fc c =
     ibind (get_chain_segment fc (cur_number c)) (\<lambda>segment.
     ibind (ilift (map_err (\<lambda>_. ChainViewError) (segment_canonical segment (cur_number c)))) (\<lambda>canonical.
     if is_equivalent canonical c then ireturn (Valid canonical)
     else
       ibind (ilift (map_err (\<lambda>_. ChainViewError) (siblings segment c))) (\<lambda>sibs.
       case find (\<lambda>sibling. is_equivalent sibling c) sibs of
         Some sibling \<Rightarrow> ireturn (Valid sibling)
       | None \<Rightarrow> ireturn (Invalid canonical sibs))))"

definition full_get_head :: "'w full_chain \<Rightarrow> cursor" where
  "full_get_head fc = last_block (cs_info (fc_recent fc))"

definition get_canonical :: "'w full_chain \<Rightarrow> nat \<Rightarrow> ('w, canonical_cursor, chain_view_error) io" where
  "get_canonical fc block_number =
     (if block_number > cur_number (last_block (cs_info (fc_recent fc)))
      then ireturn (AfterAvailable (last_block (cs_info (fc_recent fc))))
      else if block_number < fc_starting_block fc
      then ibind (get_canonical_impl fc (fc_starting_block fc)) (\<lambda>first_available.
           ireturn (BeforeAvailable first_available))
      else ibind (get_canonical_impl fc block_number) (\<lambda>c. ireturn (Canonical c)))"

definition full_set_recent :: "chain_segment \<Rightarrow> 'w full_chain \<Rightarrow> 'w full_chain" where
  "full_set_recent segment fc = fc\<lparr>fc_recent := segment\<rparr>"

section \<open>The archive of a run\<close>

text \<open>\<open>archive_run k start b A H\<close>: the builder \<open>b\<close> was started at block \<open>start\<close> and segments of \<open>k\<close>
  blocks were moved to the archive \<open>A\<close>, under their first block number; \<open>H\<close> is the set of
  cursors that were ever canonical. A restart publishes the segment and restores from it; it forgets the cursors
  above the last block, whose reorgs \<open>restore_from_segment\<close> does not restore.\<close>

inductive archive_run ::
  "nat \<Rightarrow> nat \<Rightarrow> chain_builder \<Rightarrow> (nat \<rightharpoonup> chain_segment) \<Rightarrow> cursor set \<Rightarrow> bool" for k start where
  ar_start: "\<lbrakk>0 < k; block_ok blk; bi_number blk = start; grow builder_new blk = Ok b\<rbrakk>
    \<Longrightarrow> archive_run k start b Map.empty {block_cursor blk}"
| ar_grow: "\<lbrakk>archive_run k start b A H; block_ok blk; bi_number blk \<noteq> 0; grow b blk = Ok b'\<rbrakk>
    \<Longrightarrow> archive_run k start b' A (insert (block_cursor blk) H)"
| ar_shrink: "\<lbrakk>archive_run k start b A H; shrink b c = Ok (removed, b')\<rbrakk>
    \<Longrightarrow> archive_run k start b' A H"
| ar_take: "\<lbrakk>archive_run k start b A H; take_segment b k = Ok (seg, b')\<rbrakk>
    \<Longrightarrow> archive_run k start b' (A(cur_number (first_block (cs_info seg)) \<mapsto> seg)) H"
| ar_restart: "\<lbrakk>archive_run k start b A H; current_segment b = Ok seg; restore_from_segment seg = Ok b'\<rbrakk>
    \<Longrightarrow> archive_run k start b' A {c \<in> H. cur_number c \<le> cur_number (last_block (cs_info seg))}"

text \<open>What an archived segment answers.\<close>

definition archived_ok :: "nat \<Rightarrow> nat \<Rightarrow> cursor set \<Rightarrow> chain_segment \<Rightarrow> bool" where
  "archived_ok k first H seg \<longleftrightarrow>
     (\<forall>n. first \<le> n \<and> n < first + k \<longrightarrow>
        (\<exists>c \<in> H. cur_number c = n \<and> segment_canonical seg n = Ok c \<and> reconnect seg c = Ok Continue)) \<and>
     (\<forall>c \<in> H. first \<le> cur_number c \<and> cur_number c < first + k \<longrightarrow>
        segment_canonical seg (cur_number c) = Ok c \<and> reconnect seg c = Ok Continue \<or>
        (\<exists>t \<in> H. reconnect seg c = Ok (OfflineReorg t) \<and> cur_number t < cur_number c)) \<and>
     (\<forall>c. first \<le> cur_number c \<and> cur_number c < first + k \<and> c \<notin> H \<longrightarrow>
        reconnect seg c = Ok (if hash_is_zero (cur_hash c) then Continue else Unknown))"

definition archive_inv ::
  "nat \<Rightarrow> nat \<Rightarrow> building \<Rightarrow> (nat \<rightharpoonup> chain_segment) \<Rightarrow> cursor set \<Rightarrow> bool" where
  "archive_inv k start b A H \<longleftrightarrow> 0 < k \<and> run_inv (Building b) H \<and>
     (\<forall>c \<in> H. start \<le> cur_number c) \<and>
     (\<forall>n. A n \<noteq> None \<longrightarrow> n < first_number b) \<and>
     (\<exists>m. first_number b = start + m * k \<and>
        (\<forall>j < m. \<exists>seg. A (start + j * k) = Some seg \<and> archived_ok k (start + j * k) H seg))"

lemma segment_canonical_taken:
  assumes "building_ok b" and "k < length (bd_canonical b)"
    and "first_number b \<le> n" and "n < first_number b + k"
  shows "segment_canonical (taken b k) n = Ok (mk_cursor n (bd_canonical b ! (n - first_number b)))"
proof -
  have "u64_sub n (first_number b) = n - first_number b"
    using assms building_bounds [OF assms(1)] by (simp add: u64_simps)
  then show ?thesis
    using assms by (simp add: segment_canonical_def Let_def taken_def flip: first_number_def)
qed

lemma segment_canonical_published:
  assumes "building_ok b" and "first_number b \<le> n" and "n \<le> last_number b"
  shows "segment_canonical (published b) n = Ok (mk_cursor n (bd_canonical b ! (n - first_number b)))"
proof -
  have "u64_sub n (first_number b) = n - first_number b"
    using assms building_bounds [OF assms(1)] by (simp add: u64_simps)
  then show ?thesis
    using assms canonical_index [OF assms]
    by (simp add: segment_canonical_def Let_def published_def flip: first_number_def last_number_def)
qed

lemma taken_archived_ok:
  assumes "run_inv (Building b) H" and "k < length (bd_canonical b)"
  shows "archived_ok k (first_number b) H (taken b k)"
proof -
  have ok: "building_ok b" and h: "history_ok b H" using assms(1) by simp_all
  have le: "n \<le> last_number b" if "n < first_number b + k" for n
    using that assms(2) building_bounds [OF ok] by simp
  have canon: "segment_canonical (taken b k) (cur_number c) = Ok c \<and> reconnect (taken b k) c = Ok Continue"
    if "is_canonical b c" "cur_number c < first_number b + k" for c
    using that segment_canonical_taken [OF ok assms(2)] reconnect_taken [OF ok assms(2)]
    by (simp add: is_canonical_def)
  show ?thesis
    unfolding archived_ok_def
  proof (intro conjI allI ballI impI)
    fix n
    assume n: "first_number b \<le> n \<and> n < first_number b + k"
    define c where "c = mk_cursor n (bd_canonical b ! (n - first_number b))"
    have "is_canonical b c" using n le by (simp add: c_def is_canonical_def)
    moreover from this have "c \<in> H" using h by (simp add: history_ok_def)
    ultimately show "\<exists>c \<in> H. cur_number c = n \<and> segment_canonical (taken b k) n = Ok c \<and>
        reconnect (taken b k) c = Ok Continue"
      using canon [of c] n by (intro bexI [of _ c]) (simp_all add: c_def)
  next
    fix c
    assume c: "c \<in> H" "first_number b \<le> cur_number c \<and> cur_number c < first_number b + k"
    show "segment_canonical (taken b k) (cur_number c) = Ok c \<and> reconnect (taken b k) c = Ok Continue \<or>
        (\<exists>t \<in> H. reconnect (taken b k) c = Ok (OfflineReorg t) \<and> cur_number t < cur_number c)"
    proof (cases "is_canonical b c")
      case True
      then show ?thesis using canon c by blast
    next
      case False
      then obtain t where "t \<in> H" "reorg_target b c = Some t" "cur_number t < cur_number c"
        using reconnect_history(2) [OF assms(1) c(1)] c(2) by blast
      moreover have "\<not> hash_is_zero (cur_hash c)" using h c(1) by (simp add: history_ok_def)
      ultimately show ?thesis
        using False reconnect_taken [OF ok assms(2)] c(2) by (intro disjI2 bexI [of _ t]) simp_all
    qed
  next
    fix c
    assume c: "first_number b \<le> cur_number c \<and> cur_number c < first_number b + k \<and> c \<notin> H"
    then have "\<not> is_canonical b c" "reorg_target b c = None"
      using h unfolding history_ok_def by (blast, metis option.exhaust)
    then show "reconnect (taken b k) c = Ok (if hash_is_zero (cur_hash c) then Continue else Unknown)"
      using reconnect_taken [OF ok assms(2)] c by simp
  qed
qed

lemma archived_ok_insert:
  assumes "archived_ok k first H seg" and "first + k \<le> cur_number c"
  shows "archived_ok k first (insert c H) seg"
  using assms unfolding archived_ok_def by (metis insert_iff linorder_not_le)

lemma archived_ok_below:
  assumes "archived_ok k first H seg" and "first + k \<le> n"
  shows "archived_ok k first {c \<in> H. cur_number c \<le> n} seg"
  using assms unfolding archived_ok_def by fastforce

lemma archive_inv_same_first:
  assumes "archive_inv k start b A H" and "run_inv (Building b') H" and "first_number b' = first_number b"
  shows "archive_inv k start b' A H"
  using assms by (auto simp: archive_inv_def)

lemma archive_inv_start:
  assumes "0 < k" and "block_ok blk" and "grow builder_new blk = Ok (Building b)"
  shows "archive_inv k (bi_number blk) b Map.empty {block_cursor blk}"
proof -
  have "run_inv (Building b) {block_cursor blk}"
    using run_inv_grow [of Empty "{}" blk "Building b"] assms by (simp add: builder_new_def)
  moreover have "first_number b = bi_number blk"
    using assms(3) by (auto simp: builder_new_def grow_Empty first_number_def block_cursor_def)
  ultimately show ?thesis
    using assms(1) by (auto simp: archive_inv_def block_cursor_def intro!: exI [of _ 0])
qed

lemma archive_inv_grow:
  assumes "archive_inv k start b A H" and "block_ok blk" and "bi_number blk \<noteq> 0"
    and "grow (Building b) blk = Ok (Building b')"
  shows "archive_inv k start b' A (insert (block_cursor blk) H)"
proof -
  obtain m where m: "first_number b = start + m * k"
    "\<forall>j < m. \<exists>seg. A (start + j * k) = Some seg \<and> archived_ok k (start + j * k) H seg"
    and run: "run_inv (Building b) H" and k: "0 < k" and low: "\<forall>c \<in> H. start \<le> cur_number c"
    and dom: "\<forall>n. A n \<noteq> None \<longrightarrow> n < first_number b"
    using assms(1) by (auto simp: archive_inv_def)
  have ok: "building_ok b" using run by simp
  have link: "links b blk" and b': "b' = push_block b blk"
    using assms(2,3,4) ok by (auto simp: grow_Building split: if_splits)
  have num: "first_number b \<le> cur_number (block_cursor blk)"
    using link building_bounds [OF ok] by (simp add: links_def block_cursor_def)
  have "start + j * k + k \<le> cur_number (block_cursor blk)" if "j < m" for j
  proof -
    have "j * k + k \<le> m * k" using that by (metis Suc_leI add.commute mult_Suc mult_le_mono1)
    then show ?thesis using num m(1) by simp
  qed
  then have "\<forall>j < m. \<exists>seg. A (start + j * k) = Some seg \<and>
      archived_ok k (start + j * k) (insert (block_cursor blk) H) seg"
    using m(2) archived_ok_insert by blast
  moreover have "run_inv (Building b') (insert (block_cursor blk) H)"
    using run_inv_grow [OF run assms(2) _ assms(4)] assms(3) by simp
  moreover have "start \<le> cur_number (block_cursor blk)" using num m(1) by simp
  ultimately show ?thesis
    using k low dom m(1) by (auto simp: archive_inv_def b')
qed

lemma archive_inv_take:
  assumes "archive_inv k start b A H" and "take_segment (Building b) k = Ok (seg, Building b')"
  shows "archive_inv k start b' (A(cur_number (first_block (cs_info seg)) \<mapsto> seg)) H"
proof -
  obtain m where m: "first_number b = start + m * k"
    "\<forall>j < m. \<exists>seg. A (start + j * k) = Some seg \<and> archived_ok k (start + j * k) H seg"
    and run: "run_inv (Building b) H" and k: "0 < k" and low: "\<forall>c \<in> H. start \<le> cur_number c"
    and dom: "\<forall>n. A n \<noteq> None \<longrightarrow> n < first_number b"
    using assms(1) by (auto simp: archive_inv_def)
  have ok: "building_ok b" using run by simp
  then have len: "k < length (bd_canonical b)" and seg: "seg = taken b k" and b': "b' = remaining b k"
    using assms(2) k by (auto simp: take_segment_Building split: if_splits)
  have key: "cur_number (first_block (cs_info seg)) = start + m * k"
    using m(1) by (simp add: seg flip: first_number_def)
  have "archived_ok k (start + m * k) H seg"
    using taken_archived_ok [OF run len] m(1) by (simp add: seg)
  then have "\<forall>j < Suc m. \<exists>seg'. (A(start + m * k \<mapsto> seg)) (start + j * k) = Some seg' \<and>
      archived_ok k (start + j * k) H seg'"
    using m(2) k by (auto simp: less_Suc_eq)
  moreover have "run_inv (Building b') H" using run_inv_take [OF run k assms(2)] .
  moreover have "first_number b' = start + Suc m * k" using m(1) by (simp add: b')
  moreover have "\<forall>n. (A(start + m * k \<mapsto> seg)) n \<noteq> None \<longrightarrow> n < first_number b'"
    using dom m(1) k by (auto simp: b')
  ultimately show ?thesis unfolding archive_inv_def key using k low by blast
qed

lemma archive_inv_restart:
  assumes "archive_inv k start b A H" and "current_segment (Building b) = Ok seg"
    and "restore_from_segment seg = Ok (Building b')"
  shows "archive_inv k start b' A {c \<in> H. cur_number c \<le> cur_number (last_block (cs_info seg))}"
proof -
  let ?n = "cur_number (last_block (cs_info seg))"
  obtain m where m: "first_number b = start + m * k"
    "\<forall>j < m. \<exists>seg. A (start + j * k) = Some seg \<and> archived_ok k (start + j * k) H seg"
    and run: "run_inv (Building b) H" using assms(1) by (auto simp: archive_inv_def)
  have seg: "seg = published b" using assms(2) by (simp add: current_segment_Building)
  then have "b' = restored (published b)"
    using assms(3) restore_from_segment_eq [OF published_ok, of b] run by simp
  then have first: "first_number b' = first_number b" by (simp add: first_number_def)
  have "first_number b \<le> ?n" using seg building_bounds(1) [of b] run by (simp add: last_number_def)
  moreover have "start + j * k + k \<le> first_number b" if "j < m" for j
    using mult_le_mono1 [of "Suc j" m k] that m(1) by simp
  ultimately have le: "start + j * k + k \<le> ?n" if "j < m" for j using that le_trans by blast
  then have "\<forall>j < m. \<exists>seg. A (start + j * k) = Some seg \<and> archived_ok k (start + j * k) {c \<in> H. cur_number c \<le> ?n} seg"
    using m(2) archived_ok_below by blast
  then show ?thesis
    using assms(1) run_inv_restore(1) [OF run assms(2,3)] m(1) by (auto simp: archive_inv_def first)
qed

text \<open>Operations on a non-empty builder keep it non-empty.\<close>

lemma op_results_Building:
  "grow b blk = Ok b' \<Longrightarrow> \<exists>bd. b' = Building bd"
  "shrink b c = Ok (removed, b') \<Longrightarrow> \<exists>bd. b = Building bd"
  "take_segment b k = Ok (seg, b') \<Longrightarrow> \<exists>bd bd'. b = Building bd \<and> b' = Building bd'"
  "restore_from_segment seg = Ok b' \<Longrightarrow> \<exists>bd. b' = Building bd"
  by (cases b; auto simp: grow_def shrink_def take_segment_def restore_from_segment_def Let_def outcome_simps
      split: if_splits prod.splits)+

lemma archive_run_inv: "archive_run k start b A H \<Longrightarrow> \<exists>bd. b = Building bd \<and> archive_inv k start bd A H"
proof (induction rule: archive_run.induct)
  case (ar_start blk b)
  then show ?case using archive_inv_start op_results_Building(1) by metis
next
  case (ar_grow b A H blk b')
  then show ?case using archive_inv_grow op_results_Building(1) by metis
next
  case (ar_shrink b A H c removed b')
  then obtain bd where bd: "b = Building bd" "archive_inv k start bd A H" by blast
  then have run: "run_inv (Building bd) H" by (simp add: archive_inv_def)
  then have "b' = Building (shrunk bd c)"
    using ar_shrink.hyps(2) bd(1) by (auto simp: shrink_Building split: if_splits)
  moreover have "run_inv b' H" using run_inv_shrink run ar_shrink.hyps(2) bd(1) by blast
  ultimately show ?case using archive_inv_same_first [OF bd(2)] by simp
next
  case (ar_take b A H seg b')
  then show ?case using archive_inv_take op_results_Building(3) by metis
next
  case (ar_restart b A H seg b')
  then show ?case using archive_inv_restart op_results_Building(4) by metis
qed

section \<open>Reading the whole chain\<close>

text \<open>What the reader needs of the store: in the states \<open>W\<close> a lookup of an archived segment returns
  it, and stays in \<open>W\<close>.\<close>

locale archive_reader =
  fixes st :: "'w chain_store" and A :: "nat \<rightharpoonup> chain_segment" and W :: "'w \<Rightarrow> bool"
  assumes reads: "W w \<Longrightarrow> A n = Some seg \<Longrightarrow> \<exists>w'. chain_store_get st n w = (Ok (Some seg), w') \<and> W w'"

text \<open>The full chain the server holds after a run.\<close>

definition chain_after :: "'w chain_store \<Rightarrow> nat \<Rightarrow> nat \<Rightarrow> building \<Rightarrow> 'w full_chain" where
  "chain_after st k start b =
     \<lparr>fc_store = st, fc_starting_block = start, fc_chain_segment_size = k, fc_recent = published b\<rparr>"

lemma chain_segment_start_aligned:
  assumes "0 < k" and "start + j * k \<le> n" and "n < start + j * k + k" and "n < u64_lim"
  shows "chain_segment_start n start k = Ok (start + j * k)"
proof -
  have "(n - start) div k = j"
    using assms(1-3) by (intro div_nat_eqI) (auto simp: algebra_simps)
  moreover have "j * k < u64_lim" "start + j * k < u64_lim" using assms by auto
  ultimately show ?thesis
    using assms by (simp add: chain_segment_start_def u64_simps add.commute)
qed

text \<open>The canonical block at a number according to the recent segment and the archive.\<close>

definition full_block ::
  "nat \<Rightarrow> nat \<Rightarrow> building \<Rightarrow> (nat \<rightharpoonup> chain_segment) \<Rightarrow> nat \<Rightarrow> (cursor, chain_error) outcome" where
  "full_block k start b A n =
     (if first_number b \<le> n then segment_canonical (published b) n
      else case A (start + (n - start) div k * k) of
             Some seg \<Rightarrow> segment_canonical seg n
           | None \<Rightarrow> Err ViewError)"

text \<open>A client that starts without a cursor and asks for the next one until it is at the head;
  the fuel bounds the number of requests. It returns the cursors it was given.\<close>

fun chain_walk ::
  "nat \<Rightarrow> 'w full_chain \<Rightarrow> cursor option \<Rightarrow> cursor list \<Rightarrow> ('w, cursor list option, chain_view_error) io" where
  "chain_walk 0 fc cursor acc = ireturn None"
| "chain_walk (Suc fuel) fc cursor acc =
     ibind (get_next_cursor fc cursor) (\<lambda>next.
     case next of
       NextContinue c is_head \<Rightarrow> chain_walk fuel fc (Some c) (acc @ [c])
     | Invalidate t \<Rightarrow> chain_walk fuel fc (Some t) acc
     | AtHead \<Rightarrow> ireturn (Some acc))"

lemma history_bound:
  assumes "archive_inv k start b A H" and "c \<in> H"
  shows "start \<le> cur_number c" and "cur_number c < u64_lim"
proof -
  have run: "building_ok b" "history_ok b H" using assms(1) by (simp_all add: archive_inv_def)
  show "start \<le> cur_number c" using assms by (simp add: archive_inv_def)
  note bounds = building_bounds [OF run(1)]
  show "cur_number c < u64_lim"
  proof (cases "first_number b \<le> cur_number c \<and> \<not> is_canonical b c")
    case True
    then have "reorg_target b c \<noteq> None" using run(2) assms(2) by (auto simp: history_ok_def)
    then obtain r where "bt_get (bd_reorgs b) (cur_number c) = Some r"
      by (auto simp: reorg_target_def bt_get_or_def split: option.splits)
    moreover have "reorgs_ok (first_number b) (bd_reorgs b)" using run(1) by (simp add: building_ok_def)
    ultimately show ?thesis by (fastforce simp: reorgs_ok_def bt_get_iff_mem)
  next
    case False
    then show ?thesis using bounds by (auto simp: is_canonical_def)
  qed
qed

lemma archived_index:
  assumes "start + m * k = first_number b" and "first = start + j * k" and "0 < k"
    and "first \<le> n" and "n < first + k"
  shows "start + (n - start) div k * k = first"
proof -
  have "(n - start) div k = j" using assms by (intro div_nat_eqI) (auto simp: algebra_simps)
  then show ?thesis using assms(2) by simp
qed

lemma last_block_canonical:
  assumes "building_ok b"
  shows "segment_canonical (published b) (last_number b) = Ok (last_block (bd_info b))"
proof -
  have "is_canonical b (last_block (bd_info b))" using assms by (rule is_canonical_last)
  then have "bd_canonical b ! (last_number b - first_number b) = cur_hash (last_block (bd_info b))"
    by (simp add: is_canonical_def last_number_def)
  then show ?thesis
    using segment_canonical_published [OF assms building_bounds(1) [OF assms] order_refl]
    by (simp add: last_number_def)
qed

lemma full_block_last:
  assumes "building_ok b"
  shows "full_block k start b A (last_number b) = Ok (last_block (bd_info b))"
  using last_block_canonical [OF assms] building_bounds(1) [OF assms] by (simp add: full_block_def)

lemma segment_canonical_iff:
  assumes "building_ok b"
  shows "segment_canonical (published b) (cur_number c) = Ok c \<longleftrightarrow> is_canonical b c"
proof (cases "first_number b \<le> cur_number c \<and> cur_number c \<le> last_number b")
  case True
  then show ?thesis
    using segment_canonical_published [OF assms]
    by (auto simp: is_canonical_def intro: cursor_eqI dest: arg_cong [of _ _ cur_hash])
next
  case False
  then have "segment_canonical (published b) (cur_number c) = Err ViewError"
    by (auto simp: segment_canonical_def first_number_def last_number_def)
  then show ?thesis using False by (auto simp: is_canonical_def)
qed

lemma reconnect_cases:
  assumes run: "run_inv (Building b) H"
    and seg: "first_number b \<le> cur_number c \<and> seg = published b \<or>
     (\<exists>first. first \<le> cur_number c \<and> cur_number c < first + k \<and> first + k \<le> first_number b \<and>
        archived_ok k first H seg)"
  shows "if segment_canonical seg (cur_number c) = Ok c \<or> hash_is_zero (cur_hash c) \<and> cur_number c \<le> last_number b
    then reconnect seg c = Ok Continue \<and> cur_number c \<le> last_number b
    else if c \<in> H then \<exists>t \<in> H. reconnect seg c = Ok (OfflineReorg t) \<and> cur_number t < cur_number c
    else reconnect seg c = Ok Unknown \<or> reconnect seg c = Err ViewError"
  using seg
proof
  assume recent: "first_number b \<le> cur_number c \<and> seg = published b"
  have ok: "building_ok b" and h: "history_ok b H" using run by simp_all
  have canonical: "segment_canonical seg (cur_number c) = Ok c \<longleftrightarrow> is_canonical b c"
    using segment_canonical_iff [OF ok] recent by blast
  show ?thesis
  proof (cases "c \<in> H")
    case True
    then have "\<not> hash_is_zero (cur_hash c)" using h by (simp add: history_ok_def)
    moreover have "is_canonical b c \<longrightarrow> cur_number c \<le> last_number b" by (simp add: is_canonical_def)
    ultimately show ?thesis
      using reconnect_history [OF run True] recent True unfolding canonical by (cases "is_canonical b c") auto
  next
    case False
    then have none: "\<not> is_canonical b c" "reorg_target b c = None"
      using h unfolding history_ok_def by (blast, metis option.exhaust)
    then have "reconnect seg c =
      (if cur_number c \<le> last_number b then Ok (if hash_is_zero (cur_hash c) then Continue else Unknown)
       else if bt_get (bd_reorgs b) (cur_number c) = None then Err ViewError else Ok Unknown)"
      using reconnect_published [OF ok] recent by simp
    then show ?thesis using none(1) False unfolding canonical by simp
  qed
next
  assume "\<exists>first. first \<le> cur_number c \<and> cur_number c < first + k \<and> first + k \<le> first_number b \<and>
    archived_ok k first H seg"
  then obtain first where f: "first \<le> cur_number c" "cur_number c < first + k"
    "first + k \<le> first_number b" "archived_ok k first H seg" by blast
  have le: "cur_number c \<le> last_number b" using f run building_bounds(1) [of b] by simp
  obtain d where d: "d \<in> H" "segment_canonical seg (cur_number c) = Ok d" "reconnect seg d = Ok Continue"
    using f(1,2,4) unfolding archived_ok_def by blast
  have nz: "\<not> hash_is_zero (cur_hash c)" if "c \<in> H" using run that by (simp add: history_ok_def)
  show ?thesis
  proof (cases "c \<in> H")
    case True
    then have "segment_canonical seg (cur_number c) = Ok c \<and> reconnect seg c = Ok Continue \<or>
        (\<exists>t \<in> H. reconnect seg c = Ok (OfflineReorg t) \<and> cur_number t < cur_number c)"
      using f unfolding archived_ok_def by blast
    then show ?thesis using d nz le True by auto
  next
    case False
    then have "reconnect seg c = Ok (if hash_is_zero (cur_hash c) then Continue else Unknown)"
      using f unfolding archived_ok_def by blast
    then show ?thesis using d False le by auto
  qed
qed

context archive_reader
begin

lemma get_chain_segment_run:
  assumes inv: "archive_inv k start b A H" and "start \<le> n" and "n < u64_lim" and "W w"
  obtains seg w' where "get_chain_segment (chain_after st k start b) n w = (Ok seg, w')" "W w'"
    "first_number b \<le> n \<and> seg = published b \<or>
     (\<exists>first. first \<le> n \<and> n < first + k \<and> first + k \<le> first_number b \<and> archived_ok k first H seg)"
    "full_block k start b A n = segment_canonical seg n"
proof (cases "first_number b \<le> n")
  case True
  then show ?thesis
    using that [of "published b" w] assms(4)
    by (simp add: get_chain_segment_def chain_after_def full_block_def flip: first_number_def)
next
  case False
  obtain m where m: "first_number b = start + m * k"
    "\<forall>j < m. \<exists>seg. A (start + j * k) = Some seg \<and> archived_ok k (start + j * k) H seg"
    and k: "0 < k"
    using inv by (auto simp: archive_inv_def)
  define j where "j = (n - start) div k"
  have j: "start + j * k \<le> n" "n < start + j * k + k"
    using assms(2) dividend_less_div_times [OF k, of "n - start"]
      div_times_less_eq_dividend [of "n - start" k]
    unfolding j_def by linarith+
  have "j < m"
    using False m(1) j k by (metis le_trans linorder_not_less mult_le_mono1 nat_add_left_cancel_le)
  then obtain seg where seg: "A (start + j * k) = Some seg" "archived_ok k (start + j * k) H seg"
    using m(2) by blast
  obtain w' where w': "chain_store_get st (start + j * k) w = (Ok (Some seg), w')" "W w'"
    using reads [OF assms(4) seg(1)] by blast
  have "start + j * k + k \<le> first_number b"
  proof -
    have "Suc j * k \<le> m * k" using \<open>j < m\<close> by (intro mult_le_mono1) simp
    then show ?thesis using m(1) by simp
  qed
  moreover have "get_chain_segment (chain_after st k start b) n w = (Ok seg, w')"
    using False w' chain_segment_start_aligned [OF k j assms(3)]
    by (simp add: get_chain_segment_def chain_after_def ibind_def ichange_def flip: first_number_def)
  moreover have "full_block k start b A n = segment_canonical seg n"
    using False seg(1) by (simp add: full_block_def j_def)
  ultimately show ?thesis using that w' j seg(2) by blast
qed

lemma get_canonical_run:
  assumes inv: "archive_inv k start b A H" and "start \<le> n" and "n \<le> last_number b" and "W w"
  obtains c w' where "get_canonical_impl (chain_after st k start b) n w = (Ok c, w')" "W w'"
    "c \<in> H" "cur_number c = n" "full_block k start b A n = Ok c"
proof -
  have run: "building_ok b" "history_ok b H" using inv by (simp_all add: archive_inv_def)
  have n: "n < u64_lim" using assms(3) building_bounds [OF run(1)] by simp
  obtain seg w' where get: "get_chain_segment (chain_after st k start b) n w = (Ok seg, w')" "W w'"
    and seg: "first_number b \<le> n \<and> seg = published b \<or>
     (\<exists>first. first \<le> n \<and> n < first + k \<and> first + k \<le> first_number b \<and> archived_ok k first H seg)"
    and block: "full_block k start b A n = segment_canonical seg n"
    using get_chain_segment_run [OF inv assms(2) n assms(4)] .
  have "\<exists>c \<in> H. cur_number c = n \<and> segment_canonical seg n = Ok c"
  proof (cases "first_number b \<le> n")
    case True
    then have "is_canonical b (mk_cursor n (bd_canonical b ! (n - first_number b)))"
      using assms(3) by (simp add: is_canonical_def)
    then show ?thesis
      using seg True run segment_canonical_published [OF run(1) True assms(3)]
      by (auto simp: history_ok_def)
  next
    case False
    then show ?thesis using seg unfolding archived_ok_def by blast
  qed
  then obtain c where "c \<in> H" "cur_number c = n" "segment_canonical seg n = Ok c" by blast
  then show ?thesis
    using that get block by (simp add: get_canonical_impl_def ibind_def)
qed

text \<open>The answer to a client at any cursor from the starting block on.\<close>

lemma next_cursor_run:
  assumes inv: "archive_inv k start b A H" and "start \<le> cur_number c" and "cur_number c < u64_lim" and "W w"
  obtains r w' where "get_next_cursor (chain_after st k start b) (Some c) w = (r, w')" "W w'"
    "if full_block k start b A (cur_number c) = Ok c \<or> hash_is_zero (cur_hash c) \<and> cur_number c \<le> last_number b
     then if cur_number c = last_number b then r = Ok AtHead
       else \<exists>n \<in> H. r = Ok (NextContinue n (n = last_block (bd_info b))) \<and> cur_number n = cur_number c + 1 \<and>
         full_block k start b A (cur_number n) = Ok n
     else if c \<in> H then \<exists>t \<in> H. r = Ok (Invalidate t) \<and> cur_number t < cur_number c
     else r = Err ChainViewError"
proof -
  have run: "run_inv (Building b) H" "building_ok b" using inv by (simp_all add: archive_inv_def)
  note bounds = building_bounds [OF run(2)]
  obtain seg w1 where get: "get_chain_segment (chain_after st k start b) (cur_number c) w = (Ok seg, w1)" "W w1"
    and seg: "first_number b \<le> cur_number c \<and> seg = published b \<or>
     (\<exists>first. first \<le> cur_number c \<and> cur_number c < first + k \<and> first + k \<le> first_number b \<and>
        archived_ok k first H seg)"
    and block: "full_block k start b A (cur_number c) = segment_canonical seg (cur_number c)"
    using get_chain_segment_run [OF inv assms(2-4)] .
  note cases = reconnect_cases [OF run(1) seg, folded block]
  have last: "last_block (cs_info (fc_recent (chain_after st k start b))) = last_block (bd_info b)"
    by (simp add: chain_after_def)
  show ?thesis
  proof (cases "full_block k start b A (cur_number c) = Ok c \<or> hash_is_zero (cur_hash c) \<and> cur_number c \<le> last_number b")
    case known: True
    then have cont: "reconnect seg c = Ok Continue" "cur_number c \<le> last_number b" using cases by simp_all
    show ?thesis
    proof (cases "cur_number c = last_number b")
      case True
      then show ?thesis
        using that [of "Ok AtHead" w1] get cont(1) known last by (simp add: get_next_cursor_def ibind_def last_number_def)
    next
      case False
      have le: "cur_number c + 1 \<le> last_number b" using False cont(2) by simp
      obtain n w2 where n: "get_canonical_impl (chain_after st k start b) (cur_number c + 1) w1 = (Ok n, w2)"
        "W w2" "n \<in> H" "cur_number n = cur_number c + 1"
        "full_block k start b A (cur_number c + 1) = Ok n"
        using get_canonical_run [OF inv _ le get(2)] assms(2) by (metis le_add1 le_trans)
      have u: "u64_add (cur_number c) 1 = cur_number c + 1" using le bounds by (simp add: u64_simps)
      have "n = last_block (bd_info b)" if "cur_number n = last_number b"
        using full_block_last [OF run(2), of k start A] n(5) [folded n(4)] that by simp
      then have head: "(cur_number n = last_number b) = (n = last_block (bd_info b))"
        by (auto simp: last_number_def)
      have "get_next_cursor (chain_after st k start b) (Some c) w =
          (Ok (NextContinue n (cur_number n = last_number b)), w2)"
        using get(1) cont(1) n(1) u False
        by (simp add: get_next_cursor_def ibind_def last flip: last_number_def)
      then show ?thesis using that [OF _ n(2)] n(3,4,5) known False head by auto
    qed
  next
    case unknown: False
    show ?thesis
    proof (cases "c \<in> H")
      case True
      then obtain t where "t \<in> H" "reconnect seg c = Ok (OfflineReorg t)" "cur_number t < cur_number c"
        using cases unknown by auto
      then show ?thesis
        using that [of "Ok (Invalidate t)" w1] get True unknown by (auto simp: get_next_cursor_def ibind_def)
    next
      case False
      then have "reconnect seg c = Ok Unknown \<or> reconnect seg c = Err ViewError" using cases unknown by simp
      then have "get_next_cursor (chain_after st k start b) (Some c) w = (Err ChainViewError, w1)"
        using get by (auto simp: get_next_cursor_def ibind_def)
      then show ?thesis using that get(2) False unknown by simp
    qed
  qed
qed

lemma first_cursor_run:
  assumes inv: "archive_inv k start b A H" and "W w" and "start \<le> last_number b"
  obtains c w' where "get_next_cursor (chain_after st k start b) None w = (Ok (NextContinue c False), w')" "W w'"
    "c \<in> H" "cur_number c = start" "full_block k start b A start = Ok c"
proof -
  obtain c w' where c: "get_canonical_impl (chain_after st k start b) start w = (Ok c, w')" "W w'"
    "c \<in> H" "cur_number c = start" "full_block k start b A start = Ok c"
    using get_canonical_run [OF inv order_refl assms(3,2)] .
  then show ?thesis using that by (simp add: get_next_cursor_def ibind_def chain_after_def)
qed

lemma full_block_bound:
  assumes "building_ok b" and "full_block k start b A n = Ok c"
  shows "n \<le> last_number b"
proof (rule ccontr)
  assume "\<not> n \<le> last_number b"
  then have "full_block k start b A n = Err ViewError"
    using building_bounds(1) [OF assms(1)]
    by (auto simp: full_block_def segment_canonical_def first_number_def last_number_def)
  then show False using assms(2) by simp
qed

lemma walk_from:
  assumes inv: "archive_inv k start b A H" and "c \<in> H" and "W w"
    and "full_block k start b A (cur_number c) = Ok c" and "last_number b - cur_number c < fuel"
  shows "\<exists>cs w'. chain_walk fuel (chain_after st k start b) (Some c) acc w = (Ok (Some (acc @ cs)), w') \<and>
    map cur_number cs = [Suc (cur_number c)..<Suc (last_number b)] \<and>
    (\<forall>x \<in> set cs. full_block k start b A (cur_number x) = Ok x)"
  using assms(2-5)
proof (induction fuel arbitrary: c w acc)
  case (Suc fuel)
  have ok: "building_ok b" using inv by (simp add: archive_inv_def)
  obtain r w' where r: "get_next_cursor (chain_after st k start b) (Some c) w = (r, w')" "W w'"
    "if cur_number c = last_number b then r = Ok AtHead
     else \<exists>n \<in> H. r = Ok (NextContinue n (n = last_block (bd_info b))) \<and> cur_number n = cur_number c + 1 \<and>
       full_block k start b A (cur_number n) = Ok n"
    using next_cursor_run [OF inv history_bound [OF inv Suc.prems(1)] Suc.prems(2)] Suc.prems(3) by auto
  show ?case
  proof (cases "cur_number c = last_number b")
    case True
    then show ?thesis using r by (simp add: ibind_def)
  next
    case False
    then obtain n where n: "n \<in> H" "cur_number n = Suc (cur_number c)" "full_block k start b A (cur_number n) = Ok n"
      and next_cursor: "r = Ok (NextContinue n (n = last_block (bd_info b)))"
      using r(3) by auto
    have le: "cur_number n \<le> last_number b" using full_block_bound [OF ok n(3)] .
    then obtain cs w'' where cs:
      "chain_walk fuel (chain_after st k start b) (Some n) (acc @ [n]) w' = (Ok (Some ((acc @ [n]) @ cs)), w'')"
      "map cur_number cs = [Suc (cur_number n)..<Suc (last_number b)]"
      "\<forall>x \<in> set cs. full_block k start b A (cur_number x) = Ok x"
      using Suc.IH [OF n(1) r(2) n(3), of "acc @ [n]"] Suc.prems(4) n(2) by fastforce
    have "[Suc (cur_number c)..<Suc (last_number b)] = cur_number n # [Suc (cur_number n)..<Suc (last_number b)]"
      using le n(2) by (simp add: upt_conv_Cons del: upt_Suc)
    then show ?thesis
      using r(1) cs n(3) by (intro exI [of _ "n # cs"] exI [of _ w''])
        (simp add: next_cursor ibind_def del: upt_Suc)
  qed
qed simp

lemma walk_all:
  assumes inv: "archive_inv k start b A H" and "W w" and "start \<le> last_number b"
  shows "\<exists>cs w'. chain_walk (last_number b - start + 2) (chain_after st k start b) None [] w = (Ok (Some cs), w') \<and>
    map cur_number cs = [start..<Suc (last_number b)] \<and>
    (\<forall>x \<in> set cs. full_block k start b A (cur_number x) = Ok x)"
proof -
  obtain c w1 where c: "get_next_cursor (chain_after st k start b) None w = (Ok (NextContinue c False), w1)" "W w1"
    "c \<in> H" "cur_number c = start" "full_block k start b A start = Ok c"
    using first_cursor_run [OF assms] .
  obtain cs w2 where
    "chain_walk (last_number b - start + 1) (chain_after st k start b) (Some c) [c] w1 = (Ok (Some ([c] @ cs)), w2)"
    "map cur_number cs = [Suc (cur_number c)..<Suc (last_number b)]"
    "\<forall>x \<in> set cs. full_block k start b A (cur_number x) = Ok x"
    using walk_from [OF inv c(3,2), of "last_number b - start + 1" "[c]"] c(4,5) by auto
  then show ?thesis
    using c(1,4,5) assms(3)
    by (intro exI [of _ "c # cs"] exI [of _ w2]) (simp add: ibind_def upt_conv_Cons del: upt_Suc)
qed

end

section \<open>Properties\<close>

lemma archive_run_start: "archive_run k start (Building b) A H \<Longrightarrow> start \<le> last_number b"
  using archive_run_inv [of k start "Building b" A H] building_bounds(1) [of b]
  by (auto simp: archive_inv_def)

text \<open>C22: After any run of the ingestion, with the archived segments readable, the server answers a request
  for the next block as follows, for no cursor and for every cursor from the starting block on. Without a cursor
  it gives the first block. After a canonical block, or a cursor without a hash up to the head, it says that the client is
  at the head when the number is that of the head, and otherwise gives the canonical block that follows, flagged as
  head exactly when it is the last one. A cursor that left the chain (it is in \<open>H\<close>, the cursors a
  run exposed) is invalidated to a strictly lower cursor that was canonical at some time. Every other cursor is
  an error.\<close>

theorem full_chain_next_cursor:
  assumes "archive_run k start (Building b) A H" and "archive_reader st A W" and "W w"
    and "\<forall>c. cursor = Some c \<longrightarrow> start \<le> cur_number c \<and> cur_number c < u64_lim"
  shows "\<exists>r w'. get_next_cursor (chain_after st k start b) cursor w = (r, w') \<and> W w' \<and>
    (case cursor of
       None \<Rightarrow> \<exists>first. r = Ok (NextContinue first False) \<and> cur_number first = start \<and> full_block k start b A start = Ok first
     | Some c \<Rightarrow>
         if full_block k start b A (cur_number c) = Ok c \<or> hash_is_zero (cur_hash c) \<and> cur_number c \<le> last_number b
         then if cur_number c = last_number b then r = Ok AtHead
           else \<exists>n \<in> H. r = Ok (NextContinue n (n = last_block (bd_info b))) \<and> cur_number n = cur_number c + 1 \<and>
             full_block k start b A (cur_number n) = Ok n
         else if c \<in> H then \<exists>t \<in> H. r = Ok (Invalidate t) \<and> cur_number t < cur_number c
         else r = Err ChainViewError)"
proof -
  have inv: "archive_inv k start b A H" using archive_run_inv [OF assms(1)] by simp
  show ?thesis
  proof (cases cursor)
    case None
    obtain c w' where "get_next_cursor (chain_after st k start b) None w = (Ok (NextContinue c False), w')" "W w'"
      "cur_number c = start" "full_block k start b A start = Ok c"
      by (rule archive_reader.first_cursor_run [OF assms(2) inv assms(3) archive_run_start [OF assms(1)]])
    then show ?thesis using None by auto
  next
    case (Some c)
    then have c: "start \<le> cur_number c" "cur_number c < u64_lim" using assms(4) by simp_all
    show ?thesis by (rule archive_reader.next_cursor_run [OF assms(2) inv c assms(3)]) (use Some in auto)
  qed
qed

text \<open>C8: A client without a cursor that keeps asking for the next one is given every canonical block
  from the starting block to the head, in order, each exactly once, and then is at the head;
  the number of requests is the number of blocks plus one.\<close>

theorem full_chain_walk:
  assumes "archive_run k start (Building b) A H" and "archive_reader st A W" and "W w"
  shows "\<exists>cs w'. chain_walk (last_number b - start + 2) (chain_after st k start b) None [] w = (Ok (Some cs), w') \<and>
    map cur_number cs = [start..<Suc (last_number b)] \<and>
    (\<forall>x \<in> set cs. full_block k start b A (cur_number x) = Ok x)"
proof -
  have "archive_inv k start b A H" using archive_run_inv [OF assms(1)] by simp
  then show ?thesis
    using archive_reader.walk_all [OF assms(2) _ assms(3)] archive_run_start [OF assms(1)] by blast
qed

text \<open>C23: \<open>get_canonical\<close> answers for every block number: past the head with the head, before the
  starting block with the first block, and otherwise with the canonical block of that number.\<close>

theorem full_chain_get_canonical:
  assumes "archive_run k start (Building b) A H" and "archive_reader st A W" and "W w"
  shows "\<exists>r w'. get_canonical (chain_after st k start b) n w = (Ok r, w') \<and>
    (case r of
       AfterAvailable c \<Rightarrow> last_number b < n \<and> c = last_block (bd_info b)
     | BeforeAvailable c \<Rightarrow> n < start \<and> full_block k start b A start = Ok c
     | Canonical c \<Rightarrow> start \<le> n \<and> n \<le> last_number b \<and> cur_number c = n \<and> c \<in> H \<and>
         full_block k start b A n = Ok c)"
proof -
  have inv: "archive_inv k start b A H" using archive_run_inv [OF assms(1)] by simp
  note at = archive_reader.get_canonical_run [OF assms(2) inv _ _ assms(3)]
  have head: "fc_starting_block (chain_after st k start b) = start"
    "last_block (cs_info (fc_recent (chain_after st k start b))) = last_block (bd_info b)"
    by (simp_all add: chain_after_def)
  consider "last_number b < n" | "n \<le> last_number b" "n < start" | "n \<le> last_number b" "start \<le> n"
    by linarith
  then show ?thesis
  proof cases
    case 1
    then show ?thesis by (simp add: get_canonical_def head flip: last_number_def)
  next
    case 2
    obtain c w1 where "get_canonical_impl (chain_after st k start b) start w = (Ok c, w1)"
      "full_block k start b A start = Ok c"
      using at [OF order_refl archive_run_start [OF assms(1)]] .
    then show ?thesis using 2 by (simp add: get_canonical_def head ibind_def flip: last_number_def)
  next
    case 3
    obtain c w1 where "get_canonical_impl (chain_after st k start b) n w = (Ok c, w1)" "c \<in> H"
      "cur_number c = n" "full_block k start b A n = Ok c"
      using at [OF 3(2,1)] .
    then show ?thesis using 3 by (simp add: get_canonical_def head ibind_def flip: last_number_def)
  qed
qed

section \<open>The reference environment\<close>

text \<open>States in which every archived segment is in the bucket and the cache agrees with it.\<close>

definition mem_archive :: "chain_segment list \<Rightarrow> (nat \<rightharpoonup> chain_segment) \<Rightarrow> mem_world \<Rightarrow> bool" where
  "mem_archive segments A w \<longleftrightarrow>
     (\<forall>n seg. A n = Some seg \<longrightarrow>
        mem.stored_segment segments w (canon_key (segment_filename n)) seg \<and>
        mem.cache_coherent segments w (canon_key (segment_filename n)))"

lemma mem_object_read:
  assumes "mw_objects w (full_key (cst_client (mem_store segments)) key) = Some (v, stored)"
    and "written_as (cst_codec (mem_store segments)) bs stored"
  shows "get_as_bytes (mem_store segments) key None w = (Ok (Some bs), w)"
proof -
  have "\<exists>r. object_store_get (cst_codec (mem_store segments)) (cst_client (mem_store segments)) key None w = (Ok r, w)"
    using assms mem.crc32_bound [of segments bs]
    by (auto simp: object_store_get_def ibind_def mem_store_def object_store_new_def mem_client_def mem_get_def
        full_key_def written_as_def mem_codec_def Let_def)
  then show ?thesis
    using mem.get_written(4) [OF assms, of None] by (auto simp: get_as_bytes_def)
qed

interpretation mem_reader: archive_reader "mem_store segments" A "mem_archive segments A"
proof unfold_locales
  fix w n seg
  assume W: "mem_archive segments A w" and seg: "A n = Some seg"
  let ?st = "mem_store segments" and ?key = "canon_key (segment_filename n)"
  obtain v stored bs where st: "mw_objects w (full_key (cst_client ?st) ?key) = Some (v, stored)"
    "to_bytes (cst_serde ?st) seg = Some bs" "written_as (cst_codec ?st) bs stored"
    and coh: "mem.cache_coherent segments w ?key"
    using W seg unfolding mem_archive_def mem.stored_segment_def by blast
  have cache: "fca_get (cst_cache ?st) k w' = (Ok (mw_cache w' k), w')"
    "fca_insert (cst_cache ?st) k bs w' = w'\<lparr>mw_cache := (mw_cache w')(k \<mapsto> bs)\<rparr>" for k w' bs
    by (simp_all add: mem_store_def)
  have dec: "from_bytes (cst_serde ?st) bs = Some seg" using mem.serde_inverse st(2) .
  show "\<exists>w'. chain_store_get ?st n w = (Ok (Some seg), w') \<and> mem_archive segments A w'"
  proof (cases "mw_cache w ?key")
    case (Some existing)
    then have "existing = bs"
      using coh st(1,3) mem.written_as_functional unfolding mem.cache_coherent_def by fastforce
    then show ?thesis
      using W Some dec
      by (simp add: chain_store_get_def get_impl_def Let_def ibind_def ichange_def cache decode_segment_def)
  next
    case None
    define w' where "w' = w\<lparr>mw_cache := (mw_cache w)(?key \<mapsto> bs)\<rparr>"
    have "chain_store_get ?st n w = (Ok (Some seg), w')"
      using None dec mem_object_read [OF st(1,3)]
      by (simp add: chain_store_get_def get_impl_def Let_def ibind_def ichange_def cache decode_segment_def w'_def)
    moreover have "mem_archive segments A w'"
      using W st(1,3) unfolding mem_archive_def mem.stored_segment_def mem.cache_coherent_def
      by (auto simp: w'_def)
    ultimately show ?thesis by blast
  qed
qed

section \<open>Witnesses\<close>

text \<open>The demonstration chain, started at block 5 with segments of two blocks: blocks 5 and 6 are
  archived, block 7 is recent.\<close>

definition demo_archive :: "nat \<rightharpoonup> chain_segment" where
  "demo_archive = [5 \<mapsto> taken demo_building 2]"

definition demo_store :: "mem_world chain_store" where
  "demo_store = mem_store [taken demo_building 2]"

definition demo_world :: mem_world where
  "demo_world = snd (chain_store_put demo_store (taken demo_building 2) empty_world)"

definition demo_history :: "cursor set" where
  "demo_history = {demo_cursor 7, demo_cursor 6, demo_cursor 5}"

lemma demo_archive_run: "archive_run 2 5 (Building (remaining demo_building 2)) demo_archive demo_history"
proof -
  have cursors: "block_cursor (demo_block n) = demo_cursor n" "bi_number (demo_block n) = n" for n
    by (simp_all add: demo_defs block_cursor_def mk_cursor_def)
  have take: "take_segment (Building demo_building) 2 =
      Ok (taken demo_building 2, Building (remaining demo_building 2))"
    using demo_building_ok by (simp add: take_segment_Building) (simp add: demo_building_def)
  have first: "cur_number (first_block (cs_info (taken demo_building 2))) = 5"
    by (simp add: demo_building_def demo_cursor_def)
  have "archive_run 2 5 (Building demo_building) Map.empty demo_history"
    using ar_grow [OF ar_grow [OF ar_start [OF _ demo_block_ok(1) _ demo_grow(1) [folded builder_new_def]]
          demo_block_ok(2) _ demo_grow(2)] demo_block_ok(3) _ demo_grow(3), of 2 5]
    by (simp add: cursors demo_history_def insert_commute)
  from ar_take [OF this take] show ?thesis by (simp only: first demo_archive_def)
qed

lemma demo_world_ok: "mem_archive [taken demo_building 2] demo_archive demo_world"
proof -
  have first: "cur_number (first_block (cs_info (taken demo_building 2))) = 5"
    by (simp add: demo_building_def demo_cursor_def)
  have ok: "\<exists>v. chain_store_put demo_store (taken demo_building 2) empty_world = (Ok v, demo_world)"
    and cache: "mw_cache demo_world = Map.empty"
    by (simp_all add: demo_world_def demo_store_def chain_store_put_def put_impl_def mem_store_def
        table_serde_def object_store_put_def mem_codec_def object_store_new_def mem_client_def mem_put_def
        ichange_def empty_world_def Let_def)
  then obtain v where "put_impl (mem_store [taken demo_building 2]) (segment_filename 5)
      (taken demo_building 2) Overwrite empty_world = (Ok v, demo_world)"
    unfolding chain_store_put_def first demo_store_def by blast
  note stored = mem.put_impl_stores [OF this]
  show ?thesis
    unfolding mem_archive_def demo_archive_def mem.cache_coherent_def cache
    using stored by simp
qed

theorem full_chain_next_cursor_witness:
  "(\<exists>w'. get_next_cursor (chain_after demo_store 2 5 (remaining demo_building 2)) (Some (mk_cursor 7 (Hash []))) demo_world =
     (Ok AtHead, w')) \<and>
   (\<exists>w'. get_next_cursor (chain_after demo_store 2 5 (remaining demo_building 2)) (Some (mk_cursor 6 (Hash [9]))) demo_world =
     (Err ChainViewError, w'))"
proof -
  have last: "last_number demo_building = 7"
    by (simp add: demo_building_def last_number_def demo_cursor_def)
  have first: "first_number demo_building = 5" by (simp add: demo_building_def first_number_def demo_cursor_def)
  have "segment_canonical (taken demo_building 2) 6 \<noteq> Ok (mk_cursor 6 (Hash [9]))"
    using segment_canonical_taken [OF demo_building_ok [simplified], of 2 6] first
    by (simp add: demo_building_def demo_hash_def mk_cursor_def)
  then have block: "full_block 2 5 (remaining demo_building 2) demo_archive 6 \<noteq> Ok (mk_cursor 6 (Hash [9]))"
    by (simp add: full_block_def first demo_archive_def)
  have "mk_cursor 6 (Hash [9]) \<notin> demo_history" by (simp add: demo_history_def demo_cursor_def mk_cursor_def demo_hash_def)
  then show ?thesis
    using full_chain_next_cursor [OF demo_archive_run mem_reader.archive_reader_axioms demo_world_ok, of "Some (mk_cursor 7 (Hash []))"]
      full_chain_next_cursor [OF demo_archive_run mem_reader.archive_reader_axioms demo_world_ok, of "Some (mk_cursor 6 (Hash [9]))"] block
    by (simp add: last mk_cursor_def hash_is_zero_def u64_lim_def flip: demo_store_def) blast
qed

theorem full_chain_walk_witness:
  "\<exists>cs w'. chain_walk 4 (chain_after demo_store 2 5 (remaining demo_building 2)) None [] demo_world =
     (Ok (Some cs), w') \<and> map cur_number cs = [5, 6, 7]"
proof -
  have "last_number (remaining demo_building 2) = 7"
    by (simp add: demo_building_def last_number_def demo_cursor_def)
  moreover have "[5..<Suc 7] = [5, 6, 7]" by (simp add: upt_rec)
  ultimately show ?thesis
    using full_chain_walk [OF demo_archive_run mem_reader.archive_reader_axioms demo_world_ok]
    by (auto simp: demo_store_def simp del: upt_Suc)
qed

theorem full_chain_get_canonical_witness:
  "\<exists>c w'. get_canonical (chain_after demo_store 2 5 (remaining demo_building 2)) 5 demo_world =
     (Ok (Canonical c), w') \<and> cur_number c = 5"
proof -
  have last: "last_number (remaining demo_building 2) = 7"
    by (simp add: demo_building_def last_number_def demo_cursor_def)
  obtain r w' where r: "get_canonical (chain_after demo_store 2 5 (remaining demo_building 2)) 5 demo_world = (Ok r, w')"
    "case r of
       AfterAvailable c \<Rightarrow> last_number (remaining demo_building 2) < 5 \<and> c = last_block (bd_info (remaining demo_building 2))
     | BeforeAvailable c \<Rightarrow> (5 :: nat) < 5 \<and> full_block 2 5 (remaining demo_building 2) demo_archive 5 = Ok c
     | Canonical c \<Rightarrow> 5 \<le> (5 :: nat) \<and> 5 \<le> last_number (remaining demo_building 2) \<and> cur_number c = 5 \<and>
         c \<in> demo_history \<and> full_block 2 5 (remaining demo_building 2) demo_archive 5 = Ok c"
    using full_chain_get_canonical [OF demo_archive_run mem_reader.archive_reader_axioms demo_world_ok, of 5]
    unfolding demo_store_def by blast
  then show ?thesis using last by (cases r) auto
qed

end
