(* ===== verification/StateClient.thy ===== *)
theory StateClient
  imports ChainStore
begin

text \<open>
  The coordination state in etcd: the key-value wrapper \<open>etcd/src/kv.rs\<close>, the ingestion state of
  \<open>common/src/ingestion/state_client.rs\<close> and the options of \<open>common/src/options_store.rs\<close>. The etcd
  client and the JSON codec are parameters. The locale \<open>etcd_store\<close> states etcd's guarantees with
  other writers acting at any moment; under it the compare-and-swap loop never moves a block
  number backwards.
\<close>

section \<open>Values: decimal numbers as bytes\<close>

text \<open>Rust strings are their UTF-8 bytes.\<close>

definition string_bytes :: "string \<Rightarrow> bytes" where
  "string_bytes s = map (\<lambda>c. word_of_nat (of_char c)) s"

definition bytes_string :: "bytes \<Rightarrow> string" where
  "bytes_string bs = map (\<lambda>b. char_of (unat b)) bs"

definition utf8_cont :: "nat \<Rightarrow> bool" where
  "utf8_cont b \<longleftrightarrow> 128 \<le> b \<and> b \<le> 191"

text \<open>Well-formed UTF-8: the table of the Unicode standard.\<close>

fun utf8_valid :: "nat list \<Rightarrow> bool" where
  "utf8_valid [] = True"
| "utf8_valid (b # bs) =
     (if b < 128 then utf8_valid bs
      else if 194 \<le> b \<and> b \<le> 223 then
        (case bs of c # r \<Rightarrow> utf8_cont c \<and> utf8_valid r | _ \<Rightarrow> False)
      else if 224 \<le> b \<and> b \<le> 239 then
        (case bs of c # d # r \<Rightarrow>
           (if b = 224 then 160 \<le> c \<and> c \<le> 191 else if b = 237 then 128 \<le> c \<and> c \<le> 159 else utf8_cont c)
             \<and> utf8_cont d \<and> utf8_valid r
         | _ \<Rightarrow> False)
      else if 240 \<le> b \<and> b \<le> 244 then
        (case bs of c # d # e # r \<Rightarrow>
           (if b = 240 then 144 \<le> c \<and> c \<le> 191 else if b = 244 then 128 \<le> c \<and> c \<le> 143 else utf8_cont c)
             \<and> utf8_cont d \<and> utf8_cont e \<and> utf8_valid r
         | _ \<Rightarrow> False)
      else False)"

definition from_utf8 :: "bytes \<Rightarrow> string option" where
  "from_utf8 bs = (if utf8_valid (map unat bs) then Some (bytes_string bs) else None)"

text \<open>\<open>str::parse::<u64>\<close>: an optional plus sign, at least one digit, only digits, no overflow.\<close>

definition is_digit :: "char \<Rightarrow> bool" where
  "is_digit c \<longleftrightarrow> (48 :: nat) \<le> of_char c \<and> of_char c \<le> (57 :: nat)"

definition parse_u64 :: "string \<Rightarrow> nat option" where
  "parse_u64 s =
     (let digits = (case s of CHR ''+'' # r \<Rightarrow> r | _ \<Rightarrow> s)
      in if digits \<noteq> [] \<and> list_all is_digit digits \<and> digits_value digits < u64_lim
         then Some (digits_value digits) else None)"

section \<open>The key-value client\<close>

record etcd_kv =
  kv_key :: bytes
  kv_value :: bytes
  kv_mod_revision :: nat

datatype txn_op = TxnPut string bytes | TxnDelete string

text \<open>The calls on \<open>etcd_client::KvClient\<close>: \<open>get\<close> with or without the prefix option, \<open>put\<close>, \<open>delete\<close>,
  and \<open>txn\<close> with comparisons \<open>mod_revision(key) = r\<close>, which returns \<open>succeeded()\<close>.\<close>

record 'w etcd =
  et_get :: "string \<Rightarrow> bool \<Rightarrow> ('w, etcd_kv list, unit) io"
  et_put :: "string \<Rightarrow> bytes \<Rightarrow> ('w, unit, unit) io"
  et_delete :: "string \<Rightarrow> ('w, unit, unit) io"
  et_txn :: "(string \<times> nat) list \<Rightarrow> txn_op list \<Rightarrow> ('w, bool, unit) io"

record 'w kv_client =
  kvc_client :: "'w etcd"
  kvc_prefix :: string

datatype etcd_client_error = EtcdClientError

definition kv_format_key :: "'w kv_client \<Rightarrow> string \<Rightarrow> string" where
  "kv_format_key kv key = kvc_prefix kv @ key"

definition kv_get_prefix :: "'w kv_client \<Rightarrow> string \<Rightarrow> ('w, etcd_kv list, etcd_client_error) io" where
  "kv_get_prefix kv prefix =
     ichange (\<lambda>_. EtcdClientError) (et_get (kvc_client kv) (kv_format_key kv prefix) True)"

definition kv_get :: "'w kv_client \<Rightarrow> string \<Rightarrow> ('w, etcd_kv list, etcd_client_error) io" where
  "kv_get kv key = ichange (\<lambda>_. EtcdClientError) (et_get (kvc_client kv) (kv_format_key kv key) False)"

definition kv_put :: "'w kv_client \<Rightarrow> string \<Rightarrow> bytes \<Rightarrow> ('w, unit, etcd_client_error) io" where
  "kv_put kv key value =
     ichange (\<lambda>_. EtcdClientError) (et_put (kvc_client kv) (kv_format_key kv key) value)"

definition kv_put_if_mod_revision ::
  "'w kv_client \<Rightarrow> string \<Rightarrow> bytes \<Rightarrow> nat \<Rightarrow> ('w, bool, etcd_client_error) io" where
  "kv_put_if_mod_revision kv key value mod_revision =
     (let formatted_key = kv_format_key kv key in
      ichange (\<lambda>_. EtcdClientError)
        (et_txn (kvc_client kv) [(formatted_key, mod_revision)] [TxnPut formatted_key value]))"

definition kv_delete :: "'w kv_client \<Rightarrow> string \<Rightarrow> ('w, unit, etcd_client_error) io" where
  "kv_delete kv key = ichange (\<lambda>_. EtcdClientError) (et_delete (kvc_client kv) (kv_format_key kv key))"

definition kv_put_and_delete ::
  "'w kv_client \<Rightarrow> string \<Rightarrow> bytes \<Rightarrow> string \<Rightarrow> ('w, bool, etcd_client_error) io" where
  "kv_put_and_delete kv put_key put_value del_key =
     ichange (\<lambda>_. EtcdClientError)
       (et_txn (kvc_client kv) []
          [TxnPut (kv_format_key kv put_key) put_value, TxnDelete (kv_format_key kv del_key)])"

section \<open>The ingestion state\<close>

definition INGESTION_PREFIX_KEY :: string where "INGESTION_PREFIX_KEY = ''ingestion/''"
definition RECENT_KEY :: string where "RECENT_KEY = ''ingestion/recent''"
definition LEGACY_INGESTED_KEY :: string where "LEGACY_INGESTED_KEY = ''ingestion/ingested''"
definition PENDING_KEY :: string where "PENDING_KEY = ''ingestion/pending''"
definition STARTING_BLOCK_KEY :: string where "STARTING_BLOCK_KEY = ''ingestion/starting_block''"
definition FINALIZED_KEY :: string where "FINALIZED_KEY = ''ingestion/finalized''"
definition SEGMENTED_KEY :: string where "SEGMENTED_KEY = ''ingestion/segmented''"
definition GROUPED_KEY :: string where "GROUPED_KEY = ''ingestion/grouped''"
definition PRUNED_KEY :: string where "PRUNED_KEY = ''compaction/pruned''"

datatype state_client_error = IngestionStateClientError

datatype ingestion_state_update =
    StartingBlock nat | Finalized nat | Pending "nat option" | Segmented nat | Grouped nat
  | Recent recent_segment_pointer

text \<open>\<open>client\<close> and the JSON codec (serde_json) of the recent segment pointer.\<close>

record 'w state_client =
  stc_kv :: "'w kv_client"
  stc_json :: "recent_segment_pointer serde"

text \<open>The common shape of the getters: the first value under the key, decoded and parsed.\<close>

definition decode_block :: "bytes \<Rightarrow> (nat, state_client_error) outcome" where
  "decode_block value = (case from_utf8 value of
     None \<Rightarrow> Err IngestionStateClientError
   | Some s \<Rightarrow> (case parse_u64 s of None \<Rightarrow> Err IngestionStateClientError | Some block \<Rightarrow> Ok block))"

definition get_block_at :: "'w state_client \<Rightarrow> string \<Rightarrow> ('w, nat option, state_client_error) io" where
  "get_block_at sc key =
     ibind (ichange (\<lambda>_. IngestionStateClientError) (kv_get (stc_kv sc) key)) (\<lambda>kvs.
     case kvs of
       [] \<Rightarrow> ireturn None
     | kv # _ \<Rightarrow> ibind (ilift (decode_block (kv_value kv))) (\<lambda>block. ireturn (Some block)))"

definition put_block_at :: "'w state_client \<Rightarrow> string \<Rightarrow> nat \<Rightarrow> ('w, unit, state_client_error) io" where
  "put_block_at sc key block =
     ichange (\<lambda>_. IngestionStateClientError) (kv_put (stc_kv sc) key (string_bytes (show_nat block)))"

definition get_starting_block :: "'w state_client \<Rightarrow> ('w, nat option, state_client_error) io" where
  "get_starting_block sc = get_block_at sc STARTING_BLOCK_KEY"

definition put_starting_block :: "'w state_client \<Rightarrow> nat \<Rightarrow> ('w, unit, state_client_error) io" where
  "put_starting_block sc block = put_block_at sc STARTING_BLOCK_KEY block"

definition get_finalized :: "'w state_client \<Rightarrow> ('w, nat option, state_client_error) io" where
  "get_finalized sc = get_block_at sc FINALIZED_KEY"

definition put_finalized :: "'w state_client \<Rightarrow> nat \<Rightarrow> ('w, unit, state_client_error) io" where
  "put_finalized sc block = put_block_at sc FINALIZED_KEY block"

definition get_recent :: "'w state_client \<Rightarrow> ('w, recent_segment_pointer option, state_client_error) io" where
  "get_recent sc =
     ibind (ichange (\<lambda>_. IngestionStateClientError) (kv_get (stc_kv sc) RECENT_KEY)) (\<lambda>kvs.
     case kvs of
       [] \<Rightarrow> ireturn None
     | kv # _ \<Rightarrow>
         ibind (ioption IngestionStateClientError (from_bytes (stc_json sc) (kv_value kv))) (\<lambda>p.
         ireturn (Some p)))"

definition put_recent :: "'w state_client \<Rightarrow> recent_segment_pointer \<Rightarrow> ('w, unit, state_client_error) io" where
  "put_recent sc p =
     ibind (ioption IngestionStateClientError (to_bytes (stc_json sc) p)) (\<lambda>value.
     ibind (ichange (\<lambda>_. IngestionStateClientError)
              (kv_put_and_delete (stc_kv sc) RECENT_KEY value PENDING_KEY)) (\<lambda>_.
     ireturn ()))"

definition get_legacy_ingested :: "'w state_client \<Rightarrow> ('w, string option, state_client_error) io" where
  "get_legacy_ingested sc =
     ibind (ichange (\<lambda>_. IngestionStateClientError) (kv_get (stc_kv sc) LEGACY_INGESTED_KEY)) (\<lambda>kvs.
     case kvs of
       [] \<Rightarrow> ireturn None
     | kv # _ \<Rightarrow>
         ibind (ioption IngestionStateClientError (from_utf8 (kv_value kv))) (\<lambda>value.
         ireturn (Some value)))"

definition delete_legacy_ingested :: "'w state_client \<Rightarrow> ('w, unit, state_client_error) io" where
  "delete_legacy_ingested sc =
     ichange (\<lambda>_. IngestionStateClientError) (kv_delete (stc_kv sc) LEGACY_INGESTED_KEY)"

definition put_pending :: "'w state_client \<Rightarrow> nat \<Rightarrow> ('w, unit, state_client_error) io" where
  "put_pending sc generation = put_block_at sc PENDING_KEY generation"

text \<open>The retry loop; \<open>Ok None\<close> is running out of fuel.\<close>

fun put_if_higher ::
  "nat \<Rightarrow> 'w state_client \<Rightarrow> string \<Rightarrow> nat \<Rightarrow> ('w, unit option, state_client_error) io" where
  "put_if_higher 0 sc key block = ireturn None"
| "put_if_higher (Suc fuel) sc key block =
     ibind (ichange (\<lambda>_. IngestionStateClientError) (kv_get (stc_kv sc) key)) (\<lambda>kvs.
     ibind (case kvs of
              [] \<Rightarrow> ireturn (Some 0)
            | kv # _ \<Rightarrow>
                ibind (ilift (decode_block (kv_value kv))) (\<lambda>current.
                if current \<ge> block then ireturn None else ireturn (Some (kv_mod_revision kv)))) (\<lambda>found.
     case found of
       None \<Rightarrow> ireturn (Some ())
     | Some mod_revision \<Rightarrow>
         ibind (ichange (\<lambda>_. IngestionStateClientError)
                  (kv_put_if_mod_revision (stc_kv sc) key (string_bytes (show_nat block)) mod_revision)) (\<lambda>applied.
         if applied then ireturn (Some ()) else put_if_higher fuel sc key block)))"

definition get_segmented :: "'w state_client \<Rightarrow> ('w, nat option, state_client_error) io" where
  "get_segmented sc = get_block_at sc SEGMENTED_KEY"

definition put_segmented :: "nat \<Rightarrow> 'w state_client \<Rightarrow> nat \<Rightarrow> ('w, unit option, state_client_error) io" where
  "put_segmented fuel sc block = put_if_higher fuel sc SEGMENTED_KEY block"

definition get_grouped :: "'w state_client \<Rightarrow> ('w, nat option, state_client_error) io" where
  "get_grouped sc = get_block_at sc GROUPED_KEY"

definition put_grouped :: "nat \<Rightarrow> 'w state_client \<Rightarrow> nat \<Rightarrow> ('w, unit option, state_client_error) io" where
  "put_grouped fuel sc block = put_if_higher fuel sc GROUPED_KEY block"

definition get_pruned :: "'w state_client \<Rightarrow> ('w, nat option, state_client_error) io" where
  "get_pruned sc = get_block_at sc PRUNED_KEY"

definition put_pruned :: "'w state_client \<Rightarrow> nat \<Rightarrow> ('w, unit, state_client_error) io" where
  "put_pruned sc block = put_block_at sc PRUNED_KEY block"

subsection \<open>Watching\<close>

fun update_is_pending :: "ingestion_state_update \<Rightarrow> bool" where
  "update_is_pending (Pending g) = True"
| "update_is_pending _ = False"

definition ends_with :: "string \<Rightarrow> string \<Rightarrow> bool" where
  "ends_with s suffix \<longleftrightarrow> length suffix \<le> length s \<and> drop (length s - length suffix) s = suffix"

definition from_kv ::
  "recent_segment_pointer serde \<Rightarrow> etcd_kv \<Rightarrow> (ingestion_state_update option, state_client_error) outcome" where
  "from_kv json kv = (case from_utf8 (kv_key kv) of
     None \<Rightarrow> Err IngestionStateClientError
   | Some key \<Rightarrow>
      if ends_with key RECENT_KEY then
        (case from_bytes json (kv_value kv) of
           None \<Rightarrow> Err IngestionStateClientError
         | Some p \<Rightarrow> Ok (Some (Recent p)))
      else (case from_utf8 (kv_value kv) of
        None \<Rightarrow> Err IngestionStateClientError
      | Some value \<Rightarrow>
          let block = (case parse_u64 value of
                None \<Rightarrow> Err IngestionStateClientError | Some n \<Rightarrow> Ok n) in
          if ends_with key STARTING_BLOCK_KEY then obind block (\<lambda>b. Ok (Some (StartingBlock b)))
          else if ends_with key FINALIZED_KEY then obind block (\<lambda>b. Ok (Some (Finalized b)))
          else if ends_with key PENDING_KEY then
            (if value = [] then Ok (Some (Pending None))
             else obind block (\<lambda>b. Ok (Some (Pending (Some b)))))
          else if ends_with key SEGMENTED_KEY then obind block (\<lambda>b. Ok (Some (Segmented b)))
          else if ends_with key GROUPED_KEY then obind block (\<lambda>b. Ok (Some (Grouped b)))
          else Ok None))"

text \<open>The events of one watch response, and the updates the stream yields for them.\<close>

fun watch_events ::
  "recent_segment_pointer serde \<Rightarrow> etcd_kv option list \<Rightarrow> (ingestion_state_update, state_client_error) outcome list" where
  "watch_events json [] = []"
| "watch_events json (None # events) = watch_events json events"
| "watch_events json (Some kv # events) =
     (case from_kv json kv of
        Ok (Some update) \<Rightarrow> Ok update # watch_events json events
      | Ok None \<Rightarrow> watch_events json events
      | Err e \<Rightarrow> Err e # watch_events json events
      | Panic \<Rightarrow> Panic # watch_events json events)"

section \<open>Options\<close>

datatype options_store_error = OptionsStoreError

definition CHAIN_SEGMENT_SIZE_KEY :: string where "CHAIN_SEGMENT_SIZE_KEY = ''options/chain_segment_size''"
definition SEGMENT_SIZE_KEY :: string where "SEGMENT_SIZE_KEY = ''options/segment_size''"
definition GROUP_SIZE_KEY :: string where "GROUP_SIZE_KEY = ''options/group_size''"

definition set_usize :: "'w kv_client \<Rightarrow> string \<Rightarrow> nat \<Rightarrow> ('w, unit, options_store_error) io" where
  "set_usize kv key sz = ichange (\<lambda>_. OptionsStoreError) (kv_put kv key (string_bytes (show_nat sz)))"

definition get_usize :: "'w kv_client \<Rightarrow> string \<Rightarrow> ('w, nat option, options_store_error) io" where
  "get_usize kv key =
     ibind (ichange (\<lambda>_. OptionsStoreError) (kv_get kv key)) (\<lambda>kvs.
     case kvs of
       [] \<Rightarrow> ireturn None
     | e # _ \<Rightarrow>
         ibind (ioption OptionsStoreError (from_utf8 (kv_value e))) (\<lambda>s.
         ibind (ioption OptionsStoreError (parse_u64 s)) (\<lambda>sz. ireturn (Some sz))))"

definition set_chain_segment_size :: "'w kv_client \<Rightarrow> nat \<Rightarrow> ('w, unit, options_store_error) io" where
  "set_chain_segment_size kv sz = set_usize kv CHAIN_SEGMENT_SIZE_KEY sz"

definition set_segment_size :: "'w kv_client \<Rightarrow> nat \<Rightarrow> ('w, unit, options_store_error) io" where
  "set_segment_size kv sz = set_usize kv SEGMENT_SIZE_KEY sz"

definition set_group_size :: "'w kv_client \<Rightarrow> nat \<Rightarrow> ('w, unit, options_store_error) io" where
  "set_group_size kv sz = set_usize kv GROUP_SIZE_KEY sz"

definition get_chain_segment_size :: "'w kv_client \<Rightarrow> ('w, nat option, options_store_error) io" where
  "get_chain_segment_size kv = get_usize kv CHAIN_SEGMENT_SIZE_KEY"

definition get_segment_size :: "'w kv_client \<Rightarrow> ('w, nat option, options_store_error) io" where
  "get_segment_size kv = get_usize kv SEGMENT_SIZE_KEY"

definition get_group_size :: "'w kv_client \<Rightarrow> ('w, nat option, options_store_error) io" where
  "get_group_size kv = get_usize kv GROUP_SIZE_KEY"

section \<open>Round trips of values\<close>

lemma show_nat_is_digit: "c \<in> set (show_nat n) \<Longrightarrow> is_digit c"
proof (induction n rule: show_nat.induct)
  case (1 n)
  have digit: "is_digit (char_of (48 + d))" if "d < 10" for d :: nat
    using of_char_digit [OF that] that by (simp add: is_digit_def)
  show ?case
  proof (cases "n < 10")
    case True
    then show ?thesis using "1.prems" digit [OF True] by (auto simp: show_nat_small)
  next
    case False
    then have "c \<in> set (show_nat (n div 10)) \<or> c = char_of (48 + n mod 10)"
      using "1.prems" by (auto simp: show_nat_large)
    then show ?thesis using 1 False digit [of "n mod 10"] by auto
  qed
qed

lemma show_nat_nonempty [simp]: "show_nat n \<noteq> []"
  by (cases "n < 10") (simp_all add: show_nat_small show_nat_large)

lemma unat_char_byte [simp]: "unat (word_of_nat (of_char c) :: u8) = of_char c"
  by (simp add: unat_of_nat take_bit_eq_mod)

lemma bytes_string_bytes [simp]: "bytes_string (string_bytes s) = s"
  by (simp add: bytes_string_def string_bytes_def o_def)

lemma utf8_valid_ascii: "\<forall>b \<in> set bs. b < 128 \<Longrightarrow> utf8_valid bs"
  by (induction bs) auto

definition is_ascii :: "string \<Rightarrow> bool" where
  "is_ascii s \<longleftrightarrow> list_all (\<lambda>c. of_char c < (128 :: nat)) s"

lemma from_utf8_ascii: "is_ascii s \<Longrightarrow> from_utf8 (string_bytes s) = Some s"
proof -
  assume "is_ascii s"
  then have "utf8_valid (map unat (string_bytes s))"
    by (intro utf8_valid_ascii) (auto simp: is_ascii_def list_all_iff string_bytes_def)
  then show ?thesis by (simp add: from_utf8_def)
qed

lemma is_ascii_show_nat [simp]: "is_ascii (show_nat n)"
  using show_nat_is_digit by (fastforce simp: is_ascii_def list_all_iff is_digit_def)

lemma parse_show_nat:
  assumes "n < u64_lim"
  shows "parse_u64 (show_nat n) = Some n"
proof -
  have "is_digit (hd (show_nat n))" using show_nat_is_digit [of "hd (show_nat n)" n] by simp
  then have "(case show_nat n of CHR ''+'' # r \<Rightarrow> r | _ \<Rightarrow> show_nat n) = show_nat n"
    by (cases "show_nat n") (auto simp: is_digit_def split: char.splits bool.splits)
  then show ?thesis
    using assms show_nat_is_digit [of _ n] by (auto simp: parse_u64_def list_all_iff digits_value_show_nat)
qed

lemma decode_block_show [simp]: "n < u64_lim \<Longrightarrow> decode_block (string_bytes (show_nat n)) = Ok n"
  by (simp add: decode_block_def from_utf8_ascii parse_show_nat)

lemma ends_with_rev: "ends_with s t \<longleftrightarrow> (\<exists>q. rev s = rev t @ q)"
proof
  assume "ends_with s t"
  then have "s = take (length s - length t) s @ t" by (metis append_take_drop_id ends_with_def)
  then show "\<exists>q. rev s = rev t @ q" by (metis rev_append)
next
  assume "\<exists>q. rev s = rev t @ q"
  then obtain q where "s = rev q @ t" by (metis rev_append rev_rev_ident)
  then show "ends_with s t" by (simp add: ends_with_def)
qed

lemmas state_keys = INGESTION_PREFIX_KEY_def RECENT_KEY_def LEGACY_INGESTED_KEY_def PENDING_KEY_def
  STARTING_BLOCK_KEY_def FINALIZED_KEY_def SEGMENTED_KEY_def GROUPED_KEY_def PRUNED_KEY_def

lemma state_key_suffix [simp]:
  "ends_with (prefix @ RECENT_KEY) RECENT_KEY"
  "\<not> ends_with (prefix @ STARTING_BLOCK_KEY) RECENT_KEY"
  "ends_with (prefix @ STARTING_BLOCK_KEY) STARTING_BLOCK_KEY"
  "\<not> ends_with (prefix @ FINALIZED_KEY) RECENT_KEY"
  "\<not> ends_with (prefix @ FINALIZED_KEY) STARTING_BLOCK_KEY"
  "ends_with (prefix @ FINALIZED_KEY) FINALIZED_KEY"
  "\<not> ends_with (prefix @ PENDING_KEY) RECENT_KEY"
  "\<not> ends_with (prefix @ PENDING_KEY) STARTING_BLOCK_KEY"
  "\<not> ends_with (prefix @ PENDING_KEY) FINALIZED_KEY"
  "ends_with (prefix @ PENDING_KEY) PENDING_KEY"
  "\<not> ends_with (prefix @ SEGMENTED_KEY) RECENT_KEY"
  "\<not> ends_with (prefix @ SEGMENTED_KEY) STARTING_BLOCK_KEY"
  "\<not> ends_with (prefix @ SEGMENTED_KEY) FINALIZED_KEY"
  "\<not> ends_with (prefix @ SEGMENTED_KEY) PENDING_KEY"
  "ends_with (prefix @ SEGMENTED_KEY) SEGMENTED_KEY"
  "\<not> ends_with (prefix @ GROUPED_KEY) RECENT_KEY"
  "\<not> ends_with (prefix @ GROUPED_KEY) STARTING_BLOCK_KEY"
  "\<not> ends_with (prefix @ GROUPED_KEY) FINALIZED_KEY"
  "\<not> ends_with (prefix @ GROUPED_KEY) PENDING_KEY"
  "\<not> ends_with (prefix @ GROUPED_KEY) SEGMENTED_KEY"
  "ends_with (prefix @ GROUPED_KEY) GROUPED_KEY"
  by (simp_all add: ends_with_rev state_keys)

section \<open>What etcd guarantees\<close>

text \<open>The answer to a read of a key, from the value and mod revision of every key.\<close>

definition etcd_entries :: "(string \<rightharpoonup> bytes \<times> nat) \<Rightarrow> string \<Rightarrow> etcd_kv list" where
  "etcd_entries values k = (case values k of None \<Rightarrow> []
     | Some (v, r) \<Rightarrow> [\<lparr>kv_key = string_bytes k, kv_value = v, kv_mod_revision = r\<rparr>])"

definition current_revision :: "(string \<rightharpoonup> bytes \<times> nat) \<Rightarrow> string \<Rightarrow> nat" where
  "current_revision values k = (case values k of None \<Rightarrow> 0 | Some (v, r) \<Rightarrow> r)"

text \<open>\<open>store w\<close> holds the current value and mod revision of every key, \<open>later w w'\<close> is any evolution of
  the cluster, and \<open>others w w'\<close> one by the writes of other clients only, which may come at any moment of a call.
  A revision identifies a value; a read sees the store at one moment; a write happens at one moment, a
  transaction only when the compared revision (0 for a missing key) is current then. The reply to a request can
  be lost: after an error the write has happened or not.\<close>

locale etcd_store =
  fixes kv :: "'w kv_client"
    and store :: "'w \<Rightarrow> string \<rightharpoonup> bytes \<times> nat"
    and later :: "'w \<Rightarrow> 'w \<Rightarrow> bool"
    and others :: "'w \<Rightarrow> 'w \<Rightarrow> bool"
  assumes later_trans: "later w w' \<Longrightarrow> later w' w'' \<Longrightarrow> later w w''"
    and others_refl: "others w w"
    and others_trans: "others w w' \<Longrightarrow> others w' w'' \<Longrightarrow> others w w''"
    and others_later: "others w w' \<Longrightarrow> later w w'"
    and revision_pos: "store w k = Some (v, r) \<Longrightarrow> 0 < r"
    and revision_value:
      "later w w' \<Longrightarrow> store w k = Some (v, r) \<Longrightarrow> store w' k = Some (v', r) \<Longrightarrow> v' = v"
    and get_law: "et_get (kvc_client kv) k False w = (got, w') \<Longrightarrow>
      \<exists>m. others w m \<and> others m w' \<and> (\<forall>kvs. got = Ok kvs \<longrightarrow> kvs = etcd_entries (store m) k)"
    and put_law: "et_put (kvc_client kv) k v w = (done_put, w') \<Longrightarrow>
      \<exists>m m'. others w m \<and> later m m' \<and> others m' w' \<and>
        ((\<exists>r. store m' = (store m)(k \<mapsto> (v, r))) \<or> m' = m \<and> done_put \<noteq> Ok ())"
    and delete_law: "et_delete (kvc_client kv) k w = (done_delete, w') \<Longrightarrow>
      \<exists>m m'. others w m \<and> later m m' \<and> others m' w' \<and>
        (store m' = (store m)(k := None) \<or> m' = m \<and> done_delete \<noteq> Ok ())"
    and txn_law: "et_txn (kvc_client kv) [(k, r)] [TxnPut k v] w = (reply, w') \<Longrightarrow>
      \<exists>m m'. others w m \<and> later m m' \<and> others m' w' \<and>
        (current_revision (store m) k = r \<and> (\<exists>r'. store m' = (store m)(k \<mapsto> (v, r'))) \<and> reply \<noteq> Ok False \<or>
         m' = m \<and> reply \<noteq> Ok True \<and> (reply = Ok False \<longrightarrow> current_revision (store m) k \<noteq> r))"
    and txn_pair_law: "et_txn (kvc_client kv) [] [TxnPut k v, TxnDelete k'] w = (reply, w') \<Longrightarrow>
      \<exists>m m'. others w m \<and> later m m' \<and> others m' w' \<and>
        ((\<exists>r. store m' = (store m)(k \<mapsto> (v, r), k' := None)) \<or> m' = m \<and> (\<forall>applied. reply \<noteq> Ok applied))"

text \<open>The block number under a key is at least, or below, a number. A missing key is below any.\<close>

definition block_at_least :: "(string \<rightharpoonup> bytes \<times> nat) \<Rightarrow> string \<Rightarrow> nat \<Rightarrow> bool" where
  "block_at_least values k n \<longleftrightarrow> (case values k of None \<Rightarrow> False
     | Some (v, r) \<Rightarrow> (case decode_block v of Ok x \<Rightarrow> n \<le> x | _ \<Rightarrow> False))"

definition block_below :: "(string \<rightharpoonup> bytes \<times> nat) \<Rightarrow> string \<Rightarrow> nat \<Rightarrow> bool" where
  "block_below values k n \<longleftrightarrow> (case values k of None \<Rightarrow> True
     | Some (v, r) \<Rightarrow> (case decode_block v of Ok x \<Rightarrow> x < n | _ \<Rightarrow> False))"

lemma block_at_leastE:
  assumes "block_at_least values k n"
  obtains v r x where "values k = Some (v, r)" "decode_block v = Ok x" "n \<le> x"
  using assms by (auto simp: block_at_least_def split: option.splits outcome.splits)

text \<open>One attempt of the loop.\<close>

definition put_attempt ::
  "nat \<Rightarrow> 'w state_client \<Rightarrow> string \<Rightarrow> nat \<Rightarrow> nat \<Rightarrow> 'w \<Rightarrow> (unit option, state_client_error) outcome \<times> 'w" where
  "put_attempt fuel sc key block revision w =
     (let k = kv_format_key (stc_kv sc) key in
      case et_txn (kvc_client (stc_kv sc)) [(k, revision)] [TxnPut k (string_bytes (show_nat block))] w of
        (Ok True, w') \<Rightarrow> (Ok (Some ()), w')
      | (Ok False, w') \<Rightarrow> put_if_higher fuel sc key block w'
      | (Err e, w') \<Rightarrow> (Err IngestionStateClientError, w')
      | (Panic, w') \<Rightarrow> (Panic, w'))"

lemma put_attempt_eq:
  "ibind (ichange (\<lambda>_. IngestionStateClientError)
      (kv_put_if_mod_revision (stc_kv sc) key (string_bytes (show_nat block)) revision)) (\<lambda>applied.
    if applied then ireturn (Some ()) else put_if_higher fuel sc key block) w = put_attempt fuel sc key block revision w"
  by (auto simp: put_attempt_def ibind_def ichange_def kv_put_if_mod_revision_def Let_def split: prod.splits outcome.splits bool.splits)

lemma put_if_higher_read:
  assumes "et_get (kvc_client (stc_kv sc)) (kv_format_key (stc_kv sc) key) False w =
    (Ok (etcd_entries values (kv_format_key (stc_kv sc) key)), w1)"
  shows "put_if_higher (Suc fuel) sc key block w =
    (case values (kv_format_key (stc_kv sc) key) of
       None \<Rightarrow> put_attempt fuel sc key block 0 w1
     | Some (v, r) \<Rightarrow> (case decode_block v of
         Ok x \<Rightarrow> if block \<le> x then (Ok (Some ()), w1) else put_attempt fuel sc key block r w1
       | Err e \<Rightarrow> (Err e, w1)
       | Panic \<Rightarrow> (Panic, w1)))"
proof -
  have read: "ichange (\<lambda>_. IngestionStateClientError) (kv_get (stc_kv sc) key) w =
      (Ok (etcd_entries values (kv_format_key (stc_kv sc) key)), w1)"
    using assms by (simp add: ichange_def kv_get_def)
  show ?thesis
    unfolding put_if_higher.simps ibind_step [where p = "ichange (\<lambda>_. IngestionStateClientError) (kv_get (stc_kv sc) key)", OF read]
    by (auto simp: etcd_entries_def put_attempt_eq ibind_def [of "ilift _"] ibind_def [of "Pair _"] split: option.splits outcome.splits)
qed

lemma put_if_higher_unread:
  assumes "et_get (kvc_client (stc_kv sc)) (kv_format_key (stc_kv sc) key) False w = (got, w1)" and "\<And>kvs. got \<noteq> Ok kvs"
  shows "\<exists>result. put_if_higher (Suc fuel) sc key block w = (result, w1) \<and> (\<forall>x. result \<noteq> Ok x)"
proof (cases got)
  case (Err e)
  then show ?thesis using assms(1) by (simp add: ibind_def ichange_def kv_get_def)
next
  case Panic
  then show ?thesis using assms(1) by (simp add: ibind_def ichange_def kv_get_def)
qed (use assms(2) in blast)

context etcd_store
begin

text \<open>What was read under a revision is still there when the revision still is.\<close>

lemma revision_unchanged:
  assumes "later m c" and "block_below (store m) k block" and "current_revision (store c) k = current_revision (store m) k"
  shows "block_below (store c) k block"
proof (cases "store c k")
  case (Some e)
  then obtain v' r where v': "store c k = Some (v', r)" by (cases e) auto
  then have "0 < r" "current_revision (store m) k = r"
    using revision_pos assms(3) by (blast, simp add: current_revision_def)
  then obtain v where "store m k = Some (v, r)" by (auto simp: current_revision_def split: option.splits)
  then show ?thesis using v' revision_value [OF assms(1)] assms(2) by (auto simp: block_below_def)
qed (simp add: block_below_def)

text \<open>The loop ends without a write, or with one over a lower number.\<close>

lemma put_if_higher_run:
  assumes kv: "stc_kv sc = kv" and "put_if_higher fuel sc key block w = (result, w')"
  shows "(\<exists>m. others w m \<and> others m w' \<and> (result = Ok (Some ()) \<longrightarrow> block_at_least (store m) (kv_format_key kv key) block)) \<or>
    (\<exists>m m' r. others w m \<and> later m m' \<and> others m' w' \<and> block_below (store m) (kv_format_key kv key) block \<and>
      store m' = (store m)(kv_format_key kv key \<mapsto> (string_bytes (show_nat block), r)))"
  using assms(2)
proof (induction fuel arbitrary: w)
  case 0
  then show ?case using others_refl by auto
next
  case (Suc fuel)
  let ?k = "kv_format_key kv key" and ?v = "string_bytes (show_nat block)"
  obtain got w1 where get: "et_get (kvc_client kv) ?k False w = (got, w1)" by (meson surj_pair)
  obtain m where m: "others w m" "others m w1" "\<forall>kvs. got = Ok kvs \<longrightarrow> kvs = etcd_entries (store m) ?k"
    using get_law [OF get] by blast
  consider (failed) "w' = w1" "result \<noteq> Ok (Some ())"
    | (high) "w' = w1" "block_at_least (store m) ?k block"
    | (low) "block_below (store m) ?k block" "put_attempt fuel sc key block (current_revision (store m) ?k) w1 = (result, w')"
  proof (cases "\<exists>kvs. got = Ok kvs")
    case True
    then have "et_get (kvc_client (stc_kv sc)) (kv_format_key (stc_kv sc) key) False w =
        (Ok (etcd_entries (store m) (kv_format_key (stc_kv sc) key)), w1)" using get m(3) kv by auto
    from put_if_higher_read [OF this, of fuel block] Suc.prems that show ?thesis
      by (auto simp: kv block_below_def block_at_least_def current_revision_def not_le split: option.splits outcome.splits if_splits)
  next
    case False
    then show ?thesis using put_if_higher_unread [of sc key w got w1 fuel block] get Suc.prems that(1) kv by fastforce
  qed
  then show ?case
  proof cases
    case low
    obtain put w2 where txn: "et_txn (kvc_client kv) [(?k, current_revision (store m) ?k)] [TxnPut ?k ?v] w1 = (put, w2)"
      by (meson surj_pair)
    obtain c c' where c: "others w1 c" "later c c'" "others c' w2"
      "current_revision (store c) ?k = current_revision (store m) ?k \<and> (\<exists>r'. store c' = (store c)(?k \<mapsto> (?v, r'))) \<and> put \<noteq> Ok False \<or>
       c' = c \<and> put \<noteq> Ok True"
      using txn_law [OF txn] by blast
    have rest: "if put = Ok False then put_if_higher fuel sc key block w2 = (result, w')
      else w' = w2 \<and> (result = Ok (Some ()) \<longrightarrow> put = Ok True)"
      using low(2) txn kv by (cases put) (auto simp: put_attempt_def Let_def split: bool.splits)
    have mc: "others m c" using others_trans [OF m(2) c(1)] .
    have wc: "others w c" using others_trans [OF m(1) mc] .
    show ?thesis
      using c(4)
    proof
      assume written: "current_revision (store c) ?k = current_revision (store m) ?k \<and>
        (\<exists>r'. store c' = (store c)(?k \<mapsto> (?v, r'))) \<and> put \<noteq> Ok False"
      then have "block_below (store c) ?k block" using revision_unchanged [OF others_later [OF mc] low(1)] by blast
      moreover have "w' = w2" using rest written by simp
      ultimately show ?thesis using wc c(2,3) written by blast
    next
      assume same: "c' = c \<and> put \<noteq> Ok True"
      then have w2: "others w w2" using wc c(3) others_trans by blast
      show ?thesis
      proof (cases "put = Ok False")
        case True
        then have "put_if_higher fuel sc key block w2 = (result, w')" using rest by simp
        from Suc.IH [OF this] show ?thesis using others_trans [OF w2] by blast
      next
        case False
        then show ?thesis using rest same w2 others_refl by auto
      qed
    qed
  qed (use m(1,2) in blast)+
qed

text \<open>Without other writes of the key the first attempt succeeds.\<close>

lemma put_if_higher_first:
  assumes kv: "stc_kv sc = kv" and "put_if_higher (Suc fuel) sc key block w = (result, w')"
    and quiet: "\<And>m m'. others m m' \<Longrightarrow> store m' (kv_format_key kv key) = store m (kv_format_key kv key)"
  shows "result \<noteq> Ok None"
proof
  assume none: "result = Ok None"
  let ?k = "kv_format_key kv key" and ?v = "string_bytes (show_nat block)"
  obtain got w1 where get: "et_get (kvc_client kv) ?k False w = (got, w1)" by (meson surj_pair)
  obtain m where m: "others m w1" "\<forall>kvs. got = Ok kvs \<longrightarrow> kvs = etcd_entries (store m) ?k" using get_law [OF get] by blast
  have "\<exists>kvs. got = Ok kvs" using put_if_higher_unread [of sc key w got w1 fuel block] get assms(2) kv none by fastforce
  then have "et_get (kvc_client (stc_kv sc)) (kv_format_key (stc_kv sc) key) False w =
      (Ok (etcd_entries (store m) (kv_format_key (stc_kv sc) key)), w1)" using get m(2) kv by auto
  from put_if_higher_read [OF this, of fuel block] have attempt: "put_attempt fuel sc key block (current_revision (store m) ?k) w1 = (Ok None, w')"
    using assms(2) none by (auto simp: kv current_revision_def split: option.splits outcome.splits if_splits)
  obtain put w2 where txn: "et_txn (kvc_client kv) [(?k, current_revision (store m) ?k)] [TxnPut ?k ?v] w1 = (put, w2)" by (meson surj_pair)
  have "put = Ok False" using attempt txn kv by (cases put) (auto simp: put_attempt_def Let_def split: bool.splits)
  then obtain c where "others w1 c" "current_revision (store c) ?k \<noteq> current_revision (store m) ?k" using txn_law [OF txn] by blast
  then show False using quiet [OF others_trans [OF m(1)]] by (simp add: current_revision_def)
qed

text \<open>A key that other clients leave alone is read as it was written.\<close>

lemma put_block_at_stores:
  assumes "stc_kv sc = kv" and "put_block_at sc key n w = (Ok (), w')"
    and quiet: "\<And>m m' k. others m m' \<Longrightarrow> store m' k = store m k"
  shows "\<exists>r. store w' (kv_format_key kv key) = Some (string_bytes (show_nat n), r)"
proof -
  have "et_put (kvc_client kv) (kv_format_key kv key) (string_bytes (show_nat n)) w = (Ok (), w')"
    using assms(1,2) by (auto simp: put_block_at_def kv_put_def outcome_simps)
  from put_law [OF this] show ?thesis using quiet by fastforce
qed

lemma read_entry:
  assumes "et_get (kvc_client kv) k False w = (Ok kvs, w')" and quiet: "\<And>m m' k. others m m' \<Longrightarrow> store m' k = store m k"
  shows "kvs = etcd_entries (store w) k"
  using get_law [OF assms(1)] quiet by (auto simp: etcd_entries_def)

end

section \<open>The reference environment\<close>

definition mem_kv :: "mem_world \<Rightarrow> string \<rightharpoonup> bytes \<times> nat" where
  "mem_kv w k = (case mw_kv w k of
     Some (v, r) \<Rightarrow> if 0 < r \<and> r \<le> mw_rev w then Some (v, r) else None
   | None \<Rightarrow> None)"

fun mem_apply :: "nat \<Rightarrow> txn_op list \<Rightarrow> (string \<rightharpoonup> bytes \<times> nat) \<Rightarrow> (string \<rightharpoonup> bytes \<times> nat)" where
  "mem_apply r [] m = m"
| "mem_apply r (TxnPut k v # ops) m = mem_apply r ops (m(k \<mapsto> (v, r)))"
| "mem_apply r (TxnDelete k # ops) m = mem_apply r ops (m(k := None))"

definition mem_commit :: "txn_op list \<Rightarrow> mem_world \<Rightarrow> mem_world" where
  "mem_commit ops w = w\<lparr>mw_rev := Suc (mw_rev w), mw_kv := mem_apply (Suc (mw_rev w)) ops (mem_kv w)\<rparr>"

definition mem_revision :: "mem_world \<Rightarrow> string \<Rightarrow> nat" where
  "mem_revision w k = (case mem_kv w k of None \<Rightarrow> 0 | Some (_, r) \<Rightarrow> r)"

definition mem_etcd :: "mem_world etcd" where
  "mem_etcd = \<lparr>
     et_get = (\<lambda>k pref w. (Ok (case mem_kv w k of None \<Rightarrow> []
        | Some (v, r) \<Rightarrow> [\<lparr>kv_key = string_bytes k, kv_value = v, kv_mod_revision = r\<rparr>]), w)),
     et_put = (\<lambda>k v w. (Ok (), mem_commit [TxnPut k v] w)),
     et_delete = (\<lambda>k w. (Ok (), mem_commit [TxnDelete k] w)),
     et_txn = (\<lambda>cmp ops w. if list_all (\<lambda>(k, r). mem_revision w k = r) cmp
                            then (Ok True, mem_commit ops w) else (Ok False, w))\<rparr>"

definition mem_kv_client :: "mem_world kv_client" where
  "mem_kv_client = \<lparr>kvc_client = mem_etcd, kvc_prefix = ''dna/''\<rparr>"

definition mem_later :: "mem_world \<Rightarrow> mem_world \<Rightarrow> bool" where
  "mem_later w w' \<longleftrightarrow> mw_rev w \<le> mw_rev w' \<and>
     (\<forall>k e. mem_kv w' k = Some e \<longrightarrow> mem_kv w k = Some e \<or> mw_rev w < snd e)"

lemma mem_kv_revision: "mem_kv w k = Some (v, r) \<Longrightarrow> 0 < r \<and> r \<le> mw_rev w"
  by (auto simp: mem_kv_def split: option.splits if_splits)

lemma mem_later_refl: "mem_later w w"
  by (simp add: mem_later_def)

lemma mem_later_trans: "mem_later w w' \<Longrightarrow> mem_later w' w'' \<Longrightarrow> mem_later w w''"
  unfolding mem_later_def by (meson le_less_trans order_trans)

lemma mem_apply_range:
  assumes "mem_apply r ops m k = Some e"
  shows "m k = Some e \<or> snd e = r"
  using assms by (induction r ops m rule: mem_apply.induct) (auto split: if_splits)

lemma mem_kv_commit: "mem_kv (mem_commit ops w) = mem_apply (Suc (mw_rev w)) ops (mem_kv w)"
proof
  fix k
  show "mem_kv (mem_commit ops w) k = mem_apply (Suc (mw_rev w)) ops (mem_kv w) k"
  proof (cases "mem_apply (Suc (mw_rev w)) ops (mem_kv w) k")
    case (Some e)
    have "0 < snd e \<and> snd e \<le> Suc (mw_rev w)"
      using mem_apply_range [OF Some] mem_kv_revision [of w k "fst e" "snd e"] by auto
    then show ?thesis using Some by (cases e) (simp add: mem_kv_def mem_commit_def)
  qed (simp add: mem_kv_def mem_commit_def)
qed

lemma mem_kv_put: "mem_kv (mem_commit [TxnPut k v] w) = (mem_kv w)(k \<mapsto> (v, Suc (mw_rev w)))"
  by (simp add: mem_kv_commit)

lemma mem_later_commit: "mem_later w (mem_commit ops w)"
proof -
  have "mem_kv w k = Some e \<or> mw_rev w < snd e" if "mem_kv (mem_commit ops w) k = Some e" for k e
    using mem_apply_range [of "Suc (mw_rev w)" ops "mem_kv w" k e] that by (auto simp: mem_kv_commit)
  then show ?thesis by (simp add: mem_later_def) (simp add: mem_commit_def)
qed

lemma mem_revision_value:
  assumes "mem_later w w'" and "mem_kv w k = Some (v, r)" and "mem_kv w' k = Some (v', r)"
  shows "v' = v"
proof -
  have "mem_kv w k = Some (v', r) \<or> mw_rev w < r" using assms(1,3) by (auto simp: mem_later_def)
  then show ?thesis using assms(2) mem_kv_revision [OF assms(2)] by auto
qed

text \<open>Alone on the store.\<close>

interpretation mem_etcd: etcd_store mem_kv_client mem_kv mem_later "(=)"
proof unfold_locales
  show "\<exists>m m'. w = m \<and> mem_later m m' \<and> m' = w' \<and>
      (current_revision (mem_kv m) k = r \<and> (\<exists>r'. mem_kv m' = (mem_kv m)(k \<mapsto> (v, r'))) \<and> reply \<noteq> Ok False \<or>
       m' = m \<and> reply \<noteq> Ok True \<and> (reply = Ok False \<longrightarrow> current_revision (mem_kv m) k \<noteq> r))"
    if "et_txn (kvc_client mem_kv_client) [(k, r)] [TxnPut k v] w = (reply, w')" for k r v w reply w'
    using that mem_later_commit [of w "[TxnPut k v]"] mem_later_refl [of w]
    by (auto simp: mem_kv_client_def mem_etcd_def mem_revision_def current_revision_def mem_kv_put split: if_splits)
  show "\<exists>m m'. w = m \<and> mem_later m m' \<and> m' = w' \<and>
      ((\<exists>r. mem_kv m' = (mem_kv m)(k \<mapsto> (v, r), k' := None)) \<or> m' = m \<and> (\<forall>applied. reply \<noteq> Ok applied))"
    if "et_txn (kvc_client mem_kv_client) [] [TxnPut k v, TxnDelete k'] w = (reply, w')" for k v k' w reply w'
    using that mem_later_commit by (auto simp: mem_kv_client_def mem_etcd_def mem_kv_commit)
qed (auto simp: mem_kv_client_def mem_etcd_def etcd_entries_def mem_kv_commit mem_later_refl mem_later_commit
    dest: mem_later_trans mem_kv_revision mem_revision_value)

definition mem_state_client :: "mem_world state_client" where
  "mem_state_client = \<lparr>stc_kv = mem_kv_client, stc_json = table_serde []\<rparr>"

text \<open>Next to a rival that raises the segmented block: before each call it takes the next number of a schedule.\<close>

type_synonym rival_world = "mem_world \<times> nat list"

definition rival_raise :: "nat \<Rightarrow> mem_world \<Rightarrow> mem_world" where
  "rival_raise n w =
     (if n < u64_lim \<and> block_below (mem_kv w) (kv_format_key mem_kv_client SEGMENTED_KEY) n
      then mem_commit [TxnPut (kv_format_key mem_kv_client SEGMENTED_KEY) (string_bytes (show_nat n))] w else w)"

definition with_rival :: "(mem_world, 'a, 'e) io \<Rightarrow> (rival_world, 'a, 'e) io" where
  "with_rival p = (\<lambda>(w, schedule).
     case p (fold rival_raise (take 1 schedule) w) of (r, w') \<Rightarrow> (r, (w', drop 1 schedule)))"

definition rival_etcd :: "rival_world etcd" where
  "rival_etcd = \<lparr>et_get = (\<lambda>k pref. with_rival (et_get mem_etcd k pref)), et_put = (\<lambda>k v. with_rival (et_put mem_etcd k v)),
     et_delete = (\<lambda>k. with_rival (et_delete mem_etcd k)), et_txn = (\<lambda>cmp ops. with_rival (et_txn mem_etcd cmp ops))\<rparr>"

definition rival_kv_client :: "rival_world kv_client" where
  "rival_kv_client = \<lparr>kvc_client = rival_etcd, kvc_prefix = ''dna/''\<rparr>"

definition rival_others :: "rival_world \<Rightarrow> rival_world \<Rightarrow> bool" where
  "rival_others s s' \<longleftrightarrow> (\<exists>ns. snd s = ns @ snd s' \<and> fst s' = fold rival_raise ns (fst s))"

lemma with_rival_step:
  assumes "with_rival p s = (reply, s')"
  shows "\<exists>m. rival_others s m \<and> p (fst m) = (reply, fst s') \<and> snd m = snd s'"
  using assms by (cases s) (auto simp: with_rival_def rival_others_def split: prod.splits
      intro!: exI [of _ "fold rival_raise (take 1 (snd s)) (fst s)"] exI [of _ "take 1 (snd s)"])

lemma with_rival_write:
  assumes "with_rival p s = (reply, s')"
    and "\<And>w w'. p w = (reply, w') \<Longrightarrow> \<exists>m m'. w = m \<and> mem_later m m' \<and> m' = w' \<and> (P m m' \<or> m' = m \<and> Q m)"
  shows "\<exists>m m'. rival_others s m \<and> mem_later (fst m) (fst m') \<and> rival_others m' s' \<and> (P (fst m) (fst m') \<or> m' = m \<and> Q (fst m))"
proof -
  obtain m where m: "rival_others s m" "p (fst m) = (reply, fst s')" "snd m = snd s'" using with_rival_step [OF assms(1)] by blast
  have "mem_later (fst m) (fst s') \<and> (P (fst m) (fst s') \<or> fst s' = fst m \<and> Q (fst m))" using assms(2) [OF m(2)] by blast
  moreover have "rival_others s' s'" by (simp add: rival_others_def)
  ultimately show ?thesis using m(1,3) by (metis prod.expand)
qed

lemma rival_later: "mem_later w (fold rival_raise ns w)"
proof (induction ns arbitrary: w)
  case (Cons n ns)
  have "mem_later w (rival_raise n w)" by (simp add: rival_raise_def mem_later_refl mem_later_commit)
  then show ?case using Cons mem_later_trans by auto
qed (simp add: mem_later_refl)

lemma rival_others_trans: "rival_others s m \<Longrightarrow> rival_others m s' \<Longrightarrow> rival_others s s'"
  unfolding rival_others_def by (metis append.assoc fold_append o_apply)

lemma rival_client: "et_get (kvc_client rival_kv_client) k pref = with_rival (et_get (kvc_client mem_kv_client) k pref)"
  "et_put (kvc_client rival_kv_client) k v = with_rival (et_put (kvc_client mem_kv_client) k v)"
  "et_delete (kvc_client rival_kv_client) k = with_rival (et_delete (kvc_client mem_kv_client) k)"
  "et_txn (kvc_client rival_kv_client) cmp ops = with_rival (et_txn (kvc_client mem_kv_client) cmp ops)"
  by (simp_all add: rival_kv_client_def rival_etcd_def mem_kv_client_def)

interpretation rival_etcd: etcd_store rival_kv_client "\<lambda>s. mem_kv (fst s)" "\<lambda>s s'. mem_later (fst s) (fst s')" rival_others
proof unfold_locales
  show "rival_others s s" for s by (simp add: rival_others_def)
  then have same: "rival_others m s'" if "fst m = fst s'" "snd m = snd s'" for m s' using that by (metis prod.expand)
  show "mem_later (fst s) (fst s')" if "rival_others s s'" for s s'
    using that rival_later by (auto simp: rival_others_def)
  show "\<exists>m. rival_others s m \<and> rival_others m s' \<and> (\<forall>kvs. reply = Ok kvs \<longrightarrow> kvs = etcd_entries (mem_kv (fst m)) k)"
    if get: "et_get (kvc_client rival_kv_client) k False s = (reply, s')" for k s reply s'
  proof -
    obtain m where m: "rival_others s m" "et_get (kvc_client mem_kv_client) k False (fst m) = (reply, fst s')" "snd m = snd s'"
      using with_rival_step [OF get [unfolded rival_client]] by blast
    have "fst m = fst s' \<and> (\<forall>kvs. reply = Ok kvs \<longrightarrow> kvs = etcd_entries (mem_kv (fst m)) k)"
      using mem_etcd.get_law [OF m(2)] by blast
    then show ?thesis using m(1,3) same by blast
  qed
  show "\<exists>m m'. rival_others s m \<and> mem_later (fst m) (fst m') \<and> rival_others m' s' \<and>
      ((\<exists>r. mem_kv (fst m') = (mem_kv (fst m))(k \<mapsto> (v, r))) \<or> m' = m \<and> reply \<noteq> Ok ())"
    if "et_put (kvc_client rival_kv_client) k v s = (reply, s')" for k v s reply s'
    using that mem_etcd.put_law unfolding rival_client by (rule with_rival_write)
  show "\<exists>m m'. rival_others s m \<and> mem_later (fst m) (fst m') \<and> rival_others m' s' \<and>
      (mem_kv (fst m') = (mem_kv (fst m))(k := None) \<or> m' = m \<and> reply \<noteq> Ok ())"
    if "et_delete (kvc_client rival_kv_client) k s = (reply, s')" for k s reply s'
    using that mem_etcd.delete_law unfolding rival_client by (rule with_rival_write)
  show "\<exists>m m'. rival_others s m \<and> mem_later (fst m) (fst m') \<and> rival_others m' s' \<and>
      (current_revision (mem_kv (fst m)) k = r \<and> (\<exists>r'. mem_kv (fst m') = (mem_kv (fst m))(k \<mapsto> (v, r'))) \<and> reply \<noteq> Ok False \<or>
       m' = m \<and> reply \<noteq> Ok True \<and> (reply = Ok False \<longrightarrow> current_revision (mem_kv (fst m)) k \<noteq> r))"
    if "et_txn (kvc_client rival_kv_client) [(k, r)] [TxnPut k v] s = (reply, s')" for k r v s reply s'
    using that mem_etcd.txn_law unfolding rival_client by (rule with_rival_write)
  show "\<exists>m m'. rival_others s m \<and> mem_later (fst m) (fst m') \<and> rival_others m' s' \<and>
      ((\<exists>r. mem_kv (fst m') = (mem_kv (fst m))(k \<mapsto> (v, r), k' := None)) \<or> m' = m \<and> (\<forall>applied. reply \<noteq> Ok applied))"
    if "et_txn (kvc_client rival_kv_client) [] [TxnPut k v, TxnDelete k'] s = (reply, s')" for k v k' s reply s'
    using that mem_etcd.txn_pair_law unfolding rival_client by (rule with_rival_write)
qed (auto dest: mem_later_trans rival_others_trans mem_kv_revision mem_revision_value)

definition rival_state_client :: "rival_world state_client" where
  "rival_state_client = \<lparr>stc_kv = rival_kv_client, stc_json = table_serde []\<rparr>"

section \<open>Properties\<close>

text \<open>C18: \<open>put_if_higher\<close> never moves a block backwards, with other clients writing at any moment and whatever
  the requests answer. A call writes nothing at all, and then it returns normally only if the
  key held a number at or above the given one at some moment of the call; or it makes exactly one write, of the given
  number, at a moment when the key held none or a strictly lower one. So when the other clients do not lower the key either,
  it holds after the call at least what it held before, and at least the given number if the call returned normally. When
  they leave the key alone, the first attempt settles it.\<close>

theorem put_if_higher_never_lowers:
  assumes "etcd_store kv store later others" and "stc_kv sc = kv" and "block < u64_lim"
    and "put_if_higher fuel sc key block w = (result, w')" and "k = kv_format_key kv key"
  shows "((\<exists>m. others w m \<and> others m w' \<and> (result = Ok (Some ()) \<longrightarrow> block_at_least (store m) k block)) \<or>
      (\<exists>m m' r. others w m \<and> later m m' \<and> others m' w' \<and> block_below (store m) k block \<and>
        store m' = (store m)(k \<mapsto> (string_bytes (show_nat block), r)))) \<and>
    ((\<forall>m m' n. others m m' \<longrightarrow> block_at_least (store m) k n \<longrightarrow> block_at_least (store m') k n) \<longrightarrow>
      (\<forall>n. block_at_least (store w) k n \<longrightarrow> block_at_least (store w') k n) \<and>
      (result = Ok (Some ()) \<longrightarrow> block_at_least (store w') k block)) \<and>
    ((\<forall>m m'. others m m' \<longrightarrow> store m' k = store m k) \<longrightarrow> 0 < fuel \<longrightarrow> result \<noteq> Ok None)"
proof -
  have run: "(\<exists>m. others w m \<and> others m w' \<and> (result = Ok (Some ()) \<longrightarrow> block_at_least (store m) k block)) \<or>
      (\<exists>m m' r. others w m \<and> later m m' \<and> others m' w' \<and> block_below (store m) k block \<and>
        store m' = (store m)(k \<mapsto> (string_bytes (show_nat block), r)))"
    using etcd_store.put_if_higher_run [OF assms(1,2,4)] assms(5) by simp
  have written: "block_at_least new k block" "\<And>n. block_at_least old k n \<Longrightarrow> block_at_least new k n"
    if "new = old(k \<mapsto> (string_bytes (show_nat block), r))" "block_below old k block" for new old r
    using that assms(3) by (auto simp: block_at_least_def block_below_def split: option.splits outcome.splits)
  have "(\<forall>n. block_at_least (store w) k n \<longrightarrow> block_at_least (store w') k n) \<and>
      (result = Ok (Some ()) \<longrightarrow> block_at_least (store w') k block)"
    if up: "\<forall>m m' n. others m m' \<longrightarrow> block_at_least (store m) k n \<longrightarrow> block_at_least (store m') k n"
    using run
  proof (elim disjE exE conjE)
    fix m m' r
    assume m: "others w m" "others m' w'" "block_below (store m) k block"
      "store m' = (store m)(k \<mapsto> (string_bytes (show_nat block), r))"
    show ?thesis using up m(1,2) written [OF m(4,3)] by blast
  qed (use up in blast)
  moreover have "result \<noteq> Ok None" if "\<forall>m m'. others m m' \<longrightarrow> store m' k = store m k" "0 < fuel"
    using etcd_store.put_if_higher_first [OF assms(1,2), of "fuel - 1" key block w result w'] that assms(4,5) by simp
  ultimately show ?thesis using run by blast
qed

text \<open>The key is at 5; the rival raises it to 9 between the read and the write of a client that puts 7.\<close>

theorem put_if_higher_never_lowers_witness:
  "\<exists>w'. put_if_higher 2 rival_state_client SEGMENTED_KEY 7 (rival_raise 5 empty_world, [0, 9, 0]) = (Ok (Some ()), w') \<and>
     block_at_least (mem_kv (fst w')) (kv_format_key rival_kv_client SEGMENTED_KEY) 5 \<and>
     block_at_least (mem_kv (fst w')) (kv_format_key rival_kv_client SEGMENTED_KEY) 7"
proof -
  let ?k = "kv_format_key rival_kv_client SEGMENTED_KEY"
  let ?w = "(rival_raise 5 empty_world, [0, 9, 0])"
  have key: "kv_format_key mem_kv_client SEGMENTED_KEY = ?k" by (simp add: kv_format_key_def mem_kv_client_def rival_kv_client_def)
  have empty: "mem_kv empty_world = Map.empty" by (simp add: fun_eq_iff mem_kv_def empty_world_def)
  have w5: "mem_kv (rival_raise 5 empty_world) = [?k \<mapsto> (string_bytes (show_nat 5), 1)]"
    by (simp add: rival_raise_def key block_below_def empty mem_kv_put u64_lim_def) (simp add: empty_world_def)
  have five: "rival_raise 0 (rival_raise 5 empty_world) = rival_raise 5 empty_world"
    by (simp add: rival_raise_def [of 0] key block_below_def w5 u64_lim_def)
  have "mw_rev (rival_raise 5 empty_world) = 1"
    by (simp add: rival_raise_def key block_below_def empty u64_lim_def mem_commit_def) (simp add: empty_world_def)
  then have nine: "\<exists>r. r \<noteq> 1 \<and> mem_kv (rival_raise 9 (rival_raise 5 empty_world)) = [?k \<mapsto> (string_bytes (show_nat 9), r)]"
    by (intro exI [of _ "Suc (Suc 0)"]) (simp add: rival_raise_def [of 9] key block_below_def w5 u64_lim_def mem_kv_put)
  let ?u = "rival_raise 9 (rival_raise 5 empty_world)"
  have zero: "rival_raise 0 ?u = ?u"
    using nine by (auto simp: rival_raise_def [of 0] key block_below_def u64_lim_def)
  have sc: "stc_kv rival_state_client = rival_kv_client" by (simp add: rival_state_client_def)
  have get5: "et_get (kvc_client rival_kv_client) ?k False ?w = (Ok (etcd_entries (mem_kv (rival_raise 5 empty_world)) ?k), (rival_raise 5 empty_world, [9, 0]))"
    by (simp add: rival_client with_rival_def five mem_kv_client_def mem_etcd_def etcd_entries_def)
  have txn: "et_txn (kvc_client rival_kv_client) [(?k, 1)] [TxnPut ?k v] (rival_raise 5 empty_world, [9, 0]) = (Ok False, (?u, [0]))" for v
    using nine by (auto simp: rival_client with_rival_def mem_kv_client_def mem_etcd_def mem_revision_def)
  have get9: "et_get (kvc_client rival_kv_client) ?k False (?u, [0]) = (Ok (etcd_entries (mem_kv ?u) ?k), (?u, []))"
    by (simp add: rival_client with_rival_def zero mem_kv_client_def mem_etcd_def etcd_entries_def)
  have "put_if_higher (Suc 0) rival_state_client SEGMENTED_KEY 7 (?u, [0]) = (Ok (Some ()), (?u, []))"
    using put_if_higher_read [of rival_state_client SEGMENTED_KEY "(?u, [0])" "mem_kv ?u" "(?u, [])" 0 7] get9 nine
    by (auto simp: sc u64_lim_def)
  then have "put_if_higher (Suc (Suc 0)) rival_state_client SEGMENTED_KEY 7 ?w = (Ok (Some ()), (?u, []))"
    using put_if_higher_read [of rival_state_client SEGMENTED_KEY ?w "mem_kv (rival_raise 5 empty_world)" "(rival_raise 5 empty_world, [9, 0])" "Suc 0" 7] get5 w5 txn
    by (simp add: sc u64_lim_def put_attempt_def)
  then have run: "put_if_higher 2 rival_state_client SEGMENTED_KEY 7 ?w = (Ok (Some ()), (?u, []))" by (simp only: numeral_2_eq_2)
  have raise: "block_at_least (mem_kv (fold rival_raise ns w)) ?k n" if "block_at_least (mem_kv w) ?k n" for ns w n
    using that
  proof (induction ns arbitrary: w)
    case (Cons x ns)
    have "block_at_least (mem_kv (rival_raise x w)) ?k n"
      using Cons.prems by (auto simp: rival_raise_def key block_below_def block_at_least_def mem_kv_put split: option.splits outcome.splits)
    then show ?case using Cons.IH by simp
  qed simp
  then have up: "\<forall>m m' n. rival_others m m' \<longrightarrow> block_at_least (mem_kv (fst m)) ?k n \<longrightarrow> block_at_least (mem_kv (fst m')) ?k n"
    by (auto simp: rival_others_def)
  have "block_at_least (mem_kv (fst ?w)) ?k 5" by (simp add: w5 block_at_least_def u64_lim_def)
  then show ?thesis
    using put_if_higher_never_lowers [OF rival_etcd.etcd_store_axioms sc _ run refl] up run by (auto simp: u64_lim_def)
qed

text \<open>What a getter and the watch make of the entry of a key. \<open>reads_as\<close>: when the store answers, the getter returns
  the value. \<open>reported_as\<close>: a watch event with the current entry yields these updates.\<close>

definition reads_as :: "'w kv_client \<Rightarrow> string \<Rightarrow> ('w, 'a option, state_client_error) io \<Rightarrow> 'a \<Rightarrow> 'w \<Rightarrow> bool" where
  "reads_as kv key getter x w \<longleftrightarrow>
     (\<forall>kvs w'. et_get (kvc_client kv) (kv_format_key kv key) False w = (Ok kvs, w') \<longrightarrow> getter w = (Ok (Some x), w'))"

definition reported_as :: "'w state_client \<Rightarrow> string \<Rightarrow> (string \<rightharpoonup> bytes \<times> nat) \<Rightarrow> ingestion_state_update list \<Rightarrow> bool" where
  "reported_as sc key values updates \<longleftrightarrow>
     watch_events (stc_json sc) (map Some (etcd_entries values (kv_format_key (stc_kv sc) key))) = map Ok updates"

text \<open>The update of a block number under a key.\<close>

definition block_update :: "string \<Rightarrow> nat \<Rightarrow> ingestion_state_update list" where
  "block_update key n = (if key = STARTING_BLOCK_KEY then [StartingBlock n] else if key = FINALIZED_KEY then [Finalized n]
     else if key = PENDING_KEY then [Pending (Some n)] else if key = SEGMENTED_KEY then [Segmented n]
     else if key = GROUPED_KEY then [Grouped n] else [])"

definition block_keys :: "string list" where
  "block_keys = [STARTING_BLOCK_KEY, FINALIZED_KEY, PENDING_KEY, SEGMENTED_KEY, GROUPED_KEY, PRUNED_KEY]"

lemma pruned_key_suffix [simp]:
  "\<not> ends_with (prefix @ PRUNED_KEY) RECENT_KEY" "\<not> ends_with (prefix @ PRUNED_KEY) STARTING_BLOCK_KEY"
  "\<not> ends_with (prefix @ PRUNED_KEY) FINALIZED_KEY" "\<not> ends_with (prefix @ PRUNED_KEY) PENDING_KEY"
  "\<not> ends_with (prefix @ PRUNED_KEY) SEGMENTED_KEY" "\<not> ends_with (prefix @ PRUNED_KEY) GROUPED_KEY"
  by (simp_all add: ends_with_rev state_keys)

lemma block_update_simps [simp]:
  "block_update STARTING_BLOCK_KEY n = [StartingBlock n]" "block_update FINALIZED_KEY n = [Finalized n]" "block_update PRUNED_KEY n = []"
  "block_update PENDING_KEY n = [Pending (Some n)]" "block_update SEGMENTED_KEY n = [Segmented n]" "block_update GROUPED_KEY n = [Grouped n]"
  by (simp_all add: block_update_def state_keys)

lemma state_key_utf8:
  assumes "is_ascii prefix" and "key \<in> set (RECENT_KEY # block_keys)"
  shows "from_utf8 (string_bytes (prefix @ key)) = Some (prefix @ key)"
  using assms by (intro from_utf8_ascii) (auto simp: is_ascii_def block_keys_def state_keys)

lemma block_reported:
  assumes "is_ascii (kvc_prefix (stc_kv sc))" and "key \<in> set block_keys"
    and "values (kv_format_key (stc_kv sc) key) = Some (v, r)" and "decode_block v = Ok x"
  shows "reported_as sc key values (block_update key x)"
proof -
  obtain s where s: "from_utf8 v = Some s" "parse_u64 s = Some x"
    using assms(4) by (auto simp: decode_block_def split: option.splits)
  then have "s \<noteq> []" by (auto simp: parse_u64_def)
  then show ?thesis
    using assms(2,3) s state_key_utf8 [OF assms(1), of key]
    by (auto simp: reported_as_def etcd_entries_def kv_format_key_def from_kv_def block_keys_def)
qed

context etcd_store
begin

lemma block_reads_as:
  assumes "stc_kv sc = kv" and quiet: "\<And>m m' k. others m m' \<Longrightarrow> store m' k = store m k"
    and "store w (kv_format_key kv key) = Some (v, r)" and "decode_block v = Ok x"
  shows "reads_as kv key (get_block_at sc key) x w"
  unfolding reads_as_def
proof (intro allI impI)
  fix kvs w'
  assume get: "et_get (kvc_client kv) (kv_format_key kv key) False w = (Ok kvs, w')"
  then have "kvs = [\<lparr>kv_key = string_bytes (kv_format_key kv key), kv_value = v, kv_mod_revision = r\<rparr>]"
    using read_entry [OF get] quiet assms(3) by (simp add: etcd_entries_def)
  then show "get_block_at sc key w = (Ok (Some x), w')"
    using get assms(1,4) by (simp add: get_block_at_def ibind_def ichange_def kv_get_def)
qed

lemma put_block_at_visible:
  assumes "stc_kv sc = kv" and "is_ascii (kvc_prefix kv)" and "n < u64_lim" and "key \<in> set block_keys"
    and quiet: "\<And>m m' k. others m m' \<Longrightarrow> store m' k = store m k" and "put_block_at sc key n w = (Ok (), w')"
  shows "reads_as kv key (get_block_at sc key) n w' \<and> reported_as sc key (store w') (block_update key n)"
proof -
  obtain r where "store w' (kv_format_key kv key) = Some (string_bytes (show_nat n), r)"
    using put_block_at_stores [OF assms(1,6) quiet] by blast
  then show ?thesis
    using block_reads_as [OF assms(1) quiet] block_reported [OF _ assms(4)] assms(1-3) by (metis decode_block_show)
qed

lemma put_if_higher_visible:
  assumes "stc_kv sc = kv" and "is_ascii (kvc_prefix kv)" and "n < u64_lim" and "key \<in> set block_keys"
    and quiet: "\<And>m m' k. others m m' \<Longrightarrow> store m' k = store m k" and "put_if_higher fuel sc key n w = (Ok (Some ()), w')"
  shows "\<exists>x \<ge> n. reads_as kv key (get_block_at sc key) x w' \<and> reported_as sc key (store w') (block_update key x)"
proof -
  let ?k = "kv_format_key kv key"
  have "\<exists>v r x. store w' ?k = Some (v, r) \<and> decode_block v = Ok x \<and> n \<le> x"
    using put_if_higher_run [OF assms(1,6)]
  proof (elim disjE exE conjE)
    fix m
    assume "others m w'" "Ok (Some ()) = Ok (Some ()) \<longrightarrow> block_at_least (store m) ?k n"
    then show ?thesis using quiet block_at_leastE [of "store m" ?k n] by metis
  next
    fix m m' r
    assume "others m' w'" "store m' = (store m)(?k \<mapsto> (string_bytes (show_nat n), r))"
    then have "store w' ?k = Some (string_bytes (show_nat n), r)" using quiet by auto
    then show ?thesis using decode_block_show [OF assms(3)] by blast
  qed
  then show ?thesis
    using block_reads_as [OF assms(1) quiet] block_reported [OF _ assms(4)] assms(1,2) by metis
qed

lemma put_recent_visible:
  assumes "stc_kv sc = kv" and "is_ascii (kvc_prefix kv)" and quiet: "\<And>m m' k. others m m' \<Longrightarrow> store m' k = store m k"
    and json: "\<And>p bs. to_bytes (stc_json sc) p = Some bs \<Longrightarrow> from_bytes (stc_json sc) bs = Some p"
    and "put_recent sc p w = (Ok (), w')"
  shows "reads_as kv RECENT_KEY (get_recent sc) p w' \<and> reported_as sc RECENT_KEY (store w') [Recent p] \<and>
    store w' (kv_format_key kv PENDING_KEY) = None"
proof -
  obtain json_bytes applied where v: "to_bytes (stc_json sc) p = Some json_bytes"
    and txn: "et_txn (kvc_client kv) [] [TxnPut (kv_format_key kv RECENT_KEY) json_bytes, TxnDelete (kv_format_key kv PENDING_KEY)] w = (Ok applied, w')"
    using assms(1,5) by (auto simp: put_recent_def kv_put_and_delete_def ioption_def outcome_simps split: option.splits)
  have ne: "kv_format_key kv RECENT_KEY \<noteq> kv_format_key kv PENDING_KEY" by (simp add: kv_format_key_def state_keys)
  obtain m m' r where "others m' w'" "store m' = (store m)(kv_format_key kv RECENT_KEY \<mapsto> (json_bytes, r), kv_format_key kv PENDING_KEY := None)"
    using txn_pair_law [OF txn] by auto
  then have st: "store w' (kv_format_key kv RECENT_KEY) = Some (json_bytes, r)" "store w' (kv_format_key kv PENDING_KEY) = None"
    using quiet ne by auto
  have "get_recent sc w' = (Ok (Some p), w'')" if get: "et_get (kvc_client kv) (kv_format_key kv RECENT_KEY) False w' = (Ok kvs, w'')" for kvs w''
  proof -
    have "kvs = [\<lparr>kv_key = string_bytes (kv_format_key kv RECENT_KEY), kv_value = json_bytes, kv_mod_revision = r\<rparr>]"
      using read_entry [OF get] quiet st(1) by (simp add: etcd_entries_def)
    then show ?thesis using get assms(1) json [OF v] by (simp add: get_recent_def ibind_def ichange_def kv_get_def)
  qed
  moreover have "reported_as sc RECENT_KEY (store w') [Recent p]"
    using st(1) assms(1) json [OF v] state_key_utf8 [OF assms(2), of RECENT_KEY]
    by (simp add: reported_as_def etcd_entries_def from_kv_def kv_format_key_def)
  ultimately show ?thesis using st(2) by (simp add: reads_as_def)
qed

end



end
