(* ===== verification/ChainView.thy ===== *)
theory ChainView
  imports FullChain StateClient
begin

text \<open>
  The server's view of the chain: \<open>common/src/chain_view/view.rs\<close> (finalized, segmented, grouped and
  pending markers next to the full chain, and the arithmetic of segments and groups) and the
  service that keeps it in sync with etcd, \<open>common/src/chain_view/sync.rs\<close>. Notifications to
  waiting tasks and metrics are not part of the model.
\<close>

section \<open>The view\<close>

record 'w chain_view =
  cv_finalized :: nat
  cv_pending_generation :: "nat option"
  cv_segmented :: "nat option"
  cv_grouped :: "nat option"
  cv_canonical :: "'w full_chain"
  cv_segment_size :: nat
  cv_group_size :: nat

definition chain_view_new ::
  "nat \<Rightarrow> nat option \<Rightarrow> nat option \<Rightarrow> nat \<Rightarrow> nat \<Rightarrow> 'w full_chain \<Rightarrow> 'w chain_view" where
  "chain_view_new finalized segmented grouped seg_size grp_size canonical =
     \<lparr>cv_finalized = finalized, cv_pending_generation = None, cv_segmented = segmented,
      cv_grouped = grouped, cv_canonical = canonical, cv_segment_size = seg_size, cv_group_size = grp_size\<rparr>"

definition get_segment_start_block :: "'w chain_view \<Rightarrow> nat \<Rightarrow> (nat, chain_view_error) outcome" where
  "get_segment_start_block v block =
     (let starting_block = fc_starting_block (cv_canonical v);
          blocks = u64_sub block starting_block
      in obind (u64_div blocks (cv_segment_size v)) (\<lambda>segment_count.
         Ok (u64_add starting_block (u64_mul segment_count (cv_segment_size v)))))"

definition get_segment_end_block :: "'w chain_view \<Rightarrow> nat \<Rightarrow> (nat, chain_view_error) outcome" where
  "get_segment_end_block v block =
     obind (get_segment_start_block v block) (\<lambda>start.
     Ok (u64_sub (u64_add start (cv_segment_size v)) 1))"

definition has_segment_for_block :: "'w chain_view \<Rightarrow> nat \<Rightarrow> (bool, chain_view_error) outcome" where
  "has_segment_for_block v block = (case cv_segmented v of
     None \<Rightarrow> Ok False
   | Some segmented \<Rightarrow> obind (get_segment_end_block v block) (\<lambda>segment_end. Ok (segment_end \<le> segmented)))"

definition get_blocks_in_group :: "'w chain_view \<Rightarrow> nat" where
  "get_blocks_in_group v = u64_mul (cv_group_size v) (cv_segment_size v)"

definition get_group_start_block :: "'w chain_view \<Rightarrow> nat \<Rightarrow> (nat, chain_view_error) outcome" where
  "get_group_start_block v block =
     (let starting_block = fc_starting_block (cv_canonical v);
          blocks_in_group = u64_mul (cv_group_size v) (cv_segment_size v)
      in obind (u64_div (u64_sub block starting_block) blocks_in_group) (\<lambda>group_count.
         Ok (u64_add starting_block (u64_mul group_count blocks_in_group))))"

definition get_group_end_block :: "'w chain_view \<Rightarrow> nat \<Rightarrow> (nat, chain_view_error) outcome" where
  "get_group_end_block v block =
     (let blocks_in_group = u64_mul (cv_group_size v) (cv_segment_size v)
      in obind (get_group_start_block v block) (\<lambda>start. Ok (u64_sub (u64_add start blocks_in_group) 1)))"

definition has_group_for_block :: "'w chain_view \<Rightarrow> nat \<Rightarrow> (bool, chain_view_error) outcome" where
  "has_group_for_block v block = (case cv_grouped v of
     None \<Rightarrow> Ok False
   | Some grouped \<Rightarrow> obind (get_group_end_block v block) (\<lambda>group_end. Ok (group_end \<le> grouped)))"

definition view_next_cursor :: "'w chain_view \<Rightarrow> cursor option \<Rightarrow> ('w, next_cursor, chain_view_error) io" where
  "view_next_cursor v c = get_next_cursor (cv_canonical v) c"

definition view_validate_cursor :: "'w chain_view \<Rightarrow> cursor \<Rightarrow> ('w, validated_cursor, chain_view_error) io" where
  "view_validate_cursor v c = validate_cursor (cv_canonical v) c"

definition view_get_canonical :: "'w chain_view \<Rightarrow> nat \<Rightarrow> ('w, canonical_cursor, chain_view_error) io" where
  "view_get_canonical v n = get_canonical (cv_canonical v) n"

definition view_get_head :: "'w chain_view \<Rightarrow> cursor" where
  "view_get_head v = full_get_head (cv_canonical v)"

text \<open>The common shape of the cursor getters: the canonical cursor if there is one, otherwise a
  cursor without hash.\<close>

definition cursor_or_finalized :: "'w chain_view \<Rightarrow> nat \<Rightarrow> ('w, cursor, chain_view_error) io" where
  "cursor_or_finalized v block =
     ibind (get_canonical (cv_canonical v) block) (\<lambda>r.
     case r of Canonical c \<Rightarrow> ireturn c | _ \<Rightarrow> ireturn (new_finalized block))"

definition get_starting_cursor :: "'w chain_view \<Rightarrow> ('w, cursor, chain_view_error) io" where
  "get_starting_cursor v = cursor_or_finalized v (fc_starting_block (cv_canonical v))"

definition get_finalized_cursor :: "'w chain_view \<Rightarrow> ('w, cursor, chain_view_error) io" where
  "get_finalized_cursor v = cursor_or_finalized v (cv_finalized v)"

definition get_grouped_cursor :: "'w chain_view \<Rightarrow> ('w, cursor option, chain_view_error) io" where
  "get_grouped_cursor v = (case cv_grouped v of
     None \<Rightarrow> ireturn None
   | Some grouped \<Rightarrow> ibind (cursor_or_finalized v grouped) (\<lambda>c. ireturn (Some c)))"

definition get_segmented_cursor :: "'w chain_view \<Rightarrow> ('w, cursor option, chain_view_error) io" where
  "get_segmented_cursor v = (case cv_segmented v of
     None \<Rightarrow> ireturn None
   | Some segmented \<Rightarrow> ibind (cursor_or_finalized v segmented) (\<lambda>c. ireturn (Some c)))"

definition set_finalized_block :: "nat \<Rightarrow> 'w chain_view \<Rightarrow> 'w chain_view" where
  "set_finalized_block block v = v\<lparr>cv_finalized := block\<rparr>"

definition set_pending_generation :: "nat option \<Rightarrow> 'w chain_view \<Rightarrow> 'w chain_view" where
  "set_pending_generation generation v = v\<lparr>cv_pending_generation := generation\<rparr>"

definition set_segmented_block :: "nat \<Rightarrow> 'w chain_view \<Rightarrow> 'w chain_view" where
  "set_segmented_block block v = v\<lparr>cv_segmented := Some block\<rparr>"

definition set_grouped_block :: "nat \<Rightarrow> 'w chain_view \<Rightarrow> 'w chain_view" where
  "set_grouped_block block v = v\<lparr>cv_grouped := Some block\<rparr>"

definition set_recent :: "chain_segment \<Rightarrow> 'w chain_view \<Rightarrow> 'w chain_view" where
  "set_recent recent v = v\<lparr>cv_canonical := full_set_recent recent (cv_canonical v)\<rparr>"

section \<open>The sync service\<close>

record 'w sync_service =
  sy_state :: "'w state_client"
  sy_store :: "'w chain_store"
  sy_options :: "'w kv_client"

definition sync_get_legacy_recent ::
  "'w sync_service \<Rightarrow> ('w, chain_segment option, chain_view_error) io" where
  "sync_get_legacy_recent svc =
     ibind (ichange (\<lambda>_. ChainViewError) (get_legacy_ingested (sy_state svc))) (\<lambda>legacy.
     if legacy = None then ireturn None
     else ichange (\<lambda>_. ChainViewError) (get_legacy_recent (sy_store svc)))"

definition sync_get_recent :: "'w sync_service \<Rightarrow> ('w, chain_segment option, chain_view_error) io" where
  "sync_get_recent svc =
     ibind (ichange (\<lambda>_. ChainViewError) (get_recent (sy_state svc))) (\<lambda>pointer.
     case pointer of
       None \<Rightarrow> sync_get_legacy_recent svc
     | Some p \<Rightarrow> ichange (\<lambda>_. ChainViewError) (get_recent_snapshot (sy_store svc) p))"

text \<open>The reaction to one update of the watch stream. \<open>None\<close> is the update that is skipped because
  its snapshot is gone and no newer pointer has one.\<close>

definition recent_of_update ::
  "'w sync_service \<Rightarrow> recent_segment_pointer \<Rightarrow> ('w, chain_segment option, chain_view_error) io" where
  "recent_of_update svc p =
     ibind (ichange (\<lambda>_. ChainViewError) (get_recent_snapshot (sy_store svc) p)) (\<lambda>r.
     case r of
       Some recent \<Rightarrow> ireturn (Some recent)
     | None \<Rightarrow>
         ibind (ichange (\<lambda>_. ChainViewError) (get_recent (sy_state svc))) (\<lambda>current.
         case current of
           Some c \<Rightarrow>
             if rsp_key c \<noteq> rsp_key p
             then ichange (\<lambda>_. ChainViewError) (get_recent_snapshot (sy_store svc) c)
             else ireturn None
         | None \<Rightarrow> ireturn None))"

definition sync_update ::
  "'w sync_service \<Rightarrow> ingestion_state_update \<Rightarrow> 'w chain_view \<Rightarrow> ('w, 'w chain_view, chain_view_error) io" where
  "sync_update svc update v = (case update of
     StartingBlock block \<Rightarrow> ireturn v
   | Finalized block \<Rightarrow> ireturn (set_finalized_block block v)
   | Segmented block \<Rightarrow> ireturn (set_segmented_block block v)
   | Grouped block \<Rightarrow> ireturn (set_grouped_block block v)
   | Pending generation \<Rightarrow> ireturn (set_pending_generation generation v)
   | Recent p \<Rightarrow>
       ibind (recent_of_update svc p) (\<lambda>r.
       case r of None \<Rightarrow> ireturn v | Some recent \<Rightarrow> ireturn (set_recent recent v)))"

text \<open>One watch stream: updates are applied until the first error. The stream ends with an error.\<close>

fun sync_stream ::
  "'w sync_service \<Rightarrow> (ingestion_state_update, chain_view_error) outcome list \<Rightarrow> 'w chain_view
    \<Rightarrow> 'w \<Rightarrow> 'w chain_view \<times> 'w" where
  "sync_stream svc [] v w = (v, w)"
| "sync_stream svc (Ok update # updates) v w =
     (case sync_update svc update v w of
        (Ok v', w') \<Rightarrow> sync_stream svc updates v' w'
      | (_, w') \<Rightarrow> (v, w'))"
| "sync_stream svc (_ # updates) v w = (v, w)"

text \<open>The polling loops of the start: \<open>Ok None\<close> is fuel running out.\<close>

fun wait_for :: "nat \<Rightarrow> ('w, 'a option, 'e) io \<Rightarrow> ('w, 'a option, 'e) io" where
  "wait_for 0 p = ireturn None"
| "wait_for (Suc fuel) p =
     ibind p (\<lambda>r. case r of Some x \<Rightarrow> ireturn (Some x) | None \<Rightarrow> wait_for fuel p)"

definition sync_initialize ::
  "nat \<Rightarrow> 'w sync_service \<Rightarrow> ('w, 'w chain_view option, chain_view_error) io" where
  "sync_initialize fuel svc =
     ibind (wait_for fuel (ichange (\<lambda>_. ChainViewError) (get_starting_block (sy_state svc)))) (\<lambda>a.
     case a of None \<Rightarrow> ireturn None | Some starting_block \<Rightarrow>
     ibind (wait_for fuel (ichange (\<lambda>_. ChainViewError) (get_finalized (sy_state svc)))) (\<lambda>b.
     case b of None \<Rightarrow> ireturn None | Some finalized \<Rightarrow>
     ibind (ichange (\<lambda>_. ChainViewError) (get_segmented (sy_state svc))) (\<lambda>segmented.
     ibind (ichange (\<lambda>_. ChainViewError) (get_grouped (sy_state svc))) (\<lambda>grouped.
     ibind (wait_for fuel (sync_get_recent svc)) (\<lambda>c.
     case c of None \<Rightarrow> ireturn None | Some recent \<Rightarrow>
     ibind (ibind (ichange (\<lambda>_. ChainViewError) (get_chain_segment_size (sy_options svc)))
              (ioption ChainViewError)) (\<lambda>chain_segment_size.
     ibind (ibind (ichange (\<lambda>_. ChainViewError) (get_segment_size (sy_options svc)))
              (ioption ChainViewError)) (\<lambda>seg_size.
     ibind (ibind (ichange (\<lambda>_. ChainViewError) (get_group_size (sy_options svc)))
              (ioption ChainViewError)) (\<lambda>grp_size.
     ireturn (Some (chain_view_new finalized segmented grouped seg_size grp_size
       \<lparr>fc_store = sy_store svc, fc_starting_block = starting_block,
        fc_chain_segment_size = chain_segment_size, fc_recent = recent\<rparr>))))))))))"

section \<open>Reads of the chain\<close>

lemma canonical_impl_number:
  "get_canonical_impl fc n w = (Ok c, w') \<Longrightarrow> cur_number c = n"
  by (auto simp: get_canonical_impl_def segment_canonical_def Let_def outcome_simps mk_cursor_def split: if_splits)

lemma cursor_or_finalized_number:
  assumes "cursor_or_finalized v n w = (Ok c, w')"
  shows "cur_number c = n"
proof -
  obtain r w1 where r: "get_canonical (cv_canonical v) n w = (Ok r, w1)"
    and c: "(case r of Canonical c \<Rightarrow> ireturn c | _ \<Rightarrow> ireturn (new_finalized n)) w1 = (Ok c :: (_, chain_view_error) outcome, w')"
    using assms unfolding cursor_or_finalized_def ibind_eq_Ok by blast
  then show ?thesis
    by (cases r) (auto simp: get_canonical_def new_finalized_def mk_cursor_def outcome_simps split: if_splits dest: canonical_impl_number)
qed

lemma grouped_cursor_number:
  "get_grouped_cursor v w = (Ok c, w') \<Longrightarrow> map_option cur_number c = cv_grouped v"
  and segmented_cursor_number:
  "get_segmented_cursor v w = (Ok c, w') \<Longrightarrow> map_option cur_number c = cv_segmented v"
  by (auto simp: get_grouped_cursor_def get_segmented_cursor_def outcome_simps split: option.splits
      dest: cursor_or_finalized_number)

lemma keeps_case_option: "keeps v a \<Longrightarrow> (\<And>x. keeps v (f x)) \<Longrightarrow> keeps v (case_option a f x)"
  by (cases x) simp_all

text \<open>The parts of a chain store that a read of the chain view calls leave an observation
  of the outside state alone: the bucket, or the files of another cache.\<close>

locale chain_reads =
  fixes st :: "'w chain_store" and obs :: "'w \<Rightarrow> 'v"
  assumes object_get_keeps: "keeps obs (oc_get_object (os_client (cst_client st)) (os_bucket (cst_client st)) k ver)"
    and file_get_keeps: "keeps obs (fca_get (cst_cache st) k)"
    and file_insert_keeps: "obs (fca_insert (cst_cache st) (canon_key name) bs w) = obs w"
begin

lemma object_store_get_keeps: "keeps obs (object_store_get (cst_codec st) (cst_client st) path ver)"
  unfolding object_store_get_def
  by (intro keeps_ibind object_get_keeps) (auto split: option.splits simp: Let_def)

lemma get_as_bytes_keeps: "keeps obs (get_as_bytes st key ver)"
  unfolding keeps_def get_as_bytes_def
  by (auto split: prod.splits outcome.splits dest: keepsD [OF object_store_get_keeps])

lemma chain_store_get_keeps: "keeps obs (chain_store_get st n)"
proof -
  have "keeps obs (\<lambda>w. (Ok (), fca_insert (cst_cache st) (canon_key name) bytes w))" for name bytes
    by (simp add: keeps_def file_insert_keeps)
  then show ?thesis
    unfolding chain_store_get_def get_impl_def Let_def decode_segment_def
    by (auto intro!: keeps_ibind keeps_case_option file_get_keeps get_as_bytes_keeps)
qed

lemma chain_segment_keeps: "fc_store fc = st \<Longrightarrow> keeps obs (get_chain_segment fc n)"
  unfolding get_chain_segment_def using chain_store_get_keeps by (auto intro!: keeps_ibind)

lemma canonical_impl_keeps: "fc_store fc = st \<Longrightarrow> keeps obs (get_canonical_impl fc n)"
  unfolding get_canonical_impl_def by (auto intro!: keeps_ibind chain_segment_keeps)

lemma next_cursor_keeps: "fc_store fc = st \<Longrightarrow> keeps obs (get_next_cursor fc c)"
  unfolding get_next_cursor_def
  by (auto intro!: keeps_ibind chain_segment_keeps canonical_impl_keeps split: option.splits reconnect_action.splits)

lemma canonical_keeps: "fc_store fc = st \<Longrightarrow> keeps obs (get_canonical fc n)"
  unfolding get_canonical_def by (auto intro!: keeps_ibind canonical_impl_keeps)

lemma cursor_or_finalized_keeps: "fc_store (cv_canonical v) = st \<Longrightarrow> keeps obs (cursor_or_finalized v n)"
  unfolding cursor_or_finalized_def by (auto intro!: keeps_ibind canonical_keeps split: canonical_cursor.splits)

lemma grouped_cursor_keeps: "fc_store (cv_canonical v) = st \<Longrightarrow> keeps obs (get_grouped_cursor v)"
  unfolding get_grouped_cursor_def by (auto intro!: keeps_ibind keeps_case_option cursor_or_finalized_keeps)

lemma segmented_cursor_keeps: "fc_store (cv_canonical v) = st \<Longrightarrow> keeps obs (get_segmented_cursor v)"
  unfolding get_segmented_cursor_def by (auto intro!: keeps_ibind keeps_case_option cursor_or_finalized_keeps)

end

sublocale segment_store \<subseteq> reads: chain_reads st objects
  by unfold_locales (simp_all add: get_keeps cache_get_keeps cache_insert)

section \<open>Segments and groups\<close>

text \<open>A view whose sizes are positive and whose arithmetic at a block does not overflow.\<close>

definition sizes_ok :: "'w chain_view \<Rightarrow> nat \<Rightarrow> bool" where
  "sizes_ok v block \<longleftrightarrow> 0 < cv_segment_size v \<and> 0 < cv_group_size v \<and>
     fc_starting_block (cv_canonical v) \<le> block \<and>
     block + cv_group_size v * cv_segment_size v < u64_lim"

lemma aligned_start:
  assumes "0 < k" and "s \<le> n" and "n < u64_lim"
  shows "obind (u64_div (u64_sub n s) k) (\<lambda>q. Ok (u64_add s (u64_mul q k))) =
    (Ok (s + (n - s) div k * k) :: (nat, chain_view_error) outcome)"
proof -
  have "(n - s) div k * k \<le> n - s" by (rule div_times_less_eq_dividend)
  then have "(n - s) div k * k < u64_lim" "s + (n - s) div k * k < u64_lim" using assms by linarith+
  then show ?thesis using assms by (simp add: u64_simps)
qed

lemma segment_arith:
  assumes "sizes_ok v block"
  defines "s \<equiv> fc_starting_block (cv_canonical v)" and "k \<equiv> cv_segment_size v"
  shows "get_segment_start_block v block = Ok (s + (block - s) div k * k)"
    and "get_segment_end_block v block = Ok (s + (block - s) div k * k + k - 1)"
proof -
  have a: "0 < k" "s \<le> block" "block < u64_lim" "block + k < u64_lim"
  proof -
    have "1 * k \<le> cv_group_size v * k" using assms(1) by (intro mult_le_mono1) (simp add: sizes_ok_def)
    then have "k \<le> cv_group_size v * cv_segment_size v" by (simp only: k_def mult_1)
    then show "block + k < u64_lim" using assms(1) unfolding sizes_ok_def by linarith
  qed (use assms(1) in \<open>auto simp: sizes_ok_def k_def s_def\<close>)
  show start: "get_segment_start_block v block = Ok (s + (block - s) div k * k)"
    using aligned_start [OF a(1,2,3)] by (simp add: get_segment_start_block_def Let_def s_def k_def)
  have "(block - s) div k * k \<le> block - s" by (rule div_times_less_eq_dividend)
  then have "s + (block - s) div k * k + k < u64_lim" using a by linarith
  then show "get_segment_end_block v block = Ok (s + (block - s) div k * k + k - 1)"
    using start a(1) by (simp add: get_segment_end_block_def u64_simps flip: k_def)
qed

lemma group_arith:
  assumes "sizes_ok v block"
  defines "s \<equiv> fc_starting_block (cv_canonical v)" and "k \<equiv> cv_group_size v * cv_segment_size v"
  shows "get_group_start_block v block = Ok (s + (block - s) div k * k)"
    and "get_group_end_block v block = Ok (s + (block - s) div k * k + k - 1)"
    and "get_blocks_in_group v = k"
proof -
  have a: "0 < k" "s \<le> block" "block < u64_lim" "block + k < u64_lim"
    using assms by (auto simp: sizes_ok_def k_def s_def)
  show k: "get_blocks_in_group v = k"
    using a(4) by (simp add: get_blocks_in_group_def u64_simps k_def)
  show start: "get_group_start_block v block = Ok (s + (block - s) div k * k)"
    using aligned_start [OF a(1,2,3)] k
    by (simp add: get_group_start_block_def s_def Let_def get_blocks_in_group_def)
  have "(block - s) div k * k \<le> block - s" by (rule div_times_less_eq_dividend)
  then have "s + (block - s) div k * k + k < u64_lim" using a by linarith
  then show "get_group_end_block v block = Ok (s + (block - s) div k * k + k - 1)"
    using start a(1) k by (simp add: get_group_end_block_def u64_simps Let_def get_blocks_in_group_def)
qed

text \<open>Two numbers have the same start exactly when they lie in the same interval.\<close>

lemma aligned_interval:
  assumes "0 < k" and "(s :: nat) \<le> n"
  shows "s + (n - s) div k * k = s + q * k \<longleftrightarrow> s + q * k \<le> n \<and> n \<le> s + q * k + k - 1"
proof -
  have "(n - s) div k = q \<longleftrightarrow> q * k \<le> n - s \<and> n - s < q * k + k"
    using div_times_less_eq_dividend [of "n - s" k] dividend_less_div_times [OF assms(1), of "n - s"]
    by (auto simp: algebra_simps intro!: div_nat_eqI)
  moreover have "q * k \<le> n - s \<and> n - s < q * k + k \<longleftrightarrow> s + q * k \<le> n \<and> n \<le> s + q * k + k - 1" using assms by linarith
  ultimately show ?thesis using assms(1) by simp
qed

text \<open>C27: Segments and groups partition the chain from the starting block on. Every block lies in its segment and its segment
  in its group. A segment has exactly the segment size and starts a whole number of segments
  after the starting block; a group has exactly group size times segment size blocks and starts a whole number of groups after
  the starting block. Another block has the same segment, or the same group, exactly when it lies between the
  first and the last block of it, so that two segments or two groups never overlap. If the
  group is available then so is the segment, as long as grouping stays behind segmentation.\<close>

theorem segment_group_nesting:
  assumes "sizes_ok v block"
  shows "\<exists>seg_start seg_end grp_start grp_end.
    get_segment_start_block v block = Ok seg_start \<and> get_segment_end_block v block = Ok seg_end \<and>
    get_group_start_block v block = Ok grp_start \<and> get_group_end_block v block = Ok grp_end \<and>
    grp_start \<le> seg_start \<and> seg_start \<le> block \<and> block \<le> seg_end \<and> seg_end \<le> grp_end \<and>
    get_blocks_in_group v = cv_group_size v * cv_segment_size v \<and>
    seg_end + 1 = seg_start + cv_segment_size v \<and>
    grp_end + 1 = grp_start + get_blocks_in_group v \<and>
    cv_segment_size v dvd (seg_start - fc_starting_block (cv_canonical v)) \<and>
    get_blocks_in_group v dvd (grp_start - fc_starting_block (cv_canonical v)) \<and>
    cv_segment_size v dvd (seg_start - grp_start) \<and>
    (\<forall>other. sizes_ok v other \<longrightarrow>
       (get_segment_start_block v other = Ok seg_start \<longleftrightarrow> seg_start \<le> other \<and> other \<le> seg_end) \<and>
       (get_group_start_block v other = Ok grp_start \<longleftrightarrow> grp_start \<le> other \<and> other \<le> grp_end)) \<and>
    (has_group_for_block v block = Ok True \<and>
       (case (cv_grouped v, cv_segmented v) of (Some g, Some s) \<Rightarrow> g \<le> s | (Some g, None) \<Rightarrow> False | _ \<Rightarrow> True)
      \<longrightarrow> has_segment_for_block v block = Ok True)"
proof -
  define s where "s = fc_starting_block (cv_canonical v)"
  define k where "k = cv_segment_size v"
  define g where "g = cv_group_size v"
  have pos: "0 < k" "0 < g" "s \<le> block" using assms by (auto simp: sizes_ok_def k_def g_def s_def)
  define q where "q = (block - s) div k"
  have grp: "(block - s) div (g * k) = q div g"
    unfolding q_def by (metis div_mult2_eq mult.commute)
  have seg: "q * k \<le> block - s" "block - s < q * k + k"
    unfolding q_def using div_times_less_eq_dividend [of "block - s" k]
      dividend_less_div_times [OF pos(1), of "block - s"] by simp_all
  have nest: "q div g * g \<le> q" "q < q div g * g + g"
    using div_times_less_eq_dividend [of q g] dividend_less_div_times [OF pos(2), of q] by simp_all
  have low: "q div g * (g * k) \<le> q * k"
    using mult_le_mono1 [OF nest(1), of k] by (simp add: mult.assoc)
  have high: "q * k + k \<le> q div g * (g * k) + g * k"
    using mult_le_mono1 [OF Suc_leI [OF nest(2)], of k] by (simp add: algebra_simps)
  have dvd: "k dvd (s + q * k - (s + q div g * (g * k)))"
    by (simp add: mult.assoc [symmetric] diff_mult_distrib [symmetric])
  note eqs = segment_arith [OF assms, folded s_def k_def, folded q_def]
    group_arith [OF assms, folded s_def k_def g_def, unfolded grp]
  have gk: "0 < g * k" using pos by simp
  have same: "(get_segment_start_block v other = Ok (s + q * k) \<longleftrightarrow> s + q * k \<le> other \<and> other \<le> s + q * k + k - 1) \<and>
      (get_group_start_block v other = Ok (s + q div g * (g * k)) \<longleftrightarrow>
        s + q div g * (g * k) \<le> other \<and> other \<le> s + q div g * (g * k) + g * k - 1)"
    if "sizes_ok v other" for other
  proof -
    have "s \<le> other" using that by (simp add: sizes_ok_def s_def)
    then show ?thesis
      using aligned_interval [OF pos(1)] aligned_interval [OF gk]
      unfolding segment_arith(1) [OF that, folded s_def k_def] group_arith(1) [OF that, folded s_def k_def g_def] outcome.inject by blast
  qed
  have order: "s + q div g * (g * k) \<le> s + q * k" "s + q * k \<le> block" "block \<le> s + q * k + k - 1"
    "s + q * k + k - 1 \<le> s + q div g * (g * k) + g * k - 1" "s + q * k + k - 1 + 1 = s + q * k + k"
    "s + q div g * (g * k) + g * k - 1 + 1 = s + q div g * (g * k) + g * k"
    using seg low high pos gk by linarith+
  have available: "has_segment_for_block v block = Ok True"
    if "has_group_for_block v block = Ok True"
      "case (cv_grouped v, cv_segmented v) of (Some g, Some s) \<Rightarrow> g \<le> s | (Some g, None) \<Rightarrow> False | _ \<Rightarrow> True"
    using that high pos gk unfolding eqs has_group_for_block_def has_segment_for_block_def by (auto split: option.splits)
  show ?thesis
    unfolding eqs s_def [symmetric] k_def [symmetric] g_def [symmetric]
    using order dvd same available
    by (intro exI [of _ "s + q * k"] exI [of _ "s + q * k + k - 1"] exI [of _ "s + q div g * (g * k)"]
        exI [of _ "s + q div g * (g * k) + g * k - 1"] conjI) (blast | simp)+
qed

text \<open>Blocks 100 to 109 in segments of ten and groups of two segments.\<close>

definition demo_view :: "mem_world chain_view" where
  "demo_view = chain_view_new 120 (Some 119) (Some 119) 10 2 (chain_after demo_store 2 100 demo_building)"

theorem segment_group_nesting_witness: "has_segment_for_block demo_view 105 = Ok True"
proof -
  have ok: "sizes_ok demo_view 105"
    by (simp add: sizes_ok_def demo_view_def chain_view_new_def chain_after_def u64_lim_def)
  moreover have "has_group_for_block demo_view 105 = Ok True"
    unfolding has_group_for_block_def group_arith(2) [OF ok]
    by (simp add: demo_view_def chain_view_new_def chain_after_def)
  moreover have "cv_grouped demo_view = Some 119" "cv_segmented demo_view = Some 119"
    by (simp_all add: demo_view_def chain_view_new_def)
  ultimately show ?thesis using segment_group_nesting [OF ok] by auto
qed

section \<open>Following the ingestion\<close>

text \<open>C24: When the ingestion publishes a segment and the view handles the update that carries its
  pointer, the view ends up with exactly the published segment as its recent one, and with
  its last block as head; all other parts of the view are as before.\<close>

theorem sync_installs_published:
  assumes "segment_store (sy_store svc) objects cached"
    and "put_recent_snapshot (sy_store svc) segment w = (Ok p, w')"
    and "sync_update svc (Recent p) v w' = (Ok v', w'')"
  shows "v' = set_recent segment v \<and> view_get_head v' = last_block (cs_info segment)"
proof -
  obtain r w1 where r: "recent_of_update svc p w' = (Ok r, w1)"
    and v': "case r of None \<Rightarrow> v' = v | Some recent \<Rightarrow> v' = set_recent recent v"
    using assms(3) by (auto simp: sync_update_def outcome_simps split: option.splits)
  then obtain g w2 where g: "get_recent_snapshot (sy_store svc) p w' = (Ok g, w2)"
    by (auto simp: recent_of_update_def outcome_simps)
  have "g = Some segment" using segment_store.put_get_snapshot [OF assms(1,2) g] .
  then have "r = Some segment" using r g by (simp add: recent_of_update_def ibind_def ichange_def)
  then show ?thesis
    using v' by (simp add: view_get_head_def full_get_head_def set_recent_def full_set_recent_def)
qed

definition demo_service :: "mem_world sync_service" where
  "demo_service = \<lparr>sy_state = mem_state_client, sy_store = mem_store [stored_demo], sy_options = mem_kv_client\<rparr>"

theorem sync_installs_published_witness:
  "\<exists>p w' v' w''. put_recent_snapshot (mem_store [stored_demo]) stored_demo empty_world = (Ok p, w') \<and>
     sync_update demo_service (Recent p) demo_view w' = (Ok v', w'') \<and>
     view_get_head v' = mk_cursor 5 (Hash [1])"
proof -
  have svc: "sy_store demo_service = mem_store [stored_demo]" by (simp add: demo_service_def)
  have numbers: "cur_number (first_block (cs_info stored_demo)) = 5"
    "cur_number (last_block (cs_info stored_demo)) = 5"
    "last_block (cs_info stored_demo) = mk_cursor 5 (Hash [1])"
    by (simp_all add: stored_demo_def)
  have "\<exists>p w' v' w''. put_recent_snapshot (mem_store [stored_demo]) stored_demo empty_world = (Ok p, w') \<and>
      sync_update demo_service (Recent p) demo_view w' = (Ok v', w'')"
    by (simp add: put_recent_snapshot_def put_impl_def mem_store_def table_serde_def object_store_put_def
        mem_codec_def object_store_new_def mem_client_def mem_put_def ichange_def empty_world_def Let_def
        numbers ibind_def sync_update_def recent_of_update_def svc get_recent_snapshot_def
        validate_recent_pointer_def canon_key_def recent_snapshot_filename_def get_by_key_def get_as_bytes_def
        object_store_get_def mem_get_def full_key_def decode_segment_def put_u32_def get_u32_def mw_objects_def)
  then show ?thesis
    using sync_installs_published [of demo_service mw_objects mw_cache stored_demo empty_world]
      mem.segment_store_axioms [of "[stored_demo]"] numbers(3)
    by (metis svc)
qed

text \<open>A view over the reference store.\<close>

definition mem_view :: "nat \<Rightarrow> nat option \<Rightarrow> nat option \<Rightarrow> nat \<Rightarrow> nat \<Rightarrow> nat \<Rightarrow> chain_segment \<Rightarrow> mem_world chain_view" where
  "mem_view finalized segmented grouped sz gsz start recent =
     chain_view_new finalized segmented grouped sz gsz
       \<lparr>fc_store = mem_store [], fc_starting_block = start, fc_chain_segment_size = 10, fc_recent = recent\<rparr>"

end
