(* ===== verification/Bitmap.thy ===== *)
theory Bitmap
  imports ObjectStore "HOL-Library.Product_Lexorder"
begin

text \<open>
  Bitmap and join indexes: \<open>common/src/index.rs\<close> and \<open>common/src/join.rs\<close>. Indexes are sorted key
  arrays searched with \<open>slice::binary_search_by\<close>, whose values are serialised roaring bitmaps.
  The roaring crate is a parameter with its set semantics as laws; the search is modelled as
  the standard library implements it.
\<close>

section \<open>Roaring bitmaps\<close>

text \<open>The operations of \<open>RoaringBitmap\<close> the code uses, on sets of \<open>u32\<close>. \<open>rb_iter\<close> is ascending
  iteration; \<open>rb_insert_range\<close> and \<open>rb_from_range\<close> take a half-open range; serialisation may fail.\<close>

record 'b roaring =
  rb_empty :: 'b
  rb_insert :: "nat \<Rightarrow> 'b \<Rightarrow> 'b"
  rb_insert_range :: "nat \<Rightarrow> nat \<Rightarrow> 'b \<Rightarrow> 'b"
  rb_from_range :: "nat \<Rightarrow> nat \<Rightarrow> 'b"
  rb_and :: "'b \<Rightarrow> 'b \<Rightarrow> 'b"
  rb_or :: "'b \<Rightarrow> 'b \<Rightarrow> 'b"
  rb_iter :: "'b \<Rightarrow> nat list"
  rb_serialize :: "'b \<Rightarrow> bytes option"
  rb_deserialize :: "bytes \<Rightarrow> 'b option"

locale roaring_bitmap =
  fixes R :: "'b roaring"
  assumes iter_sorted: "sorted_wrt (<) (rb_iter R b)"
    and iter_empty: "rb_iter R (rb_empty R) = []"
    and iter_insert: "set (rb_iter R (rb_insert R x b)) = insert x (set (rb_iter R b))"
    and iter_insert_range: "set (rb_iter R (rb_insert_range R lo hi b)) = {lo..<hi} \<union> set (rb_iter R b)"
    and iter_from_range: "set (rb_iter R (rb_from_range R lo hi)) = {lo..<hi}"
    and iter_and: "set (rb_iter R (rb_and R a b)) = set (rb_iter R a) \<inter> set (rb_iter R b)"
    and iter_or: "set (rb_iter R (rb_or R a b)) = set (rb_iter R a) \<union> set (rb_iter R b)"
    and serialize_inverse: "rb_serialize R b = Some bs \<Longrightarrow>
      \<exists>b'. rb_deserialize R bs = Some b' \<and> rb_iter R b' = rb_iter R b"

section \<open>Scalar values\<close>

text \<open>Integers are unbounded here; their widths are those of the Rust constructors. The byte arrays
  have 20, 32 and 48 elements.\<close>

datatype scalar_value =
    Null
  | BoolV bool
  | Int32 int
  | Uint8 nat
  | Uint16 nat
  | Uint32 nat
  | Uint64 nat
  | B160 "u8 list"
  | B256 "u8 list"
  | B384 "u8 list"

text \<open>\<open>derive(PartialOrd, Ord)\<close>: variants in declaration order, then the payload.\<close>

fun scalar_rank :: "scalar_value \<Rightarrow> nat" where
  "scalar_rank Null = 0"
| "scalar_rank (BoolV _) = 1"
| "scalar_rank (Int32 _) = 2"
| "scalar_rank (Uint8 _) = 3"
| "scalar_rank (Uint16 _) = 4"
| "scalar_rank (Uint32 _) = 5"
| "scalar_rank (Uint64 _) = 6"
| "scalar_rank (B160 _) = 7"
| "scalar_rank (B256 _) = 8"
| "scalar_rank (B384 _) = 9"

fun scalar_payload :: "scalar_value \<Rightarrow> int \<times> u8 list" where
  "scalar_payload Null = (0, [])"
| "scalar_payload (BoolV b) = (if b then 1 else 0, [])"
| "scalar_payload (Int32 i) = (i, [])"
| "scalar_payload (Uint8 n) = (int n, [])"
| "scalar_payload (Uint16 n) = (int n, [])"
| "scalar_payload (Uint32 n) = (int n, [])"
| "scalar_payload (Uint64 n) = (int n, [])"
| "scalar_payload (B160 bs) = (0, bs)"
| "scalar_payload (B256 bs) = (0, bs)"
| "scalar_payload (B384 bs) = (0, bs)"

definition scalar_key :: "scalar_value \<Rightarrow> nat \<times> int \<times> u8 list" where
  "scalar_key v = (scalar_rank v, scalar_payload v)"

lemma scalar_key_inject [simp]: "scalar_key a = scalar_key b \<longleftrightarrow> a = b"
  by (cases a; cases b) (auto simp: scalar_key_def split: if_splits)

instantiation scalar_value :: linorder
begin

definition less_eq_scalar_value :: "scalar_value \<Rightarrow> scalar_value \<Rightarrow> bool" where
  "less_eq_scalar_value a b \<longleftrightarrow> scalar_key a \<le> scalar_key b"

definition less_scalar_value :: "scalar_value \<Rightarrow> scalar_value \<Rightarrow> bool" where
  "less_scalar_value a b \<longleftrightarrow> scalar_key a < scalar_key b"

instance
proof
  fix x y z :: scalar_value
  show "x < y \<longleftrightarrow> x \<le> y \<and> \<not> y \<le> x"
    by (simp add: less_eq_scalar_value_def less_scalar_value_def less_le_not_le)
  show "x \<le> x" by (simp add: less_eq_scalar_value_def)
  show "x \<le> y \<Longrightarrow> y \<le> z \<Longrightarrow> x \<le> z" unfolding less_eq_scalar_value_def by (rule order_trans)
  show "x \<le> y \<Longrightarrow> y \<le> x \<Longrightarrow> x = y"
    unfolding less_eq_scalar_value_def using antisym scalar_key_inject by blast
  show "x \<le> y \<or> y \<le> x" unfolding less_eq_scalar_value_def by (rule linear)
qed

end

datatype ordering = Less | Equal | Greater

definition cmp :: "'a :: linorder \<Rightarrow> 'a \<Rightarrow> ordering" where
  "cmp a b = (if a < b then Less else if a = b then Equal else Greater)"

fun cmp_scalar_value :: "scalar_value \<Rightarrow> scalar_value \<Rightarrow> ordering" where
  "cmp_scalar_value Null v = (case v of Null \<Rightarrow> Equal | _ \<Rightarrow> Greater)"
| "cmp_scalar_value (BoolV a) v = (case v of BoolV b \<Rightarrow> cmp a b | _ \<Rightarrow> Greater)"
| "cmp_scalar_value (Int32 a) v = (case v of Int32 b \<Rightarrow> cmp a b | _ \<Rightarrow> Greater)"
| "cmp_scalar_value (Uint8 a) v = (case v of Uint8 b \<Rightarrow> cmp a b | _ \<Rightarrow> Greater)"
| "cmp_scalar_value (Uint16 a) v = (case v of Uint16 b \<Rightarrow> cmp a b | _ \<Rightarrow> Greater)"
| "cmp_scalar_value (Uint32 a) v = (case v of Uint32 b \<Rightarrow> cmp a b | _ \<Rightarrow> Greater)"
| "cmp_scalar_value (Uint64 a) v = (case v of Uint64 b \<Rightarrow> cmp a b | _ \<Rightarrow> Greater)"
| "cmp_scalar_value (B160 a) v = (case v of B160 b \<Rightarrow> cmp a b | _ \<Rightarrow> Greater)"
| "cmp_scalar_value (B256 a) v = (case v of B256 b \<Rightarrow> cmp a b | _ \<Rightarrow> Greater)"
| "cmp_scalar_value (B384 a) v = (case v of B384 b \<Rightarrow> cmp a b | _ \<Rightarrow> Greater)"

section \<open>Binary search\<close>

text \<open>\<open>slice::binary_search_by\<close> of the standard library; \<open>f i\<close> compares the element at \<open>i\<close> with the
  target.\<close>

function search_loop :: "(nat \<Rightarrow> ordering) \<Rightarrow> nat \<Rightarrow> nat \<Rightarrow> nat" where
  "search_loop f sz base =
     (if sz > 1 then
        let half = sz div 2; mid = base + half
        in search_loop f (sz - half) (if f mid = Greater then base else mid)
      else base)"
  by pat_completeness auto
termination
  by (relation "measure (\<lambda>(f, sz, base). sz)") auto

declare search_loop.simps [simp del]

definition binary_search_by :: "('a \<Rightarrow> ordering) \<Rightarrow> 'a list \<Rightarrow> nat option" where
  "binary_search_by f xs =
     (if xs = [] then None
      else let base = search_loop (\<lambda>i. f (xs ! i)) (length xs) 0
           in if f (xs ! base) = Equal then Some base else None)"

section \<open>Bitmap indexes\<close>

record bitmap_index =
  bx_keys :: "scalar_value list"
  bx_values :: "bytes list"

type_synonym 'b bitmap_index_builder = "(scalar_value, 'b) btree_map"

datatype io_error = IoError

definition bitmap_index_insert ::
  "'b roaring \<Rightarrow> scalar_value \<Rightarrow> nat \<Rightarrow> 'b bitmap_index_builder \<Rightarrow> 'b bitmap_index_builder" where
  "bitmap_index_insert R key v builder = bt_entry (rb_empty R) key (rb_insert R v) builder"

definition bitmap_index_insert_range ::
  "'b roaring \<Rightarrow> scalar_value \<Rightarrow> nat \<Rightarrow> nat \<Rightarrow> 'b bitmap_index_builder \<Rightarrow> 'b bitmap_index_builder" where
  "bitmap_index_insert_range R key lo hi builder = bt_entry (rb_empty R) key (rb_insert_range R lo hi) builder"

fun bitmap_index_build_loop ::
  "'b roaring \<Rightarrow> (scalar_value \<times> 'b) list \<Rightarrow> bitmap_index \<Rightarrow> (bitmap_index, io_error) outcome" where
  "bitmap_index_build_loop R [] index = Ok index"
| "bitmap_index_build_loop R ((key, bitmap) # entries) index =
     (case rb_serialize R bitmap of
        None \<Rightarrow> Err IoError
      | Some out \<Rightarrow>
          bitmap_index_build_loop R entries
            (index\<lparr>bx_keys := bx_keys index @ [key], bx_values := bx_values index @ [out]\<rparr>))"

definition bitmap_index_build ::
  "'b roaring \<Rightarrow> 'b bitmap_index_builder \<Rightarrow> (bitmap_index, io_error) outcome" where
  "bitmap_index_build R builder = bitmap_index_build_loop R builder \<lparr>bx_keys = [], bx_values = []\<rparr>"

text \<open>\<open>ArchivedBitmapIndex::get\<close>: a value that does not deserialise is a panic (\<open>expect\<close>).\<close>

definition bitmap_index_get ::
  "'b roaring \<Rightarrow> bitmap_index \<Rightarrow> scalar_value \<Rightarrow> ('b option, 'e) outcome" where
  "bitmap_index_get R index key =
     (case binary_search_by (\<lambda>entry. cmp_scalar_value entry key) (bx_keys index) of
        None \<Rightarrow> Ok None
      | Some pos \<Rightarrow>
          obind (fetch (bx_values index) pos) (\<lambda>v.
          case rb_deserialize R v of None \<Rightarrow> Panic | Some b \<Rightarrow> Ok (Some b)))"

datatype index = BitmapI bitmap_index | EmptyI

section \<open>Join indexes\<close>

record join_to_one_index =
  jo_keys :: "nat list"
  jo_values :: "nat list"

record join_to_many_index =
  jm_keys :: "nat list"
  jm_values :: "bytes list"

datatype join_to = JoinOne join_to_one_index | JoinMany join_to_many_index

type_synonym join_to_one_builder = "(nat, nat) btree_map"
type_synonym 'b join_to_many_builder = "(nat, 'b) btree_map"

definition join_one_insert :: "nat \<Rightarrow> nat \<Rightarrow> join_to_one_builder \<Rightarrow> join_to_one_builder" where
  "join_one_insert key v builder = bt_insert key v builder"

definition join_one_build :: "join_to_one_builder \<Rightarrow> join_to_one_index" where
  "join_one_build builder =
     foldl (\<lambda>index (key, v). index\<lparr>jo_keys := jo_keys index @ [key], jo_values := jo_values index @ [v]\<rparr>)
       \<lparr>jo_keys = [], jo_values = []\<rparr> builder"

definition join_many_insert ::
  "'b roaring \<Rightarrow> nat \<Rightarrow> nat \<Rightarrow> 'b join_to_many_builder \<Rightarrow> 'b join_to_many_builder" where
  "join_many_insert R key v builder = bt_entry (rb_empty R) key (rb_insert R v) builder"

definition join_many_insert_range ::
  "'b roaring \<Rightarrow> nat \<Rightarrow> nat \<Rightarrow> nat \<Rightarrow> 'b join_to_many_builder \<Rightarrow> 'b join_to_many_builder" where
  "join_many_insert_range R key lo hi builder = bt_entry (rb_empty R) key (rb_insert_range R lo hi) builder"

fun join_many_build_loop ::
  "'b roaring \<Rightarrow> (nat \<times> 'b) list \<Rightarrow> join_to_many_index \<Rightarrow> (join_to_many_index, io_error) outcome" where
  "join_many_build_loop R [] index = Ok index"
| "join_many_build_loop R ((key, v) # entries) index =
     (case rb_serialize R v of
        None \<Rightarrow> Err IoError
      | Some out \<Rightarrow>
          join_many_build_loop R entries
            (index\<lparr>jm_keys := jm_keys index @ [key], jm_values := jm_values index @ [out]\<rparr>))"

definition join_many_build ::
  "'b roaring \<Rightarrow> 'b join_to_many_builder \<Rightarrow> (join_to_many_index, io_error) outcome" where
  "join_many_build R builder = join_many_build_loop R builder \<lparr>jm_keys = [], jm_values = []\<rparr>"

definition join_one_get :: "join_to_one_index \<Rightarrow> nat \<Rightarrow> (nat option, 'e) outcome" where
  "join_one_get index key =
     (case binary_search_by (\<lambda>entry. cmp entry key) (jo_keys index) of
        None \<Rightarrow> Ok None
      | Some pos \<Rightarrow> obind (fetch (jo_values index) pos) (\<lambda>v. Ok (Some v)))"

definition join_many_get :: "'b roaring \<Rightarrow> join_to_many_index \<Rightarrow> nat \<Rightarrow> ('b option, 'e) outcome" where
  "join_many_get R index key =
     (case binary_search_by (\<lambda>entry. cmp entry key) (jm_keys index) of
        None \<Rightarrow> Ok None
      | Some pos \<Rightarrow>
          obind (fetch (jm_values index) pos) (\<lambda>v.
          case rb_deserialize R v of None \<Rightarrow> Panic | Some b \<Rightarrow> Ok (Some b)))"

section \<open>Correctness of the search\<close>

text \<open>The loop keeps the last position whose element is not greater inside its window. The element
  at position 0 is only compared at the end, so it may be anything.\<close>

lemma search_loop_correct:
  assumes "0 < sz" and "base \<le> p" and "p < base + sz" and "base + sz \<le> n"
    and "\<forall>j. p < j \<and> j < n \<longrightarrow> f j = Greater" and "\<forall>j. 0 < j \<and> j \<le> p \<longrightarrow> f j \<noteq> Greater"
  shows "search_loop f sz base = p"
  using assms
proof (induction f sz base rule: search_loop.induct)
  case (1 f sz base)
  show ?case
  proof (cases "sz > 1")
    case False
    then show ?thesis using "1.prems" by (simp add: search_loop.simps [of f sz])
  next
    case True
    define half mid where "half = sz div 2" and "mid = base + half"
    have half: "0 < half" "half < sz" using True by (auto simp: half_def)
    have step: "search_loop f sz base = search_loop f (sz - half) (if f mid = Greater then base else mid)"
      using True by (simp add: search_loop.simps [of f sz] half_def mid_def Let_def)
    have "search_loop f (sz - half) (if f mid = Greater then base else mid) = p"
    proof (rule "1.IH" [OF True half_def mid_def])
      show "(if f mid = Greater then base else mid) \<le> p"
        using "1.prems" half by (auto simp: mid_def not_le)
      show "p < (if f mid = Greater then base else mid) + (sz - half)"
      proof (cases "f mid = Greater")
        case True
        then have "p < mid" using "1.prems" half by (metis add_gr_0 linorder_not_le mid_def)
        moreover have "half \<le> sz - half" by (simp add: half_def)
        ultimately show ?thesis using True by (simp add: mid_def)
      qed (use "1.prems" half in \<open>simp add: mid_def\<close>)
      show "(if f mid = Greater then base else mid) + (sz - half) \<le> n"
      proof -
        have "base + (sz - half) \<le> n" "base + half + (sz - half) \<le> n" using "1.prems"(4) half by linarith+
        then show ?thesis by (simp add: mid_def)
      qed
      show "0 < sz - half" using half by simp
    qed (use "1.prems"(5,6) in blast)+
    then show ?thesis using step by simp
  qed
qed

text \<open>Lookup in a list in which some position matches: everything after it is greater, everything
  before it, up to the first element, is not.\<close>

lemma binary_search_found:
  assumes "p < length xs" and "f (xs ! p) = Equal"
    and "\<forall>j. p < j \<and> j < length xs \<longrightarrow> f (xs ! j) = Greater"
    and "\<forall>j. 0 < j \<and> j \<le> p \<longrightarrow> f (xs ! j) \<noteq> Greater"
  shows "binary_search_by f xs = Some p"
proof -
  have "search_loop (\<lambda>i. f (xs ! i)) (length xs) 0 = p"
    using assms by (intro search_loop_correct [where n = "length xs"]) auto
  then show ?thesis using assms(1,2) by (auto simp: binary_search_by_def)
qed

lemma search_loop_bound:
  assumes "0 < sz"
  shows "search_loop f sz base < base + sz"
  using assms
proof (induction f sz base rule: search_loop.induct)
  case (1 f sz base)
  show ?case
  proof (cases "sz > 1")
    case True
    then have "0 < sz - sz div 2" "sz - sz div 2 + sz div 2 = sz" by auto
    then show ?thesis
      using "1.IH" [OF True refl refl] True
      by (subst search_loop.simps) (auto simp: Let_def split: if_splits)
  qed (use "1.prems" in \<open>simp add: search_loop.simps [of f sz]\<close>)
qed

lemma binary_search_sound:
  assumes "binary_search_by f xs = Some p"
  shows "p < length xs \<and> f (xs ! p) = Equal"
  using assms search_loop_bound [of "length xs" "\<lambda>i. f (xs ! i)" 0]
  by (auto simp: binary_search_by_def Let_def split: if_splits)

lemma cmp_simps: "cmp a b = Equal \<longleftrightarrow> a = b" "cmp a b = Greater \<longleftrightarrow> b < a" "cmp a b = Less \<longleftrightarrow> a < b"
  by (auto simp: cmp_def)

lemma binary_search_cmp:
  assumes "sorted_wrt (<) xs"
  shows "binary_search_by (\<lambda>e. cmp e k) xs = Some p \<longleftrightarrow> p < length xs \<and> xs ! p = k"
proof
  assume "binary_search_by (\<lambda>e. cmp e k) xs = Some p"
  then show "p < length xs \<and> xs ! p = k" using binary_search_sound by (fastforce simp: cmp_simps)
next
  assume p: "p < length xs \<and> xs ! p = k"
  have sorted: "\<And>i j. i < j \<Longrightarrow> j < length xs \<Longrightarrow> xs ! i < xs ! j"
    using assms by (auto simp: sorted_wrt_iff_nth_less)
  have "\<not> xs ! p < xs ! j" if "j \<le> p" for j
    using sorted [of j p] that p by (cases "j = p") auto
  then show "binary_search_by (\<lambda>e. cmp e k) xs = Some p"
    using p sorted by (intro binary_search_found) (auto simp: cmp_simps)
qed

text \<open>Keys as the ingestion produces them: strictly ascending, and of one variant apart from the first.\<close>

definition keys_ok :: "scalar_value list \<Rightarrow> bool" where
  "keys_ok keys \<longleftrightarrow> sorted_wrt (<) keys \<and>
     (\<forall>i < length keys. \<forall>j < length keys. 0 < i \<and> 0 < j \<longrightarrow> scalar_rank (keys ! i) = scalar_rank (keys ! j))"

lemma cmp_scalar_value_eq: "cmp_scalar_value a b = Equal \<longleftrightarrow> a = b"
  by (cases a; cases b) (auto simp: cmp_simps)

lemma cmp_scalar_value_same_rank:
  "scalar_rank a = scalar_rank b \<Longrightarrow> cmp_scalar_value a b = cmp a b"
  by (cases a; cases b) (auto simp: cmp_def less_scalar_value_def scalar_key_def)

lemma cmp_scalar_value_other_rank:
  "scalar_rank a \<noteq> scalar_rank b \<Longrightarrow> cmp_scalar_value a b = Greater"
  by (cases a; cases b) auto

lemma binary_search_keys:
  assumes "keys_ok keys"
  shows "binary_search_by (\<lambda>e. cmp_scalar_value e k) keys = Some p \<longleftrightarrow> p < length keys \<and> keys ! p = k"
proof
  assume "binary_search_by (\<lambda>e. cmp_scalar_value e k) keys = Some p"
  then show "p < length keys \<and> keys ! p = k"
    using binary_search_sound by (fastforce simp: cmp_scalar_value_eq)
next
  assume p: "p < length keys \<and> keys ! p = k"
  have sorted: "\<And>i j. i < j \<Longrightarrow> j < length keys \<Longrightarrow> keys ! i < keys ! j"
    using assms by (auto simp: keys_ok_def sorted_wrt_iff_nth_less)
  have rank: "\<And>i j. 0 < i \<Longrightarrow> i < length keys \<Longrightarrow> 0 < j \<Longrightarrow> j < length keys \<Longrightarrow>
      scalar_rank (keys ! i) = scalar_rank (keys ! j)"
    using assms unfolding keys_ok_def by blast
  show "binary_search_by (\<lambda>e. cmp_scalar_value e k) keys = Some p"
  proof (rule binary_search_found)
    show "\<forall>j. p < j \<and> j < length keys \<longrightarrow> cmp_scalar_value (keys ! j) k = Greater"
    proof (intro allI impI)
      fix j
      assume j: "p < j \<and> j < length keys"
      show "cmp_scalar_value (keys ! j) k = Greater"
        using sorted [of p j] j p
        by (cases "scalar_rank (keys ! j) = scalar_rank k")
          (auto simp: cmp_scalar_value_same_rank cmp_scalar_value_other_rank cmp_simps)
    qed
    show "\<forall>j. 0 < j \<and> j \<le> p \<longrightarrow> cmp_scalar_value (keys ! j) k \<noteq> Greater"
    proof (intro allI impI)
      fix j
      assume j: "0 < j \<and> j \<le> p"
      then have "scalar_rank (keys ! j) = scalar_rank k" using rank [of j p] p by auto
      moreover have "keys ! j \<le> k" using sorted [of j p] j p by (cases "j = p") auto
      ultimately show "cmp_scalar_value (keys ! j) k \<noteq> Greater"
        by (simp add: cmp_scalar_value_same_rank cmp_simps not_less)
    qed
  qed (use p in \<open>auto simp: cmp_scalar_value_eq\<close>)
qed

section \<open>Building and reading an index\<close>

lemma bitmap_index_build_loop_eq:
  assumes "bitmap_index_build_loop R entries index = Ok index'"
  shows "bx_keys index' = bx_keys index @ map fst entries \<and>
    (\<exists>vs. bx_values index' = bx_values index @ vs \<and>
       list_all2 (\<lambda>e v. rb_serialize R (snd e) = Some v) entries vs)"
  using assms
proof (induction R entries index rule: bitmap_index_build_loop.induct)
  case (2 R key bitmap entries index)
  then obtain out where out: "rb_serialize R bitmap = Some out" by (auto split: option.splits)
  let ?index = "index\<lparr>bx_keys := bx_keys index @ [key], bx_values := bx_values index @ [out]\<rparr>"
  have "bitmap_index_build_loop R entries ?index = Ok index'" using "2.prems" out by simp
  from "2.IH" [OF out this] obtain vs where "bx_keys index' = bx_keys index @ key # map fst entries"
    "bx_values index' = bx_values index @ out # vs"
    "list_all2 (\<lambda>e v. rb_serialize R (snd e) = Some v) entries vs" by auto
  then show ?case using out by (intro conjI exI [of _ "out # vs"]) simp_all
qed simp

lemma join_many_build_loop_eq:
  assumes "join_many_build_loop R entries index = Ok index'"
  shows "jm_keys index' = jm_keys index @ map fst entries \<and>
    (\<exists>vs. jm_values index' = jm_values index @ vs \<and>
       list_all2 (\<lambda>e v. rb_serialize R (snd e) = Some v) entries vs)"
  using assms
proof (induction R entries index rule: join_many_build_loop.induct)
  case (2 R key bitmap entries index)
  then obtain out where out: "rb_serialize R bitmap = Some out" by (auto split: option.splits)
  let ?index = "index\<lparr>jm_keys := jm_keys index @ [key], jm_values := jm_values index @ [out]\<rparr>"
  have "join_many_build_loop R entries ?index = Ok index'" using "2.prems" out by simp
  from "2.IH" [OF out this] obtain vs where "jm_keys index' = jm_keys index @ key # map fst entries"
    "jm_values index' = jm_values index @ out # vs"
    "list_all2 (\<lambda>e v. rb_serialize R (snd e) = Some v) entries vs" by auto
  then show ?case using out by (intro conjI exI [of _ "out # vs"]) simp_all
qed simp

lemma join_one_build_loop_eq:
  "foldl (\<lambda>index (key, v). index\<lparr>jo_keys := jo_keys index @ [key], jo_values := jo_values index @ [v]\<rparr>) i b =
    i\<lparr>jo_keys := jo_keys i @ map fst b, jo_values := jo_values i @ map snd b\<rparr>"
  by (induction b arbitrary: i) auto

lemma join_one_build_eq: "join_one_build b = \<lparr>jo_keys = map fst b, jo_values = map snd b\<rparr>"
  unfolding join_one_build_def join_one_build_loop_eq by simp

lemma sorted_nth_unique:
  assumes "sorted_wrt (<) (xs :: 'a :: linorder list)" and "i < length xs" "j < length xs" "xs ! i = xs ! j"
  shows "i = j"
  using assms by (metis linorder_neqE_nat order_less_irrefl sorted_wrt_nth_less)

text \<open>A list of entries searched by key, with a search that finds exactly the position of the key.\<close>

lemma lookup_by_position:
  assumes "bt_ok entries" and search: "\<And>p. pos = Some p \<longleftrightarrow> p < length entries \<and> map fst entries ! p = key"
  shows "bt_get entries key = (case pos of None \<Rightarrow> None | Some p \<Rightarrow> Some (snd (entries ! p)))"
proof (cases pos)
  case None
  then have "key \<notin> set (map fst entries)" using search by (metis in_set_conv_nth length_map option.distinct(1))
  then show ?thesis using None by (simp add: bt_get_def map_of_eq_None_iff)
next
  case (Some p)
  then have p: "p < length entries" "fst (entries ! p) = key" using search [of p] by auto
  then have "(key, snd (entries ! p)) \<in> set entries" by (metis nth_mem prod.collapse)
  then show ?thesis using assms(1) Some by (simp add: bt_get_iff_mem)
qed

context roaring_bitmap
begin

lemma read_serialized:
  assumes "list_all2 (\<lambda>e v. rb_serialize R (snd e) = Some v) entries vs" and "p < length entries"
  shows "p < length vs \<and> (\<exists>b'. rb_deserialize R (vs ! p) = Some b' \<and>
    rb_iter R b' = rb_iter R (snd (entries ! p)))"
  using assms list_all2_lengthD [OF assms(1)] list_all2_nthD [OF assms] serialize_inverse by auto

lemma bitmap_index_get_built:
  assumes "bt_ok builder" and "keys_ok (bt_keys builder)" and "bitmap_index_build R builder = Ok index"
  shows "case bt_get builder key of
      None \<Rightarrow> bitmap_index_get R index key = Ok None
    | Some b \<Rightarrow> \<exists>b'. bitmap_index_get R index key = Ok (Some b') \<and> rb_iter R b' = rb_iter R b"
proof -
  obtain vs where keys: "bx_keys index = map fst builder" and vs: "bx_values index = vs"
    and ser: "list_all2 (\<lambda>e v. rb_serialize R (snd e) = Some v) builder vs"
    using bitmap_index_build_loop_eq [OF assms(3) [unfolded bitmap_index_build_def]] by auto
  define pos where "pos = binary_search_by (\<lambda>entry. cmp_scalar_value entry key) (map fst builder)"
  have search: "pos = Some p \<longleftrightarrow> p < length builder \<and> map fst builder ! p = key" for p
    using binary_search_keys [of "map fst builder" key p] assms(2) by (simp add: pos_def bt_keys_def)
  show ?thesis
  proof (cases pos)
    case None
    then show ?thesis
      using lookup_by_position [OF assms(1) search] keys
      by (simp add: bitmap_index_get_def flip: pos_def)
  next
    case (Some p)
    then have p: "p < length builder" using search by blast
    then obtain b' where "p < length vs" "rb_deserialize R (vs ! p) = Some b'"
      "rb_iter R b' = rb_iter R (snd (builder ! p))"
      using read_serialized [OF ser] by blast
    then show ?thesis
      using lookup_by_position [OF assms(1) search] keys vs Some
      by (simp add: bitmap_index_get_def flip: pos_def)
  qed
qed

lemma join_many_get_built:
  assumes "bt_ok builder" and "join_many_build R builder = Ok index"
  shows "case bt_get builder key of
      None \<Rightarrow> join_many_get R index key = Ok None
    | Some b \<Rightarrow> \<exists>b'. join_many_get R index key = Ok (Some b') \<and> rb_iter R b' = rb_iter R b"
proof -
  obtain vs where keys: "jm_keys index = map fst builder" and vs: "jm_values index = vs"
    and ser: "list_all2 (\<lambda>e v. rb_serialize R (snd e) = Some v) builder vs"
    using join_many_build_loop_eq [OF assms(2) [unfolded join_many_build_def]] by auto
  define pos where "pos = binary_search_by (\<lambda>entry. cmp entry key) (map fst builder)"
  have search: "pos = Some p \<longleftrightarrow> p < length builder \<and> map fst builder ! p = key" for p
    using binary_search_cmp [of "map fst builder" key p] assms(1) by (simp add: pos_def bt_ok_def)
  show ?thesis
  proof (cases pos)
    case None
    then show ?thesis
      using lookup_by_position [OF assms(1) search] keys
      by (simp add: join_many_get_def flip: pos_def)
  next
    case (Some p)
    then have p: "p < length builder" using search by blast
    then obtain b' where "p < length vs" "rb_deserialize R (vs ! p) = Some b'"
      "rb_iter R b' = rb_iter R (snd (builder ! p))"
      using read_serialized [OF ser] by blast
    then show ?thesis
      using lookup_by_position [OF assms(1) search] keys vs Some
      by (simp add: join_many_get_def flip: pos_def)
  qed
qed

end

lemma join_one_get_built: "bt_ok builder \<Longrightarrow> join_one_get (join_one_build builder) key = Ok (bt_get builder key)"
proof -
  assume ok: "bt_ok builder"
  define pos where "pos = binary_search_by (\<lambda>entry. cmp entry key) (map fst builder)"
  have search: "pos = Some p \<longleftrightarrow> p < length builder \<and> map fst builder ! p = key" for p
    using binary_search_cmp [of "map fst builder" key p] ok by (simp add: pos_def bt_ok_def)
  show ?thesis
  proof (cases pos)
    case None
    then show ?thesis
      using lookup_by_position [OF ok search] by (simp add: join_one_get_def join_one_build_eq flip: pos_def)
  next
    case (Some p)
    then have "p < length builder" using search by blast
    then show ?thesis
      using lookup_by_position [OF ok search] Some by (simp add: join_one_get_def join_one_build_eq flip: pos_def)
  qed
qed

section \<open>A reference bitmap\<close>

text \<open>Lists of numbers, iterated in ascending order and stored as big-endian words.\<close>

definition list_iter :: "nat list \<Rightarrow> nat list" where
  "list_iter b = sort (remdups b)"

fun read_words :: "bytes \<Rightarrow> nat list option" where
  "read_words [] = Some []"
| "read_words (a # b # c # d # bs) = map_option (\<lambda>ns. get_u32 [a, b, c, d] # ns) (read_words bs)"
| "read_words _ = None"

definition list_roaring :: "nat list roaring" where
  "list_roaring = \<lparr>
     rb_empty = [], rb_insert = (\<lambda>x b. x # b), rb_insert_range = (\<lambda>lo hi b. [lo..<hi] @ b),
     rb_from_range = (\<lambda>lo hi. [lo..<hi]), rb_and = (\<lambda>a b. filter (\<lambda>x. x \<in> set b) a), rb_or = (\<lambda>a b. a @ b),
     rb_iter = list_iter,
     rb_serialize = (\<lambda>b. if list_all (\<lambda>x. x < 2 ^ 32) b then Some (concat (map put_u32 (list_iter b))) else None),
     rb_deserialize = read_words\<rparr>"

lemma set_list_iter [simp]: "set (list_iter b) = set b"
  by (simp add: list_iter_def)

lemma list_iter_sorted: "sorted_wrt (<) (list_iter b)"
  by (metis distinct_remdups distinct_sort list_iter_def sorted_sort strict_sorted_iff)

lemma put_u32_shape: "\<exists>a b c d. put_u32 x = [a, b, c, d]"
  by (simp add: put_u32_def)

lemma read_words_written: "\<forall>x \<in> set xs. x < 2 ^ 32 \<Longrightarrow> read_words (concat (map put_u32 xs)) = Some xs"
proof (induction xs)
  case (Cons x xs)
  obtain a b c d where x: "put_u32 x = [a, b, c, d]" using put_u32_shape by blast
  moreover have "get_u32 (put_u32 x) = x" using Cons.prems by (intro get_u32_put_u32) simp
  ultimately show ?case using Cons by simp
qed simp

lemma list_iter_fixed: "sorted_wrt (<) xs \<Longrightarrow> list_iter xs = xs"
  by (metis list_iter_def list_iter_sorted set_list_iter strict_sorted_equal)

interpretation listbm: roaring_bitmap list_roaring
proof unfold_locales
  fix b bs
  assume "rb_serialize list_roaring b = Some bs"
  then have "\<forall>x \<in> set (list_iter b). x < 2 ^ 32" "bs = concat (map put_u32 (list_iter b))"
    by (auto simp: list_roaring_def list_all_iff split: if_splits)
  then have "read_words bs = Some (list_iter b)" using read_words_written by blast
  then show "\<exists>b'. rb_deserialize list_roaring bs = Some b' \<and> rb_iter list_roaring b' = rb_iter list_roaring b"
    using list_iter_fixed [OF list_iter_sorted] by (simp add: list_roaring_def)
qed (auto simp: list_roaring_def list_iter_sorted list_iter_def [of "[]"])

section \<open>Values inserted are the values read\<close>

text \<open>The elements behind a lookup result; a missing key has none.\<close>

definition elements :: "'b roaring \<Rightarrow> 'b option \<Rightarrow> nat set" where
  "elements R r = (case r of None \<Rightarrow> {} | Some b \<Rightarrow> set (rb_iter R b))"

definition bitmap_index_of :: "'b roaring \<Rightarrow> (scalar_value \<times> nat) list \<Rightarrow> 'b bitmap_index_builder" where
  "bitmap_index_of R kvs = foldl (\<lambda>builder (key, v). bitmap_index_insert R key v builder) [] kvs"

definition join_one_of :: "(nat \<times> nat) list \<Rightarrow> join_to_one_builder" where
  "join_one_of kvs = foldl (\<lambda>builder (key, v). join_one_insert key v builder) [] kvs"

definition join_many_of :: "'b roaring \<Rightarrow> (nat \<times> nat) list \<Rightarrow> 'b join_to_many_builder" where
  "join_many_of R kvs = foldl (\<lambda>builder (key, v). join_many_insert R key v builder) [] kvs"

lemmas insert_defs = bitmap_index_insert_def join_many_insert_def join_one_insert_def

lemma elements_simps [simp]: "elements R None = {}" "elements R (Some b) = set (rb_iter R b)"
  by (simp_all add: elements_def)

lemma not_less_Null [simp]: "\<not> v < Null"
  by (cases v) (auto simp: less_scalar_value_def scalar_key_def)

text \<open>Keys of one variant, possibly with \<^term>\<open>Null\<close>, satisfy the search's requirement.\<close>

lemma keys_ok_one_variant:
  assumes "sorted_wrt (<) keys" and "\<forall>k \<in> set keys. k = Null \<or> scalar_rank k = n"
  shows "keys_ok keys"
proof -
  have "scalar_rank (keys ! i) = n" if "0 < i" "i < length keys" for i
    using that assms sorted_wrt_nth_less [OF assms(1), of 0 i] by (metis not_less_Null nth_mem)
  then show ?thesis using assms(1) by (auto simp: keys_ok_def)
qed

lemma bt_ok_bitmap_index_of: "bt_ok (bitmap_index_of R kvs)"
  and bt_ok_join_many_of: "bt_ok (join_many_of R kvs')"
  by (induction kvs rule: rev_induct; induction kvs' rule: rev_induct;
      auto simp: bitmap_index_of_def join_many_of_def insert_defs)+

lemma keys_bitmap_index_of: "set (bt_keys (bitmap_index_of R kvs)) = fst ` set kvs"
proof (induction kvs rule: rev_induct)
  case (snoc e kvs)
  have "bitmap_index_of R (kvs @ [e]) = bitmap_index_insert R (fst e) (snd e) (bitmap_index_of R kvs)"
    by (simp add: bitmap_index_of_def split_beta)
  then show ?case
    using snoc by (simp add: bitmap_index_insert_def bt_entry_def bt.keys_insert [OF bt_ok_bitmap_index_of])
qed (simp add: bitmap_index_of_def bt_keys_def)

lemma join_one_of_get: "bt_ok (join_one_of kvs) \<and> bt_get (join_one_of kvs) key = map_of (rev kvs) key"
  by (induction kvs rule: rev_induct) (auto simp: join_one_of_def insert_defs)

context roaring_bitmap
begin

lemma entry_elements:
  "bt_ok m \<Longrightarrow> elements R (bt_get (bt_entry (rb_empty R) k (rb_insert R v) m) k') =
    (if k' = k then insert v (elements R (bt_get m k)) else elements R (bt_get m k'))"
  by (simp add: bt_get_or_def iter_insert iter_empty split: option.splits)

lemma bitmap_index_of_elements: "elements R (bt_get (bitmap_index_of R kvs) key) = {v. (key, v) \<in> set kvs}"
proof (induction kvs rule: rev_induct)
  case (snoc e kvs)
  have "bitmap_index_of R (kvs @ [e]) = bitmap_index_insert R (fst e) (snd e) (bitmap_index_of R kvs)"
    by (simp add: bitmap_index_of_def split_beta)
  then show ?case
    using snoc by (cases e) (auto simp: bitmap_index_insert_def entry_elements [OF bt_ok_bitmap_index_of])
qed (simp add: bitmap_index_of_def)

lemma join_many_of_elements: "elements R (bt_get (join_many_of R kvs) key) = {v. (key, v) \<in> set kvs}"
proof (induction kvs rule: rev_induct)
  case (snoc e kvs)
  have "join_many_of R (kvs @ [e]) = join_many_insert R (fst e) (snd e) (join_many_of R kvs)"
    by (simp add: join_many_of_def split_beta)
  then show ?case
    using snoc by (cases e) (auto simp: join_many_insert_def entry_elements [OF bt_ok_join_many_of])
qed (simp add: join_many_of_def)

lemma bitmap_index_get_elements:
  assumes "bt_ok builder" and "keys_ok (bt_keys builder)" and "bitmap_index_build R builder = Ok index"
  shows "\<exists>r. bitmap_index_get R index key = Ok r \<and> elements R r = elements R (bt_get builder key) \<and>
    (r = None \<longleftrightarrow> bt_get builder key = None)"
  using bitmap_index_get_built [OF assms, of key] by (cases "bt_get builder key") auto

lemma join_many_get_elements:
  assumes "bt_ok builder" and "join_many_build R builder = Ok index"
  shows "\<exists>r. join_many_get R index key = Ok r \<and> elements R r = elements R (bt_get builder key)"
  using join_many_get_built [OF assms, of key] by (cases "bt_get builder key") auto

end

text \<open>C28: A bitmap index built from inserted (key, value) pairs, with keys of one variant (and
  possibly null), returns for every key exactly the values inserted under it; it does not panic.\<close>

theorem bitmap_index_roundtrip:
  assumes "roaring_bitmap R" and "\<forall>kv \<in> set kvs. fst kv = Null \<or> scalar_rank (fst kv) = n"
    and "bitmap_index_build R (bitmap_index_of R kvs) = Ok index"
  shows "\<exists>r. bitmap_index_get R index key = Ok r \<and> elements R r = {v. (key, v) \<in> set kvs}"
proof -
  have "keys_ok (bt_keys (bitmap_index_of R kvs))"
    using assms(2) keys_bitmap_index_of [of R kvs]
    by (intro keys_ok_one_variant [where n = n] bt_keys_sorted bt_ok_bitmap_index_of) auto
  then show ?thesis
    using roaring_bitmap.bitmap_index_get_elements [OF assms(1) bt_ok_bitmap_index_of _ assms(3), of key]
      roaring_bitmap.bitmap_index_of_elements [OF assms(1)] by auto
qed

definition demo_kvs :: "(scalar_value \<times> nat) list" where
  "demo_kvs = [(Uint8 3, 10), (Null, 4), (Uint8 3, 2), (Uint8 1, 7)]"

lemmas demo_index_simps = demo_kvs_def bitmap_index_of_def bitmap_index_insert_def bitmap_index_build_def
  bt_entry_def bt_get_or_def bt_get_def less_scalar_value_def scalar_key_def list_roaring_def list_iter_def

theorem bitmap_index_roundtrip_witness:
  "\<exists>index r. bitmap_index_build list_roaring (bitmap_index_of list_roaring demo_kvs) = Ok index \<and>
     bitmap_index_get list_roaring index (Uint8 3) = Ok r \<and> elements list_roaring r = {2, 10}"
proof -
  obtain index where index: "bitmap_index_build list_roaring (bitmap_index_of list_roaring demo_kvs) = Ok index"
    by (simp add: demo_index_simps)
  have "\<forall>kv \<in> set demo_kvs. fst kv = Null \<or> scalar_rank (fst kv) = 3" by (simp add: demo_kvs_def)
  from bitmap_index_roundtrip [OF listbm.roaring_bitmap_axioms this index, of "Uint8 3"]
  show ?thesis using index by (auto simp: demo_kvs_def)
qed

text \<open>C29: Join indexes return what was inserted: a join-to-one index the last value of a key, a
  join-to-many index all the values of a key.\<close>

theorem join_index_roundtrip:
  assumes "roaring_bitmap R" and "join_many_build R (join_many_of R kvs) = Ok many"
  shows "(join_one_get (join_one_build (join_one_of kvs)) key :: (nat option, io_error) outcome) =
      Ok (map_of (rev kvs) key) \<and>
    (\<exists>r. (join_many_get R many key :: ('b option, io_error) outcome) = Ok r \<and>
       elements R r = {v. (key, v) \<in> set kvs})"
  using join_one_get_built [of "join_one_of kvs" key] join_one_of_get [of kvs key]
    roaring_bitmap.join_many_get_elements [OF assms(1) bt_ok_join_many_of assms(2), of key]
    roaring_bitmap.join_many_of_elements [OF assms(1)] by auto

theorem join_index_roundtrip_witness:
  "\<exists>many r. join_many_build list_roaring (join_many_of list_roaring [(5, 1), (5, 0), (2, 8)]) = Ok many \<and>
     join_one_get (join_one_build (join_one_of [(5, 1), (5, 0), (2, 8)])) 5 = (Ok (Some 0) :: (nat option, io_error) outcome) \<and>
     (join_many_get list_roaring many 5 :: (nat list option, io_error) outcome) = Ok r \<and> elements list_roaring r = {0, 1}"
proof -
  obtain many where many: "join_many_build list_roaring (join_many_of list_roaring [(5, 1), (5, 0), (2, 8)]) = Ok many"
    by (simp add: join_many_of_def join_many_build_def join_many_insert_def bt_entry_def bt_get_or_def bt_get_def
        list_roaring_def list_iter_def)
  from join_index_roundtrip [OF listbm.roaring_bitmap_axioms this, of 5] show ?thesis using many by auto
qed

end
