(* ===== verification/Query.thy ===== *)
theory Query
  imports Bitmap Cursor
begin

text \<open>
  Fragments, segments and filters: \<open>common/src/fragment.rs\<close>, \<open>common/src/segment.rs\<close>,
  \<open>common/src/query.rs\<close> and \<open>common/src/data_stream/filter.rs\<close>. A filter evaluated on an index fragment
  is the intersection of the bitmaps of its conditions; a \<open>FilterMatch\<close> collects, for every row,
  the filters that select it.
\<close>

section \<open>Fragments\<close>

type_synonym fragment_id = nat
type_synonym index_id = nat
type_synonym filter_id = nat
type_synonym serialized_proto = bytes

definition INDEX_FRAGMENT_ID :: fragment_id where "INDEX_FRAGMENT_ID = 0"
definition INDEX_FRAGMENT_NAME :: string where "INDEX_FRAGMENT_NAME = ''index''"
definition JOIN_FRAGMENT_ID :: fragment_id where "JOIN_FRAGMENT_ID = 255"
definition JOIN_FRAGMENT_NAME :: string where "JOIN_FRAGMENT_NAME = ''join''"
definition HEADER_FRAGMENT_ID :: fragment_id where "HEADER_FRAGMENT_ID = 1"
definition HEADER_FRAGMENT_NAME :: string where "HEADER_FRAGMENT_NAME = ''header''"

lemmas fragment_names = INDEX_FRAGMENT_ID_def JOIN_FRAGMENT_ID_def HEADER_FRAGMENT_ID_def
  INDEX_FRAGMENT_NAME_def JOIN_FRAGMENT_NAME_def HEADER_FRAGMENT_NAME_def

record fragment_info =
  fi_fragment_id :: fragment_id
  fi_name :: string

record index_entry =
  ie_index_id :: index_id
  ie_index :: index

record index_fragment =
  ixf_fragment_id :: fragment_id
  ixf_range_start :: nat
  ixf_range_len :: nat
  ixf_indexes :: "index_entry list"

record index_group_fragment =
  igf_indexes :: "index_fragment list"

record join_entry =
  je_to_fragment_id :: fragment_id
  je_index :: join_to

record join_fragment =
  jf_fragment_id :: fragment_id
  jf_joins :: "join_entry list"

record join_group_fragment =
  jgf_joins :: "join_fragment list"

record header_fragment =
  hf_data :: serialized_proto

record body_fragment =
  bf_fragment_id :: fragment_id
  bf_name :: string
  bf_data :: "serialized_proto list"

record block =
  blk_header :: header_fragment
  blk_index :: index_group_fragment
  blk_join :: join_group_fragment
  blk_body :: "body_fragment list"

definition index_group_is_empty :: "index_group_fragment \<Rightarrow> bool" where
  "index_group_is_empty g \<longleftrightarrow> igf_indexes g = []"

definition index_group_len :: "index_group_fragment \<Rightarrow> nat" where
  "index_group_len g = length (igf_indexes g)"

section \<open>Segments\<close>

record 'a fragment_data =
  fd_cursor :: cursor
  fd_data :: 'a

record 'a segment =
  seg_first_block :: cursor
  seg_data :: "'a fragment_data list"

record segment_group =
  sg_first_block :: cursor
  sg_index :: index_group_fragment

record serialized_segment =
  ss_name :: string
  ss_data :: bytes

section \<open>Filters\<close>

datatype header_filter = Always | OnData | OnDataOrOnNewBlock

record condition =
  co_index_id :: index_id
  co_key :: scalar_value

record block_item_filter =
  flt_filter_id :: filter_id
  flt_fragment_id :: fragment_id
  flt_conditions :: "condition list"
  flt_joins :: "fragment_id list"

record block_filter =
  blf_header_filter :: header_filter
  blf_filters :: "(fragment_id, block_item_filter list) btree_map"

definition default_block_filter :: block_filter where
  "default_block_filter = \<lparr>blf_header_filter = OnDataOrOnNewBlock, blf_filters = []\<rparr>"

definition always_include_header :: "block_filter \<Rightarrow> bool" where
  "always_include_header bf \<longleftrightarrow> blf_header_filter bf = Always"

definition block_filter_is_empty :: "block_filter \<Rightarrow> bool" where
  "block_filter_is_empty bf \<longleftrightarrow> blf_filters bf = []"

definition block_filter_len :: "block_filter \<Rightarrow> nat" where
  "block_filter_len bf = length (blf_filters bf)"

definition can_produce_data :: "block_filter \<Rightarrow> bool" where
  "can_produce_data bf \<longleftrightarrow> always_include_header bf \<or> \<not> block_filter_is_empty bf"

definition set_header_filter :: "header_filter \<Rightarrow> block_filter \<Rightarrow> block_filter" where
  "set_header_filter v bf = bf\<lparr>blf_header_filter := v\<rparr>"

definition add_filter :: "block_item_filter \<Rightarrow> block_filter \<Rightarrow> block_filter" where
  "add_filter flt bf =
     bf\<lparr>blf_filters := bt_entry [] (flt_fragment_id flt) (\<lambda>fs. fs @ [flt]) (blf_filters bf)\<rparr>"

text \<open>The hash set of fragment ids as a set.\<close>

definition all_fragment_ids :: "block_filter \<Rightarrow> fragment_id set" where
  "all_fragment_ids bf =
     foldl (\<lambda>out (fragment_id, filters).
       foldl (\<lambda>out flt. out \<union> set (flt_joins flt)) (insert fragment_id out) filters) {} (blf_filters bf)"

datatype filter_error = FilterError

text \<open>\<open>Filter::filter\<close>: the loop over the conditions; a key that is not in its index clears the result
  and leaves the loop.\<close>

fun filter_loop ::
  "'b roaring \<Rightarrow> index_entry list \<Rightarrow> condition list \<Rightarrow> 'b \<Rightarrow> ('b, filter_error) outcome" where
  "filter_loop R indexes [] result = Ok result"
| "filter_loop R indexes (cond # conds) result =
     (if co_index_id cond < length indexes then
        (case ie_index (indexes ! co_index_id cond) of
           EmptyI \<Rightarrow> filter_loop R indexes conds result
         | BitmapI bitmap \<Rightarrow>
             obind (bitmap_index_get R bitmap (co_key cond)) (\<lambda>found.
             case found of
               Some b \<Rightarrow> filter_loop R indexes conds (rb_and R result b)
             | None \<Rightarrow> Ok (rb_empty R)))
      else Err FilterError)"

definition filter_rows ::
  "'b roaring \<Rightarrow> block_item_filter \<Rightarrow> index_fragment \<Rightarrow> ('b, filter_error) outcome" where
  "filter_rows R flt indexes =
     (let range_start = ixf_range_start indexes; range_len = ixf_range_len indexes
      in filter_loop R (ixf_indexes indexes) (flt_conditions flt)
           (rb_from_range R range_start (as_u32 (range_start + range_len))))"

section \<open>Matches\<close>

text \<open>\<open>FilterMatch\<close>: for every row, in ascending order, the hash set of filters that select it.\<close>

type_synonym filter_match = "(nat, filter_id set) btree_map"

definition add_single_match :: "filter_id \<Rightarrow> nat \<Rightarrow> filter_match \<Rightarrow> filter_match" where
  "add_single_match filter_id ix m = bt_entry {} ix (insert filter_id) m"

definition add_match :: "'b roaring \<Rightarrow> filter_id \<Rightarrow> 'b \<Rightarrow> filter_match \<Rightarrow> filter_match" where
  "add_match R filter_id bitmap m =
     foldl (\<lambda>m ix. bt_entry {} ix (insert filter_id) m) m (rb_iter R bitmap)"

section \<open>What a filter selects\<close>

text \<open>Whether a row satisfies a condition, by the contents of the index it names: an empty index does
  not constrain.\<close>

definition row_satisfies :: "'b roaring \<Rightarrow> index_entry list \<Rightarrow> condition \<Rightarrow> nat \<Rightarrow> bool" where
  "row_satisfies R indexes cond row =
     (case ie_index (indexes ! co_index_id cond) of
        EmptyI \<Rightarrow> True
      | BitmapI bitmap \<Rightarrow>
          (case (bitmap_index_get R bitmap (co_key cond) :: (_, filter_error) outcome) of Ok r \<Rightarrow> row \<in> elements R r | _ \<Rightarrow> False))"

text \<open>Every value of the index can be read.\<close>

definition index_readable :: "'b roaring \<Rightarrow> index \<Rightarrow> bool" where
  "index_readable R ix =
     (case ix of EmptyI \<Rightarrow> True
      | BitmapI bitmap \<Rightarrow> length (bx_keys bitmap) \<le> length (bx_values bitmap) \<and>
          list_all (\<lambda>v. rb_deserialize R v \<noteq> None) (bx_values bitmap))"

definition fragment_readable :: "'b roaring \<Rightarrow> index_fragment \<Rightarrow> bool" where
  "fragment_readable R fr \<longleftrightarrow> list_all (\<lambda>e. index_readable R (ie_index e)) (ixf_indexes fr)"

lemma bitmap_index_get_readable:
  assumes "index_readable R (BitmapI bitmap)"
  shows "\<exists>r. bitmap_index_get R bitmap key = Ok r"
proof (cases "binary_search_by (\<lambda>entry. cmp_scalar_value entry key) (bx_keys bitmap)")
  case None
  then show ?thesis by (simp add: bitmap_index_get_def)
next
  case (Some pos)
  then have "pos < length (bx_values bitmap)"
    using assms binary_search_sound by (fastforce simp: index_readable_def)
  moreover from this have "rb_deserialize R (bx_values bitmap ! pos) \<noteq> None"
    using assms by (simp add: index_readable_def list_all_length)
  ultimately show ?thesis using Some by (auto simp: bitmap_index_get_def)
qed

lemma build_loop_readable:
  assumes "roaring_bitmap R" and "bitmap_index_build R builder = Ok bitmap"
  shows "index_readable R (BitmapI bitmap)"
proof -
  obtain vs where "bx_keys bitmap = map fst builder" and vs: "bx_values bitmap = vs"
    and ser: "list_all2 (\<lambda>e v. rb_serialize R (snd e) = Some v) builder vs"
    using bitmap_index_build_loop_eq [OF assms(2) [unfolded bitmap_index_build_def]] by auto
  moreover have "rb_deserialize R (vs ! i) \<noteq> None" if "i < length vs" for i
    using that list_all2_nthD2 [OF ser that] roaring_bitmap.serialize_inverse [OF assms(1)] by fastforce
  ultimately show ?thesis
    using list_all2_lengthD [OF ser] by (simp add: index_readable_def list_all_length)
qed

context roaring_bitmap
begin

lemma filter_loop_rows:
  assumes "\<forall>c \<in> set conds. co_index_id c < length indexes"
    and "\<forall>e \<in> set indexes. index_readable R (ie_index e)"
  shows "\<exists>b. filter_loop R indexes conds result = Ok b \<and>
    (\<forall>row. row \<in> set (rb_iter R b) \<longleftrightarrow>
       row \<in> set (rb_iter R result) \<and> (\<forall>c \<in> set conds. row_satisfies R indexes c row))"
  using assms(1)
proof (induction conds arbitrary: result)
  case (Cons c conds)
  have c: "co_index_id c < length indexes" and conds: "\<forall>c \<in> set conds. co_index_id c < length indexes"
    using Cons.prems by auto
  show ?case
  proof (cases "ie_index (indexes ! co_index_id c)")
    case EmptyI
    then have "row_satisfies R indexes c row" for row by (simp add: row_satisfies_def)
    then show ?thesis using Cons.IH [OF conds, of result] c EmptyI by simp
  next
    case (BitmapI bitmap)
    then have "index_readable R (BitmapI bitmap)" using assms(2) c by (metis nth_mem)
    then obtain r where r: "bitmap_index_get R bitmap (co_key c) = (Ok r :: (_, filter_error) outcome)"
      using bitmap_index_get_readable by blast
    have sat: "row_satisfies R indexes c row \<longleftrightarrow> row \<in> elements R r" for row
      using BitmapI r by (simp add: row_satisfies_def bitmap_index_get_def split: option.splits)
    show ?thesis
    proof (cases r)
      case None
      then show ?thesis using c BitmapI r sat by (simp add: iter_empty)
    next
      case (Some b)
      then show ?thesis
        using Cons.IH [OF conds, of "rb_and R result b"] c BitmapI r sat by (auto simp: iter_and)
    qed
  qed
qed simp

end

lemma filter_loop_missing:
  assumes "c \<in> set conds" and "\<not> co_index_id c < length indexes"
  shows "case filter_loop R indexes conds result of Ok b \<Rightarrow> b = rb_empty R | _ \<Rightarrow> True"
  using assms
proof (induction conds arbitrary: result)
  case (Cons d conds)
  show ?case
  proof (cases "co_index_id d < length indexes")
    case False
    then show ?thesis by simp
  next
    case True
    then have IH: "case filter_loop R indexes conds b of Ok b \<Rightarrow> b = rb_empty R | _ \<Rightarrow> True" for b
      using Cons by auto
    show ?thesis
    proof (cases "ie_index (indexes ! co_index_id d)")
      case EmptyI
      then show ?thesis using True IH by simp
    next
      case (BitmapI bitmap)
      then show ?thesis
        using True IH by (cases "bitmap_index_get R bitmap (co_key d) :: (_, filter_error) outcome")
          (auto split: option.splits)
    qed
  qed
qed simp

lemma row_range: "roaring_bitmap R \<Longrightarrow> a + n < u32_lim \<Longrightarrow>
    row \<in> set (rb_iter R (rb_from_range R a (as_u32 (a + n)))) \<longleftrightarrow> a \<le> row \<and> row < a + n"
  by (simp add: roaring_bitmap.iter_from_range as_u32_small)

lemma filter_rows_spec:
  assumes R: "roaring_bitmap R" and "fragment_readable R fr"
    and "\<forall>c \<in> set (flt_conditions flt). co_index_id c < length (ixf_indexes fr)"
    and range: "ixf_range_start fr + ixf_range_len fr < u32_lim"
  shows "\<exists>b. filter_rows R flt fr = Ok b \<and>
    (\<forall>row. row \<in> set (rb_iter R b) \<longleftrightarrow>
       ixf_range_start fr \<le> row \<and> row < ixf_range_start fr + ixf_range_len fr \<and>
       (\<forall>c \<in> set (flt_conditions flt). row_satisfies R (ixf_indexes fr) c row))"
  using roaring_bitmap.filter_loop_rows [OF R assms(3),
      where result = "rb_from_range R (ixf_range_start fr) (as_u32 (ixf_range_start fr + ixf_range_len fr))"]
    assms(2) row_range [OF R range]
  by (simp add: filter_rows_def Let_def fragment_readable_def list_all_iff)

text \<open>C13: A filter evaluated on a fragment selects exactly the rows of the fragment's range that satisfy
  every condition by the contents of the condition's index, in ascending order and without
  panicking. If a condition names an index the fragment does not have, the evaluation fails or
  selects nothing; it never selects a row.\<close>

theorem filter_selects:
  assumes "roaring_bitmap R" and "fragment_readable R fr"
    and "ixf_range_start fr + ixf_range_len fr < u32_lim"
  shows "if list_all (\<lambda>c. co_index_id c < length (ixf_indexes fr)) (flt_conditions flt)
    then \<exists>b. filter_rows R flt fr = Ok b \<and> sorted_wrt (<) (rb_iter R b) \<and>
      set (rb_iter R b) = {row. ixf_range_start fr \<le> row \<and> row < ixf_range_start fr + ixf_range_len fr \<and>
         list_all (\<lambda>c. row_satisfies R (ixf_indexes fr) c row) (flt_conditions flt)}
    else case filter_rows R flt fr of Ok b \<Rightarrow> rb_iter R b = [] | _ \<Rightarrow> True"
proof (cases "list_all (\<lambda>c. co_index_id c < length (ixf_indexes fr)) (flt_conditions flt)")
  case True
  then show ?thesis
    using filter_rows_spec [OF assms(1,2) _ assms(3), of flt] roaring_bitmap.iter_sorted [OF assms(1)]
    by (auto simp: list_all_iff)
next
  case False
  then obtain c where "c \<in> set (flt_conditions flt)" "\<not> co_index_id c < length (ixf_indexes fr)"
    by (auto simp: list_all_iff)
  from filter_loop_missing [OF this, of R] have "b = rb_empty R" if "filter_rows R flt fr = Ok b" for b
    using that by (fastforce simp: filter_rows_def Let_def split: outcome.splits)
  then show ?thesis
    using False roaring_bitmap.iter_empty [OF assms(1)] by (cases "filter_rows R flt fr") simp_all
qed

section \<open>What a match holds\<close>

definition matched :: "filter_match \<Rightarrow> (nat \<times> filter_id) set" where
  "matched m = {(row, filter_id). \<exists>s. bt_get m row = Some s \<and> filter_id \<in> s}"

definition match_ok :: "filter_match \<Rightarrow> bool" where
  "match_ok m \<longleftrightarrow> bt_ok m \<and> (\<forall>row s. bt_get m row = Some s \<longrightarrow> s \<noteq> {})"

lemma match_ok_Nil [simp]: "match_ok []" and matched_Nil [simp]: "matched [] = {}"
  by (simp_all add: match_ok_def matched_def)

lemma match_ok_entry: "match_ok m \<Longrightarrow> match_ok (bt_entry {} row (insert f) m)"
  by (auto simp: match_ok_def split: if_splits)

lemma matched_entry: "match_ok m \<Longrightarrow> matched (bt_entry {} row (insert f) m) = insert (row, f) (matched m)"
  by (auto simp: match_ok_def matched_def bt_get_or_def split: option.splits if_splits)

lemma add_match_loop:
  "match_ok m \<Longrightarrow> match_ok (foldl (\<lambda>m ix. bt_entry {} ix (insert f) m) m rows) \<and>
    matched (foldl (\<lambda>m ix. bt_entry {} ix (insert f) m) m rows) = matched m \<union> set rows \<times> {f}"
  by (induction rows arbitrary: m) (auto simp: match_ok_entry matched_entry)

lemma add_match_ok [simp]: "match_ok m \<Longrightarrow> match_ok (add_match R f b m)"
  and matched_add_match: "match_ok m \<Longrightarrow> matched (add_match R f b m) = matched m \<union> set (rb_iter R b) \<times> {f}"
  and add_single_match_ok [simp]: "match_ok m \<Longrightarrow> match_ok (add_single_match f row m)"
  and matched_add_single: "match_ok m \<Longrightarrow> matched (add_single_match f row m) = insert (row, f) (matched m)"
  by (simp_all add: add_match_def add_single_match_def add_match_loop match_ok_entry matched_entry)

lemma matched_empty_iff: "match_ok m \<Longrightarrow> matched m = {} \<longleftrightarrow> m = []"
proof
  assume ok: "match_ok m" and "matched m = {}"
  show "m = []"
  proof (cases m)
    case (Cons e m')
    then have "bt_get m (fst e) = Some (snd e)" by (cases e) (simp add: bt_get_def)
    moreover from this have "snd e \<noteq> {}" using ok by (auto simp: match_ok_def)
    ultimately show ?thesis using \<open>matched m = {}\<close> by (auto simp: matched_def)
  qed
qed simp

lemma match_rows: "match_ok m \<Longrightarrow> fst ` set m = fst ` matched m"
proof -
  assume "match_ok m"
  then have ok: "bt_ok m" and ne: "\<And>row s. bt_get m row = Some s \<Longrightarrow> s \<noteq> {}" by (auto simp: match_ok_def)
  show ?thesis
  proof (intro set_eqI iffI)
    fix row assume "row \<in> fst ` set m"
    then obtain s where "bt_get m row = Some s" using ok by (force simp: bt_get_iff_mem)
    then show "row \<in> fst ` matched m" using ne by (force simp: matched_def)
  next
    fix row assume "row \<in> fst ` matched m"
    then show "row \<in> fst ` set m" using ok by (force simp: matched_def bt_get_iff_mem)
  qed
qed

section \<open>Filters grouped by fragment\<close>

lemma add_filter_spec:
  "bt_ok (blf_filters bf) \<Longrightarrow> bt_ok (blf_filters (add_filter flt bf)) \<and>
    bt_get (blf_filters (add_filter flt bf)) fid =
      (if fid = flt_fragment_id flt then Some (bt_get_or [] (blf_filters bf) fid @ [flt]) else bt_get (blf_filters bf) fid) \<and>
    blf_header_filter (add_filter flt bf) = blf_header_filter bf"
  by (simp add: add_filter_def)

lemma add_filters_spec:
  assumes "bt_ok (blf_filters bf)" and "\<And>fid. bt_get (blf_filters bf) fid \<noteq> Some []"
  shows "let bf' = foldl (\<lambda>bf flt. add_filter flt bf) bf flts in
    bt_ok (blf_filters bf') \<and> blf_header_filter bf' = blf_header_filter bf \<and>
    bt_get_or [] (blf_filters bf') fid = bt_get_or [] (blf_filters bf) fid @ filter (\<lambda>flt. flt_fragment_id flt = fid) flts \<and>
    bt_get (blf_filters bf') fid \<noteq> Some []"
  using assms
proof (induction flts arbitrary: bf)
  case (Cons flt flts)
  note spec = add_filter_spec [OF Cons.prems(1), of flt]
  have "bt_get (blf_filters (add_filter flt bf)) fid \<noteq> Some []" for fid
    using spec Cons.prems(2) by simp
  from Cons.IH [OF conjunct1 [OF spec] this] show ?case
    using spec by (auto simp: Let_def bt_get_or_def split: option.splits)
qed (simp add: Let_def)

lemma all_fragment_ids_loop:
  "foldl (\<lambda>out (fragment_id, filters).
       foldl (\<lambda>out flt. out \<union> set (flt_joins flt)) (insert fragment_id out) filters) out m =
     out \<union> fst ` set m \<union> (\<Union>e \<in> set m. \<Union>flt \<in> set (snd e). set (flt_joins flt))"
proof (induction m arbitrary: out)
  case (Cons e m)
  have "foldl (\<lambda>out flt. out \<union> set (flt_joins flt)) out fs = out \<union> (\<Union>flt \<in> set fs. set (flt_joins flt))" for out fs
    by (induction fs arbitrary: out) auto
  then show ?case using Cons by (cases e) auto
qed simp

text \<open>C34: Adding filters to a block filter groups them by fragment, keeping their order; the filter can
  produce data exactly when it asks for every header or has a filter, and the fragments it needs
  are the filtered ones and the joined ones.\<close>

theorem block_filter_groups:
  assumes "bf = foldl (\<lambda>bf flt. add_filter flt bf) (set_header_filter h default_block_filter) flts"
  shows "bt_get (blf_filters bf) fid =
      (case filter (\<lambda>flt. flt_fragment_id flt = fid) flts of [] \<Rightarrow> None | fs \<Rightarrow> Some fs) \<and>
    sorted_wrt (<) (bt_keys (blf_filters bf)) \<and>
    (can_produce_data bf \<longleftrightarrow> h = Always \<or> flts \<noteq> []) \<and>
    all_fragment_ids bf = flt_fragment_id ` set flts \<union> (\<Union>flt \<in> set flts. set (flt_joins flt))"
proof -
  let ?bf0 = "set_header_filter h default_block_filter"
  have init: "bt_ok (blf_filters ?bf0)" "\<And>fid. bt_get (blf_filters ?bf0) fid \<noteq> Some []"
    by (simp_all add: set_header_filter_def default_block_filter_def)
  note spec = add_filters_spec [OF init, of flts, unfolded Let_def, folded assms]
  have ok: "bt_ok (blf_filters bf)" using spec by blast
  have get: "bt_get (blf_filters bf) fid =
      (case filter (\<lambda>flt. flt_fragment_id flt = fid) flts of [] \<Rightarrow> None | fs \<Rightarrow> Some fs)" for fid
    using spec [of fid] by (cases "bt_get (blf_filters bf) fid")
      (auto simp: bt_get_or_def set_header_filter_def default_block_filter_def split: list.splits)
  have keys: "fst ` set (blf_filters bf) = flt_fragment_id ` set flts"
  proof -
    have "fst ` set (blf_filters bf) = {fid. bt_get (blf_filters bf) fid \<noteq> None}"
      using set_bt_keys [of "blf_filters bf"] by (simp add: bt_keys_def)
    also have "\<dots> = {fid. filter (\<lambda>flt. flt_fragment_id flt = fid) flts \<noteq> []}"
      by (auto simp: get split: list.splits)
    also have "\<dots> = flt_fragment_id ` set flts" by (auto simp: filter_empty_conv)
    finally show ?thesis .
  qed
  have entries: "(\<Union>e \<in> set (blf_filters bf). set (snd e)) = set flts"
  proof (intro set_eqI iffI)
    fix flt assume "flt \<in> (\<Union>e \<in> set (blf_filters bf). set (snd e))"
    then obtain fid fs where "(fid, fs) \<in> set (blf_filters bf)" "flt \<in> set fs" by force
    then have "bt_get (blf_filters bf) fid = Some fs" using ok by (simp add: bt_get_iff_mem)
    then have "fs = filter (\<lambda>flt. flt_fragment_id flt = fid) flts"
      unfolding get by (cases "filter (\<lambda>flt. flt_fragment_id flt = fid) flts") auto
    then show "flt \<in> set flts" using \<open>flt \<in> set fs\<close> by simp
  next
    fix flt assume flt: "flt \<in> set flts"
    define fs where "fs = filter (\<lambda>f. flt_fragment_id f = flt_fragment_id flt) flts"
    have "flt \<in> set fs" using flt by (simp add: fs_def)
    moreover from this have "bt_get (blf_filters bf) (flt_fragment_id flt) = Some fs"
      using get [of "flt_fragment_id flt"] by (cases fs) (auto simp: fs_def [symmetric])
    ultimately show "flt \<in> (\<Union>e \<in> set (blf_filters bf). set (snd e))"
      using ok by (force simp: bt_get_iff_mem)
  qed
  have "all_fragment_ids bf = flt_fragment_id ` set flts \<union> (\<Union>flt \<in> set flts. set (flt_joins flt))"
    unfolding all_fragment_ids_def all_fragment_ids_loop keys entries [symmetric] by auto
  moreover have "can_produce_data bf \<longleftrightarrow> h = Always \<or> flts \<noteq> []"
    using spec keys by (auto simp: can_produce_data_def always_include_header_def block_filter_is_empty_def
        set_header_filter_def default_block_filter_def)
  ultimately show ?thesis using get bt_keys_sorted [OF ok] by blast
qed

theorem block_filter_groups_witness:
  "let mk = (\<lambda>i f js. \<lparr>flt_filter_id = i, flt_fragment_id = f, flt_conditions = [], flt_joins = js\<rparr>);
       bf = foldl (\<lambda>bf flt. add_filter flt bf) (set_header_filter OnData default_block_filter) [mk 1 4 [2, 3], mk 2 2 [], mk 3 4 []]
   in bt_get (blf_filters bf) 4 = Some [mk 1 4 [2, 3], mk 3 4 []] \<and> can_produce_data bf \<and> all_fragment_ids bf = {2, 3, 4}"
  unfolding Let_def by (subst block_filter_groups [OF refl] | simp)+ (auto simp: block_filter_groups [OF refl])

text \<open>An index with one key, over eleven rows.\<close>

definition demo_fragment :: index_fragment where
  "demo_fragment = \<lparr>ixf_fragment_id = 4, ixf_range_start = 0, ixf_range_len = 11, ixf_indexes =
     [\<lparr>ie_index_id = 0, ie_index = BitmapI \<lparr>bx_keys = [Uint8 3], bx_values = [put_u32 2 @ put_u32 10]\<rparr>\<rparr>]\<rparr>"

definition demo_filter :: block_item_filter where
  "demo_filter = \<lparr>flt_filter_id = 1, flt_fragment_id = 4,
     flt_conditions = [\<lparr>co_index_id = 0, co_key = Uint8 3\<rparr>], flt_joins = []\<rparr>"

lemma demo_values: "read_words (put_u32 2 @ put_u32 10) = Some [2, 10]"
  using read_words_written [of "[2, 10]"] by simp

lemma demo_get: "(bitmap_index_get list_roaring \<lparr>bx_keys = [Uint8 3], bx_values = [put_u32 2 @ put_u32 10]\<rparr> (Uint8 3)
    :: (_, filter_error) outcome) = Ok (Some [2, 10])"
  by (simp add: bitmap_index_get_def binary_search_by_def search_loop.simps cmp_def demo_values list_roaring_def fetch_def)

theorem filter_selects_witness:
  "\<exists>b. filter_rows list_roaring demo_filter demo_fragment = Ok b \<and> set (rb_iter list_roaring b) = {2, 10}"
proof -
  have "fragment_readable list_roaring demo_fragment"
    by (simp add: fragment_readable_def demo_fragment_def index_readable_def list_roaring_def demo_values)
  moreover have "ixf_range_start demo_fragment + ixf_range_len demo_fragment < u32_lim"
    by (simp add: demo_fragment_def u32_lim_def)
  ultimately have "\<exists>b. filter_rows list_roaring demo_filter demo_fragment = Ok b \<and>
      set (rb_iter list_roaring b) = {row. row < 11 \<and> row_satisfies list_roaring (ixf_indexes demo_fragment) \<lparr>co_index_id = 0, co_key = Uint8 3\<rparr> row}"
    using filter_selects [OF listbm.roaring_bitmap_axioms, of demo_fragment demo_filter]
    by (auto simp: demo_filter_def demo_fragment_def)
  moreover have "row_satisfies list_roaring (ixf_indexes demo_fragment) \<lparr>co_index_id = 0, co_key = Uint8 3\<rparr> row \<longleftrightarrow> row = 2 \<or> row = 10" for row
    by (simp add: row_satisfies_def demo_fragment_def demo_get) (simp add: list_roaring_def)
  ultimately show ?thesis by (auto intro: exI)
qed

end
