(* ===== verification/BlockStore.thy ===== *)
theory BlockStore
  imports Query ChainStore
begin

text \<open>
  Blocks, segments and groups in the object store: \<open>common/src/block_store.rs\<close>. The writer stores
  serialised blocks, segments and groups under their keys and deletes the objects of a block by
  prefix; the readers fetch them, directly or through the file cache. The cache (foyer) and rkyv
  are parameters.
\<close>

section \<open>Types\<close>

datatype block_store_error = BlockStoreError

text \<open>\<open>HybridCache::get_or_fetch\<close>: the cached bytes, or those of the fetch.\<close>

record 'w hybrid_cache =
  hc_get_or_fetch :: "string \<Rightarrow> ('w, bytes, object_store_error) io \<Rightarrow> ('w, bytes, unit) io"

record 'w block_store =
  bs_client :: "'w object_store"
  bs_codec :: codec
  bs_general :: "'w hybrid_cache"
  bs_index :: "'w hybrid_cache"
  bs_hex :: "u8 list \<Rightarrow> string"
  bs_block_serde :: "block serde"
  bs_group_serde :: "segment_group serde"

section \<open>Cached reads\<close>

definition fetch_body :: "'w block_store \<Rightarrow> string \<Rightarrow> ('w, bytes, object_store_error) io" where
  "fetch_body st key =
     ibind (object_store_get (bs_codec st) (bs_client st) key None) (\<lambda>response. ireturn (gr_body response))"

definition reader_get_block :: "'w block_store \<Rightarrow> cursor \<Rightarrow> ('w, bytes, unit) io" where
  "reader_get_block st cur =
     (let key = format_block_key (bs_hex st) cur
      in hc_get_or_fetch (bs_general st) key (fetch_body st key))"

definition reader_get_pending_block :: "'w block_store \<Rightarrow> cursor \<Rightarrow> nat \<Rightarrow> ('w, bytes, unit) io" where
  "reader_get_pending_block st cur generation =
     (let key = format_pending_block_key (cur_number cur) generation
      in hc_get_or_fetch (bs_general st) key (fetch_body st key))"

definition reader_get_segment :: "'w block_store \<Rightarrow> cursor \<Rightarrow> string \<Rightarrow> ('w, bytes, unit) io" where
  "reader_get_segment st first_cursor name =
     (let key = format_segment_key first_cursor name
      in hc_get_or_fetch (bs_general st) key (fetch_body st key))"

definition reader_get_index_segment :: "'w block_store \<Rightarrow> cursor \<Rightarrow> ('w, bytes, unit) io" where
  "reader_get_index_segment st first_cursor = reader_get_segment st first_cursor ''index''"

definition reader_get_group :: "'w block_store \<Rightarrow> cursor \<Rightarrow> ('w, bytes, unit) io" where
  "reader_get_group st cur =
     (let key = format_group_key cur
      in hc_get_or_fetch (bs_index st) key (fetch_body st key))"

section \<open>Uncached reads\<close>

definition get_block :: "'w block_store \<Rightarrow> cursor \<Rightarrow> ('w, bytes, block_store_error) io" where
  "get_block st cur =
     ibind (ichange (\<lambda>_. BlockStoreError)
              (object_store_get (bs_codec st) (bs_client st) (format_block_key (bs_hex st) cur) None)) (\<lambda>response.
     ireturn (gr_body response))"

definition get_block_and_cursor :: "'w block_store \<Rightarrow> cursor \<Rightarrow> ('w, cursor \<times> bytes, block_store_error) io" where
  "get_block_and_cursor st cur =
     ibind (ichange (\<lambda>_. BlockStoreError)
              (object_store_get (bs_codec st) (bs_client st) (format_block_key (bs_hex st) cur) None)) (\<lambda>response.
     ireturn (cur, gr_body response))"

definition get_segment :: "'w block_store \<Rightarrow> cursor \<Rightarrow> string \<Rightarrow> ('w, bytes, block_store_error) io" where
  "get_segment st first_cursor name =
     ibind (ichange (\<lambda>_. BlockStoreError)
              (object_store_get (bs_codec st) (bs_client st) (format_segment_key first_cursor name) None)) (\<lambda>response.
     ireturn (gr_body response))"

definition get_index_segment :: "'w block_store \<Rightarrow> cursor \<Rightarrow> ('w, bytes, block_store_error) io" where
  "get_index_segment st first_cursor = get_segment st first_cursor ''index''"

definition get_index_segment_and_cursor ::
  "'w block_store \<Rightarrow> cursor \<Rightarrow> ('w, cursor \<times> bytes, block_store_error) io" where
  "get_index_segment_and_cursor st first_cursor =
     ibind (get_segment st first_cursor ''index'') (\<lambda>segment. ireturn (first_cursor, segment))"

definition get_group :: "'w block_store \<Rightarrow> cursor \<Rightarrow> ('w, bytes, block_store_error) io" where
  "get_group st cur =
     ibind (ichange (\<lambda>_. BlockStoreError)
              (object_store_get (bs_codec st) (bs_client st) (format_group_key cur) None)) (\<lambda>response.
     ireturn (gr_body response))"

section \<open>Writes\<close>

definition put_bytes ::
  "'w block_store \<Rightarrow> string \<Rightarrow> bytes \<Rightarrow> ('w, object_version, block_store_error) io" where
  "put_bytes st key bytes =
     ichange (\<lambda>_. BlockStoreError) (object_store_put (bs_codec st) (bs_client st) key bytes Overwrite)"

definition put_block ::
  "'w block_store \<Rightarrow> cursor \<Rightarrow> block \<Rightarrow> ('w, nat \<times> object_version, block_store_error) io" where
  "put_block st cur blk =
     ibind (ioption BlockStoreError (to_bytes (bs_block_serde st) blk)) (\<lambda>bytes.
     ibind (put_bytes st (format_block_key (bs_hex st) cur) bytes) (\<lambda>version.
     ireturn (length bytes, version)))"

definition put_pending_block ::
  "'w block_store \<Rightarrow> pending_block_info \<Rightarrow> block \<Rightarrow> ('w, nat \<times> object_version, block_store_error) io" where
  "put_pending_block st info blk =
     ibind (ioption BlockStoreError (to_bytes (bs_block_serde st) blk)) (\<lambda>bytes.
     ibind (put_bytes st (format_pending_block_key (pbi_number info) (pbi_generation info)) bytes) (\<lambda>version.
     ireturn (length bytes, version)))"

fun delete_objects :: "'w block_store \<Rightarrow> string list \<Rightarrow> ('w, unit, block_store_error) io" where
  "delete_objects st [] = ireturn ()"
| "delete_objects st (object_id # object_ids) =
     ibind (ichange (\<lambda>_. BlockStoreError) (object_store_delete (bs_client st) object_id (Some True))) (\<lambda>_.
     delete_objects st object_ids)"

definition delete_block_with_prefix :: "'w block_store \<Rightarrow> nat \<Rightarrow> ('w, unit, block_store_error) io" where
  "delete_block_with_prefix st block_number =
     ibind (ichange (\<lambda>_. BlockStoreError) (object_store_list (bs_client st) (format_block_prefix block_number))) (\<lambda>object_ids.
     delete_objects st object_ids)"

definition put_segment ::
  "'w block_store \<Rightarrow> cursor \<Rightarrow> serialized_segment \<Rightarrow> ('w, object_version, block_store_error) io" where
  "put_segment st first_cursor segment =
     put_bytes st (format_segment_key first_cursor (ss_name segment)) (ss_data segment)"

definition put_group ::
  "'w block_store \<Rightarrow> cursor \<Rightarrow> segment_group \<Rightarrow> ('w, nat \<times> object_version, block_store_error) io" where
  "put_group st first_cursor grp =
     ibind (ioption BlockStoreError (to_bytes (bs_group_serde st) grp)) (\<lambda>bytes.
     ibind (put_bytes st (format_group_key first_cursor) bytes) (\<lambda>version.
     ireturn (length bytes, version)))"

section \<open>What the store keeps\<close>

text \<open>On top of the object store laws: a call on one key leaves the others alone, whatever it
  returns; a listing returns the stored keys with the prefix; deletion deletes; the cache
  returns bytes it was given under the key or those of the fetch, run in a state with the same
  bucket; rkyv round trips.\<close>

locale block_backend =
  object_backend "bs_codec st" "bs_client st" objects
  for st :: "'w block_store" and objects :: "'w \<Rightarrow> string \<rightharpoonup> object_version \<times> bytes" +
  fixes cached :: "'w \<Rightarrow> string \<rightharpoonup> bytes"
  assumes put_other: "k' \<noteq> k \<Longrightarrow>
      objects (snd (oc_put_object (os_client (bs_client st)) (os_bucket (bs_client st)) k bs mode w)) k' = objects w k'"
    and delete_other: "k' \<noteq> k \<Longrightarrow>
      objects (snd (oc_delete_object (os_client (bs_client st)) (os_bucket (bs_client st)) k w)) k' = objects w k'"
    and delete_ok: "oc_delete_object (os_client (bs_client st)) (os_bucket (bs_client st)) k w = (Ok u, w') \<Longrightarrow>
      objects w' k = None"
    and list_keeps: "keeps objects (oc_list_objects (os_client (bs_client st)) (os_bucket (bs_client st)) prefix)"
    and list_ok: "oc_list_objects (os_client (bs_client st)) (os_bucket (bs_client st)) prefix w = (Ok ids, w') \<Longrightarrow>
      set ids = {k. objects w k \<noteq> None \<and> take (length prefix) k = prefix}"
    and block_serde: "to_bytes (bs_block_serde st) blk = Some bs \<Longrightarrow> from_bytes (bs_block_serde st) bs = Some blk"
    and group_serde: "to_bytes (bs_group_serde st) g = Some bs \<Longrightarrow> from_bytes (bs_group_serde st) bs = Some g"
    and cache_fetch: "c = bs_general st \<or> c = bs_index st \<Longrightarrow> hc_get_or_fetch c k f w = (Ok bs, w') \<Longrightarrow>
      cached w k = Some bs \<or> (\<exists>w1 w2. objects w1 = objects w \<and> f w1 = (Ok bs, w2))"
begin

text \<open>The bytes stored under a key, as the wrapper wrote them.\<close>

definition holds :: "'w \<Rightarrow> string \<Rightarrow> bytes \<Rightarrow> bool" where
  "holds w key body \<longleftrightarrow> (\<exists>v stored. objects w (full_key (bs_client st) key) = Some (v, stored) \<and>
     written_as (bs_codec st) body stored)"

lemma put_bytes_holds:
  assumes "put_bytes st key body w = (Ok v, w')"
  shows "holds w' key body" and "k \<noteq> full_key (bs_client st) key \<Longrightarrow> objects w' k = objects w k"
proof -
  have "object_store_put (bs_codec st) (bs_client st) key body Overwrite w = (Ok v, w')"
    using assms by (simp add: put_bytes_def outcome_simps)
  from put_stores [OF this] show "holds w' key body"
    and "k \<noteq> full_key (bs_client st) key \<Longrightarrow> objects w' k = objects w k"
    by (auto simp: holds_def)
qed

lemma put_bytes_other:
  assumes "k \<noteq> full_key (bs_client st) key"
  shows "objects (snd (put_bytes st key body w)) k = objects w k"
proof (cases "zstd_encode (bs_codec st) (body @ put_u32 (crc32 (bs_codec st) body))")
  case None
  then show ?thesis by (simp add: put_bytes_def ichange_def object_store_put_def)
next
  case (Some cs)
  then show ?thesis
    using put_other [OF assms] by (simp add: put_bytes_def ichange_def object_store_put_def split: prod.splits)
      (metis snd_conv)
qed

lemma read_holds:
  assumes "holds w key body"
    and "object_store_get (bs_codec st) (bs_client st) key None w = (Ok r, w')"
  shows "gr_body r = body \<and> objects w' = objects w"
  using assms get_written(4) by (fastforce simp: holds_def)

lemma fetch_holds: "holds w key body \<Longrightarrow> fetch_body st key w = (Ok bs, w') \<Longrightarrow> bs = body"
  by (auto simp: fetch_body_def outcome_simps dest: read_holds)

lemma cached_fetch_holds:
  assumes "holds w key body" and "cached w key = None \<or> cached w key = Some body"
    and "c = bs_general st \<or> c = bs_index st" and "hc_get_or_fetch c key (fetch_body st key) w = (Ok bs, w')"
  shows "bs = body"
proof -
  consider "cached w key = Some bs" | w1 w2 where "objects w1 = objects w" "fetch_body st key w1 = (Ok bs, w2)"
    using cache_fetch [OF assms(3,4)] by blast
  then show ?thesis
  proof cases
    case 1
    then show ?thesis using assms(2) by simp
  next
    case 2
    then have "holds w1 key body" using assms(1) by (simp add: holds_def)
    then show ?thesis using fetch_holds 2(2) by blast
  qed
qed

lemma get_block_holds:
  "holds w (format_block_key (bs_hex st) c) body \<Longrightarrow> get_block_and_cursor st c w = (Ok r, w') \<Longrightarrow>
    r = (c, body) \<and> objects w' = objects w"
  by (auto simp: get_block_and_cursor_def outcome_simps dest: read_holds)

lemma get_segment_holds:
  "holds w (format_segment_key c name) body \<Longrightarrow> get_segment st c name w = (Ok r, w') \<Longrightarrow>
    r = body \<and> objects w' = objects w"
  by (auto simp: get_segment_def outcome_simps dest: read_holds)

lemma reads_keep: "keeps objects (get_block_and_cursor st c)" "keeps objects (get_segment st c name)"
  unfolding get_block_and_cursor_def get_segment_def
  by (intro keeps_ibind keeps_ichange get_keeps_objects keeps_ireturn)+

lemma put_block_holds:
  "put_block st c blk w = (Ok (n, v), w') \<Longrightarrow>
    \<exists>bs. to_bytes (bs_block_serde st) blk = Some bs \<and> n = length bs \<and> holds w' (format_block_key (bs_hex st) c) bs"
  by (auto simp: put_block_def ioption_def outcome_simps put_bytes_holds(1) split: option.splits)

lemma put_group_holds:
  "put_group st c g w = (Ok (n, v), w') \<Longrightarrow>
    \<exists>bs. to_bytes (bs_group_serde st) g = Some bs \<and> n = length bs \<and> holds w' (format_group_key c) bs"
  by (auto simp: put_group_def ioption_def outcome_simps put_bytes_holds(1) split: option.splits)

lemma delete_objects_others:
  "k \<notin> set ids \<Longrightarrow> objects (snd (delete_objects st ids w)) k = objects w k"
proof (induction ids arbitrary: w)
  case (Cons i ids)
  obtain r w1 where d: "oc_delete_object (os_client (bs_client st)) (os_bucket (bs_client st)) i w = (r, w1)"
    by (meson surj_pair)
  then have "objects w1 k = objects w k" using delete_other [of k i w] Cons.prems by simp
  then show ?case
    using Cons d by (cases r) (simp_all add: ibind_def ichange_def object_store_delete_def)
qed simp

lemma delete_objects_gone:
  "delete_objects st ids w = (Ok (), w') \<Longrightarrow> k \<in> set ids \<Longrightarrow> objects w' k = None"
proof (induction ids arbitrary: w)
  case (Cons i ids)
  then obtain w1 where d: "oc_delete_object (os_client (bs_client st)) (os_bucket (bs_client st)) i w = (Ok (), w1)"
    and rest: "delete_objects st ids w1 = (Ok (), w')"
    by (auto simp: outcome_simps object_store_delete_def)
  show ?case
  proof (cases "k \<in> set ids")
    case True
    then show ?thesis using Cons.IH rest by blast
  next
    case False
    then have "objects w' k = objects w1 k" using delete_objects_others [OF False, of w1] rest by simp
    then show ?thesis using delete_ok [OF d] Cons.prems(2) False by simp
  qed
qed simp

lemma delete_block_effect:
  "objects (snd (delete_block_with_prefix st n w)) k = objects w k \<or>
     take (length (full_key (bs_client st) (format_block_prefix n))) k = full_key (bs_client st) (format_block_prefix n)"
proof -
  let ?p = "full_key (bs_client st) (format_block_prefix n)"
  obtain r w1 where l: "oc_list_objects (os_client (bs_client st)) (os_bucket (bs_client st)) ?p w = (r, w1)"
    by (meson surj_pair)
  have w1: "objects w1 = objects w" using keepsD [OF list_keeps l] .
  show ?thesis
  proof (cases r)
    case (Ok ids)
    then have "k \<notin> set ids \<or> take (length ?p) k = ?p" using list_ok l by blast
    then show ?thesis
      using delete_objects_others [of k ids w1] Ok l w1
      by (auto simp: delete_block_with_prefix_def ibind_def ichange_def object_store_list_def)
  qed (use l w1 in \<open>simp_all add: delete_block_with_prefix_def ibind_def ichange_def object_store_list_def\<close>)
qed

lemma delete_block_gone:
  assumes "delete_block_with_prefix st n w = (Ok (), w')"
    and "take (length (full_key (bs_client st) (format_block_prefix n))) k = full_key (bs_client st) (format_block_prefix n)"
  shows "objects w' k = None"
proof -
  let ?p = "full_key (bs_client st) (format_block_prefix n)"
  obtain ids w1 where l: "oc_list_objects (os_client (bs_client st)) (os_bucket (bs_client st)) ?p w = (Ok ids, w1)"
    and d: "delete_objects st ids w1 = (Ok (), w')"
    using assms(1) by (auto simp: delete_block_with_prefix_def outcome_simps object_store_list_def)
  have w1: "objects w1 = objects w" using keepsD [OF list_keeps l] .
  show ?thesis
  proof (cases "k \<in> set ids")
    case True
    then show ?thesis using delete_objects_gone [OF d] by blast
  next
    case False
    then have "objects w k = None" using list_ok [OF l] assms(2) by blast
    then show ?thesis using delete_objects_others [OF False, of w1] d w1 by simp
  qed
qed

end

context block_backend
begin

lemma put_get_block:
  "put_block st c blk w = (Ok (n, v), w') \<Longrightarrow> get_block_and_cursor st c w' = (Ok r, w'') \<Longrightarrow>
    fst r = c \<and> length (snd r) = n \<and> from_bytes (bs_block_serde st) (snd r) = Some blk"
  using put_block_holds [of c blk w n v w'] get_block_holds [of w' c _ r w''] block_serde by (metis fst_conv snd_conv)

lemma put_reader_block:
  assumes "put_block st c blk w = (Ok (n, v), w')" and "cached w' (format_block_key (bs_hex st) c) = None"
    and "reader_get_block st c w' = (Ok bytes, w'')"
  shows "from_bytes (bs_block_serde st) bytes = Some blk"
proof -
  obtain bs where bs: "to_bytes (bs_block_serde st) blk = Some bs" "holds w' (format_block_key (bs_hex st) c) bs"
    using put_block_holds [OF assms(1)] by blast
  then have "bytes = bs"
    using cached_fetch_holds [OF bs(2), of "bs_general st" bytes w''] assms(2,3) by (simp add: reader_get_block_def Let_def)
  then show ?thesis using block_serde bs(1) by simp
qed

lemma put_get_group:
  "put_group st c g w = (Ok (n, v), w') \<Longrightarrow> get_group st c w' = (Ok bytes, w'') \<Longrightarrow>
    length bytes = n \<and> from_bytes (bs_group_serde st) bytes = Some g"
  using put_group_holds group_serde by (fastforce simp: get_group_def outcome_simps dest: read_holds)

lemma put_get_segment:
  "put_segment st c s w = (Ok v, w') \<Longrightarrow> get_segment st c (ss_name s) w' = (Ok bytes, w'') \<Longrightarrow> bytes = ss_data s"
  using put_bytes_holds(1) get_segment_holds by (fastforce simp: put_segment_def)

end

lemma full_key_prefix: "take (length (full_key c p)) (full_key c k) = full_key c p \<longleftrightarrow> take (length p) k = p"
  by (simp add: full_key_def)

lemma block_prefix_not_segment: "take (length (format_block_prefix n)) (format_segment_key c name) \<noteq> format_block_prefix n"
  and block_prefix_not_group: "take (length (format_block_prefix n)) (format_group_key c) \<noteq> format_block_prefix n"
  by (simp_all add: format_block_prefix_def format_segment_key_def format_group_key_def)

text \<open>\<open>files_ok\<close>: what is stored under the keys \<open>K\<close>, in the bucket or in the cache, satisfies \<open>P\<close>.\<close>

definition files_ok ::
  "'w block_store \<Rightarrow> ('w \<Rightarrow> string \<rightharpoonup> object_version \<times> bytes) \<Rightarrow> ('w \<Rightarrow> string \<rightharpoonup> bytes) \<Rightarrow> string set \<Rightarrow> (string \<Rightarrow> bytes \<Rightarrow> bool) \<Rightarrow> 'w \<Rightarrow> bool" where
  "files_ok st objects cached K P w \<longleftrightarrow> (\<forall>k \<in> K.
     (\<forall>v stored. objects w (full_key (bs_client st) k) = Some (v, stored) \<longrightarrow> (\<exists>bs. P k bs \<and> written_as (bs_codec st) bs stored)) \<and>
     (\<forall>bs. cached w k = Some bs \<longrightarrow> P k bs))"

text \<open>Reads through a cache: a read of an object does not touch the cache; the cache does not write to the
  bucket, and afterwards holds under a key what it held before, nothing, or what it just returned
  for that key.\<close>

locale file_reads =
  block_backend st objects cached
  for st :: "'w block_store" and objects :: "'w \<Rightarrow> string \<rightharpoonup> object_version \<times> bytes" and cached :: "'w \<Rightarrow> string \<rightharpoonup> bytes" +
  assumes get_keeps_cached: "keeps cached (oc_get_object (os_client (bs_client st)) (os_bucket (bs_client st)) k ver)"
    and cache_keeps: "c = bs_general st \<or> c = bs_index st \<Longrightarrow> keeps objects f \<Longrightarrow> keeps objects (hc_get_or_fetch c k f)"
    and cache_content: "c = bs_general st \<or> c = bs_index st \<Longrightarrow> keeps cached f \<Longrightarrow> hc_get_or_fetch c k f w = (r, w') \<Longrightarrow>
      cached w' k' = cached w k' \<or> cached w' k' = None \<or> (\<exists>bs. k' = k \<and> r = Ok bs \<and> cached w' k' = Some bs)"
begin

lemma fetch_body_keeps: "keeps objects (fetch_body st key)" "keeps cached (fetch_body st key)"
proof -
  show "keeps objects (fetch_body st key)"
    unfolding fetch_body_def by (intro keeps_ibind get_keeps_objects keeps_ireturn)
  have "keeps cached (object_store_get (bs_codec st) (bs_client st) key None)"
    unfolding object_store_get_def
    by (intro keeps_ibind get_keeps_cached) (auto split: option.splits simp: Let_def)
  then show "keeps cached (fetch_body st key)"
    unfolding fetch_body_def by (intro keeps_ibind keeps_ireturn)
qed

lemma file_read:
  assumes ok: "files_ok st objects cached K P w" and key: "key \<in> K" and c: "c = bs_general st \<or> c = bs_index st"
    and run: "hc_get_or_fetch c key (fetch_body st key) w = (r, w')"
  shows "files_ok st objects cached K P w'" and "r = Ok bs \<Longrightarrow> P key bs"
proof -
  have got: "P key bs" if r: "r = Ok bs" for bs
  proof -
    consider "cached w key = Some bs" | w1 w2 where "objects w1 = objects w" "fetch_body st key w1 = (Ok bs, w2)"
      using cache_fetch [OF c] run r by blast
    then show ?thesis
    proof cases
      case 1
      then show ?thesis using ok key unfolding files_ok_def by blast
    next
      case 2
      then obtain v stored where st: "objects w (full_key (bs_client st) key) = Some (v, stored)"
        using get_ok by (fastforce simp: fetch_body_def object_store_get_def outcome_simps)
      moreover from this obtain b where "P key b" "written_as (bs_codec st) b stored"
        using ok key unfolding files_ok_def by blast
      ultimately show ?thesis using fetch_holds [of w1 key b bs w2] 2 by (auto simp: holds_def)
    qed
  qed
  then show "r = Ok bs \<Longrightarrow> P key bs" by blast
  have "objects w' = objects w" using keepsD [OF cache_keeps [OF c fetch_body_keeps(1)] run] .
  moreover have "P k bs" if "cached w' k = Some bs" and k: "k \<in> K" for k bs
    using cache_content [OF c fetch_body_keeps(2) run, of k] that(1) got ok k unfolding files_ok_def by auto
  ultimately show "files_ok st objects cached K P w'"
    using ok unfolding files_ok_def by simp
qed

end

section \<open>A reference store\<close>

definition mem_hybrid_cache :: "mem_world hybrid_cache" where
  "mem_hybrid_cache = \<lparr>hc_get_or_fetch = (\<lambda>k f w.
     case mw_cache w k of
       Some bs \<Rightarrow> (Ok bs, w)
     | None \<Rightarrow> (case f w of
          (Ok bs, w') \<Rightarrow> (Ok bs, w'\<lparr>mw_cache := (mw_cache w')(k \<mapsto> bs)\<rparr>)
        | (Err e, w') \<Rightarrow> (Err (), w')
        | (Panic, w') \<Rightarrow> (Panic, w')))\<rparr>"

definition mem_block_store :: "block list \<Rightarrow> segment_group list \<Rightarrow> mem_world block_store" where
  "mem_block_store blocks groups = \<lparr>bs_client = object_store_new mem_client ''bucket'' None,
     bs_codec = mem_codec, bs_general = mem_hybrid_cache, bs_index = mem_hybrid_cache, bs_hex = hex_encode,
     bs_block_serde = table_serde blocks, bs_group_serde = table_serde groups\<rparr>"

lemma mem_hybrid_cache_fetch:
  "hc_get_or_fetch mem_hybrid_cache k f w = (Ok bs, w') \<Longrightarrow>
    mw_cache w k = Some bs \<or> (\<exists>w1 w2. mw_objects w1 = mw_objects w \<and> f w1 = (Ok bs, w2))"
  by (auto simp: mem_hybrid_cache_def split: option.splits prod.splits outcome.splits)

interpretation mem_blocks: block_backend "mem_block_store blocks groups" mw_objects mw_cache
proof -
  have base: "object_backend (bs_codec (mem_block_store blocks groups)) (bs_client (mem_block_store blocks groups)) mw_objects"
    using mem.object_backend_axioms [of "[]"] by (simp add: mem_store_def mem_block_store_def)
  show "block_backend (mem_block_store blocks groups) mw_objects mw_cache"
  proof (intro block_backend.intro base block_backend_axioms.intro)
    fix c k f w bs w'
    assume "c = bs_general (mem_block_store blocks groups) \<or> c = bs_index (mem_block_store blocks groups)"
    then have "c = mem_hybrid_cache" by (auto simp: mem_block_store_def)
    then show "hc_get_or_fetch c k f w = (Ok bs, w') \<Longrightarrow>
        mw_cache w k = Some bs \<or> (\<exists>w1 w2. mw_objects w1 = mw_objects w \<and> f w1 = (Ok bs, w2))"
      using mem_hybrid_cache_fetch by blast
  qed (auto simp: mem_block_store_def object_store_new_def mem_client_def mem_put_def Let_def keeps_def
      mem_names_exact table_serde_inverse split: put_mode.splits option.splits)
qed

interpretation mem_files: file_reads "mem_block_store blocks groups" mw_objects mw_cache
proof -
  let ?st = "mem_block_store blocks groups"
  have general: "bs_general ?st = mem_hybrid_cache" "bs_index ?st = mem_hybrid_cache" by (simp_all add: mem_block_store_def)
  show "file_reads ?st mw_objects mw_cache"
    unfolding file_reads_def file_reads_axioms_def general
  proof (intro conjI allI impI mem_blocks.block_backend_axioms, goal_cases)
    case (1 k ver)
    then show ?case by (auto simp: keeps_def mem_block_store_def object_store_new_def mem_client_def mem_get_def split: option.splits)
  next
    case (2 c f k)
    then show ?case
      by (auto simp: keeps_def mem_hybrid_cache_def mw_objects_def split: option.splits prod.splits outcome.splits) (metis snd_conv)+
  next
    case (3 c f k w r w' k')
    then have "mw_cache (snd (f w)) = mw_cache w" by (simp add: keeps_def)
    then show ?case using 3(1,3)
      by (cases "f w"; cases "fst (f w)") (auto simp: mem_hybrid_cache_def split: option.splits if_splits)
  qed
qed

section \<open>Properties\<close>

text \<open>C32: What the writer stored is what a successful read returns: a block, a group and a segment
  written under a cursor are read back, uncached or through a cache that holds nothing else under
  the key, as the bytes that deserialise to them.\<close>

theorem block_store_roundtrip:
  assumes "block_backend st objects cached"
  shows "(put_block st c blk w = (Ok (n, v), w') \<and> get_block_and_cursor st c w' = (Ok r, w'') \<longrightarrow>
       fst r = c \<and> length (snd r) = n \<and> from_bytes (bs_block_serde st) (snd r) = Some blk) \<and>
    (put_block st c blk w = (Ok (n, v), w') \<and> cached w' (format_block_key (bs_hex st) c) = None \<and>
     reader_get_block st c w' = (Ok bytes, w'') \<longrightarrow> from_bytes (bs_block_serde st) bytes = Some blk) \<and>
    (put_group st c g w = (Ok (n, v), w') \<and> get_group st c w' = (Ok bytes, w'') \<longrightarrow>
       length bytes = n \<and> from_bytes (bs_group_serde st) bytes = Some g) \<and>
    (put_segment st c s w = (Ok v, w') \<and> get_segment st c (ss_name s) w' = (Ok bytes, w'') \<longrightarrow> bytes = ss_data s)"
  using block_backend.put_get_block [OF assms] block_backend.put_reader_block [OF assms]
    block_backend.put_get_group [OF assms] block_backend.put_get_segment [OF assms] by metis

text \<open>C33: Deleting a block by prefix removes every version of that block, canonical or pending, and
  nothing else: no block with another number (of at most ten digits), no segment and no group is
  touched, whatever the outcome of the deletion.\<close>

theorem delete_block_exact:
  assumes "block_backend st objects cached" and "delete_block_with_prefix st n w = (r, w')" and "n < 10 ^ 10"
  shows "(cur_number c < 10 ^ 10 \<and> cur_number c \<noteq> n \<longrightarrow>
       objects w' (full_key (bs_client st) (format_block_key (bs_hex st) c)) =
       objects w (full_key (bs_client st) (format_block_key (bs_hex st) c))) \<and>
    objects w' (full_key (bs_client st) (format_segment_key c name)) =
      objects w (full_key (bs_client st) (format_segment_key c name)) \<and>
    objects w' (full_key (bs_client st) (format_group_key c)) = objects w (full_key (bs_client st) (format_group_key c)) \<and>
    (r = Ok () \<and> cur_number c = n \<longrightarrow>
       objects w' (full_key (bs_client st) (format_block_key (bs_hex st) c)) = None \<and>
       objects w' (full_key (bs_client st) (format_pending_block_key n generation)) = None)"
proof -
  have w': "w' = snd (delete_block_with_prefix st n w)" using assms(2) by simp
  have kept: "objects w' (full_key (bs_client st) key) = objects w (full_key (bs_client st) key)"
    if "take (length (format_block_prefix n)) key \<noteq> format_block_prefix n" for key
    using block_backend.delete_block_effect [OF assms(1), of n w "full_key (bs_client st) key"] that
    by (simp add: w' full_key_prefix)
  have gone: "objects w' (full_key (bs_client st) key) = None"
    if "r = Ok ()" "take (length (format_block_prefix n)) key = format_block_prefix n" for key
    using block_backend.delete_block_gone [OF assms(1), of n w w' "full_key (bs_client st) key"] that assms(2)
    by (simp add: full_key_prefix)
  show ?thesis
    using kept [of "format_block_key (bs_hex st) c"] kept [of "format_segment_key c name"] kept [of "format_group_key c"]
      gone [of "format_block_key (bs_hex st) c"] gone [of "format_pending_block_key n generation"]
      block_prefix_iff [OF assms(3), of "cur_number c"] block_prefix_iff [OF assms(3) assms(3)]
      block_prefix_not_segment block_prefix_not_group assms(3)
    by (auto simp: format_block_key_def format_pending_block_key_def)
qed

definition demo_stored_block :: block where
  "demo_stored_block = \<lparr>blk_header = \<lparr>hf_data = [1, 2]\<rparr>, blk_index = \<lparr>igf_indexes = []\<rparr>,
     blk_join = \<lparr>jgf_joins = []\<rparr>, blk_body = []\<rparr>"

lemmas demo_store_simps = mem_block_store_def object_store_new_def mem_client_def mem_codec_def mem_put_def mem_get_def
  table_serde_def empty_world_def mw_objects_def full_key_def put_u32_def get_u32_def ibind_def ichange_def Let_def
  object_store_get_def object_store_put_def put_bytes_def

theorem block_store_roundtrip_witness:
  "\<exists>n v w' r w''. put_block (mem_block_store [demo_stored_block] []) (mk_cursor 7 (Hash [1])) demo_stored_block empty_world = (Ok (n, v), w') \<and>
     get_block_and_cursor (mem_block_store [demo_stored_block] []) (mk_cursor 7 (Hash [1])) w' = (Ok r, w'') \<and>
     from_bytes (bs_block_serde (mem_block_store [demo_stored_block] [])) (snd r) = Some demo_stored_block"
proof -
  let ?st = "mem_block_store [demo_stored_block] []" and ?c = "mk_cursor 7 (Hash [1])"
  have "\<exists>n v w' r w''. put_block ?st ?c demo_stored_block empty_world = (Ok (n, v), w') \<and>
      get_block_and_cursor ?st ?c w' = (Ok r, w'')" (is "\<exists>n v w' r w''. ?P n v w' r w''")
    by (simp add: put_block_def get_block_and_cursor_def demo_store_simps)
  then obtain n v w' r w'' where "?P n v w' r w''" by blast
  then show ?thesis
    using block_store_roundtrip [OF mem_blocks.block_backend_axioms, of "[demo_stored_block]" "[]" ?c demo_stored_block empty_world n v w' r w'']
    by blast
qed

theorem delete_block_exact_witness:
  "\<exists>n v w' w''. put_block (mem_block_store [demo_stored_block] []) (mk_cursor 7 (Hash [1])) demo_stored_block empty_world = (Ok (n, v), w') \<and>
     delete_block_with_prefix (mem_block_store [demo_stored_block] []) 8 w' = (Ok (), w'') \<and>
     mw_objects w'' (format_block_key hex_encode (mk_cursor 7 (Hash [1]))) \<noteq> None"
proof -
  let ?st = "mem_block_store [demo_stored_block] []" and ?c = "mk_cursor 7 (Hash [1])"
  have key: "take (length (format_block_prefix 8)) (format_block_key hex_encode ?c) \<noteq> format_block_prefix 8"
    using block_prefix_iff [of 8 7] by (simp add: format_block_key_def)
  obtain n v w' where put: "put_block ?st ?c demo_stored_block empty_world = (Ok (n, v), w')"
    and w': "mw_bucket w' = [(format_block_key hex_encode ?c, v, [0] @ put_u32 (crc32 mem_codec [0]))]"
    by (simp add: put_block_def mem_block_store_def object_store_new_def mem_client_def mem_codec_def mem_put_def
        table_serde_def empty_world_def full_key_def ibind_def ichange_def Let_def object_store_put_def put_bytes_def
        normalize_prefix_def)
  have del: "delete_block_with_prefix ?st 8 w' = (Ok (), w')"
    using key by (simp add: delete_block_with_prefix_def object_store_list_def mem_block_store_def object_store_new_def
        mem_client_def mem_names_def w' ibind_def ichange_def full_key_def normalize_prefix_def)
  have "full_key (bs_client ?st) = id"
    by (simp add: fun_eq_iff full_key_def mem_block_store_def object_store_new_def normalize_prefix_def)
  moreover have "bs_hex ?st = hex_encode" by (simp add: mem_block_store_def)
  ultimately show ?thesis
    using delete_block_exact [OF mem_blocks.block_backend_axioms del, of ?c] put del w'
    by (auto simp: mw_objects_def)
qed

end
