(* ===== verification/Segments.thy ===== *)
theory Segments
  imports BlockStore "HOL-Library.Multiset"
begin

text \<open>
  Segments: \<open>common/src/compaction/segment_builder.rs\<close> turns a run of blocks into one segment per
  fragment, and \<open>common/src/data_stream/fragment_access.rs\<close> with \<open>segment_access.rs\<close> read a
  fragment of a block from the block itself or from the segments. The main result is that both
  ways give the same fragments.
\<close>

section \<open>The segment builder\<close>

datatype compaction_error = CompactionError

text \<open>rkyv at the types of the segments.\<close>

record segment_serde =
  sd_block :: "block serde"
  sd_index :: "index_group_fragment segment serde"
  sd_join :: "join_group_fragment segment serde"
  sd_header :: "header_fragment segment serde"
  sd_body :: "body_fragment segment serde"

text \<open>The hash map of body fragments is an association list in insertion order; its iteration order is
  a parameter of \<open>segment_data\<close>.\<close>

record segment_builder =
  sb_expected_fragment_count :: "nat option"
  sb_first_block :: "cursor option"
  sb_headers :: "header_fragment fragment_data list"
  sb_indexes :: "index_group_fragment fragment_data list"
  sb_joins :: "join_group_fragment fragment_data list"
  sb_body :: "(fragment_id \<times> string \<times> body_fragment fragment_data list) list"

definition default_segment_builder :: segment_builder where
  "default_segment_builder = \<lparr>sb_expected_fragment_count = None, sb_first_block = None, sb_headers = [],
     sb_indexes = [], sb_joins = [], sb_body = []\<rparr>"

definition start_new_segment :: "cursor \<Rightarrow> segment_builder \<Rightarrow> (segment_builder, compaction_error) outcome" where
  "start_new_segment cur b =
     (if sb_first_block b \<noteq> None then Err CompactionError else Ok (b\<lparr>sb_first_block := Some cur\<rparr>))"

definition block_count :: "segment_builder \<Rightarrow> nat" where
  "block_count b = length (sb_headers b)"

fun push_body ::
  "body_fragment fragment_data \<Rightarrow> (fragment_id \<times> string \<times> body_fragment fragment_data list) list
    \<Rightarrow> (fragment_id \<times> string \<times> body_fragment fragment_data list) list" where
  "push_body d [] = [(bf_fragment_id (fd_data d), bf_name (fd_data d), [d])]"
| "push_body d ((fid, name, ds) # body) =
     (if fid = bf_fragment_id (fd_data d) then (fid, name, ds @ [d]) # body
      else (fid, name, ds) # push_body d body)"

definition add_block ::
  "segment_serde \<Rightarrow> cursor \<Rightarrow> bytes \<Rightarrow> segment_builder \<Rightarrow> (segment_builder, compaction_error) outcome" where
  "add_block S cur bytes b =
     (case from_bytes (sd_block S) bytes of
        None \<Rightarrow> Err CompactionError
      | Some blk \<Rightarrow>
          obind (case sb_expected_fragment_count b of
                   Some expected_count \<Rightarrow>
                     if length (blk_body blk) \<noteq> expected_count then Err CompactionError else Ok b
                 | None \<Rightarrow> Ok (b\<lparr>sb_expected_fragment_count := Some (length (blk_body blk))\<rparr>)) (\<lambda>b.
          Ok (b\<lparr>sb_indexes := sb_indexes b @ [\<lparr>fd_cursor = cur, fd_data = blk_index blk\<rparr>],
                sb_joins := sb_joins b @ [\<lparr>fd_cursor = cur, fd_data = blk_join blk\<rparr>],
                sb_headers := sb_headers b @ [\<lparr>fd_cursor = cur, fd_data = blk_header blk\<rparr>],
                sb_body := foldl (\<lambda>body fr. push_body \<lparr>fd_cursor = cur, fd_data = fr\<rparr> body) (sb_body b) (blk_body blk)\<rparr>)))"

definition serialize_segment ::
  "'a segment serde \<Rightarrow> cursor \<Rightarrow> string \<Rightarrow> 'a fragment_data list \<Rightarrow> (serialized_segment, compaction_error) outcome" where
  "serialize_segment s first name data =
     (case to_bytes s \<lparr>seg_first_block = first, seg_data = data\<rparr> of
        None \<Rightarrow> Err CompactionError
      | Some bytes \<Rightarrow> Ok \<lparr>ss_name = name, ss_data = bytes\<rparr>)"

fun serialize_body ::
  "segment_serde \<Rightarrow> cursor \<Rightarrow> nat \<Rightarrow> (string \<times> body_fragment fragment_data list) list
    \<Rightarrow> (serialized_segment list, compaction_error) outcome" where
  "serialize_body S first expected_count [] = Ok []"
| "serialize_body S first expected_count ((name, data) # segments) =
     (if length data \<noteq> expected_count then Err CompactionError
      else obind (serialize_segment (sd_body S) first name data) (\<lambda>s.
           obind (serialize_body S first expected_count segments) (\<lambda>ss. Ok (s # ss))))"

definition segment_data ::
  "segment_serde \<Rightarrow> ((string \<times> body_fragment fragment_data list) list \<Rightarrow> (string \<times> body_fragment fragment_data list) list)
    \<Rightarrow> segment_builder \<Rightarrow> (serialized_segment list \<times> segment_builder, compaction_error) outcome" where
  "segment_data S hash_order b =
     (case sb_first_block b of
        None \<Rightarrow> Err CompactionError
      | Some first \<Rightarrow>
          let indexes = sb_indexes b; joins = sb_joins b; headers = sb_headers b;
              segments = hash_order (map snd (sb_body b)) in
          if length indexes \<noteq> length headers then Err CompactionError
          else if length joins \<noteq> length headers then Err CompactionError
          else
            obind (serialize_segment (sd_index S) first INDEX_FRAGMENT_NAME indexes) (\<lambda>index.
            obind (serialize_segment (sd_join S) first JOIN_FRAGMENT_NAME joins) (\<lambda>join.
            obind (serialize_segment (sd_header S) first HEADER_FRAGMENT_NAME headers) (\<lambda>header.
            obind (serialize_body S first (length headers) segments) (\<lambda>body.
            Ok ([index, join, header] @ body,
                b\<lparr>sb_first_block := None, sb_headers := [], sb_indexes := [], sb_joins := [], sb_body := []\<rparr>))))))"

section \<open>Reading fragments\<close>

datatype fragment_access_error = FragmentAccessError

text \<open>\<open>SegmentAccess\<close>: the files of the fragments that were fetched, as archived data. The block at
  an offset is read out of range as a panic.\<close>

record 'b segment_access =
  sa_first_block :: nat
  sa_blocks :: 'b
  sa_fragments :: "fragment_id \<rightharpoonup> bytes"

record 'b segment_block_access =
  sba_offset :: nat
  sba_segment :: "'b segment_access"

datatype 'b fragment_access = SegmentFA "'b segment_block_access" | BlockFA bytes

definition find_fragment ::
  "('a \<Rightarrow> fragment_id) \<Rightarrow> fragment_id \<Rightarrow> 'a list \<Rightarrow> ('a, fragment_access_error) outcome" where
  "find_fragment f fid xs = (case find (\<lambda>x. f x = fid) xs of None \<Rightarrow> Err FragmentAccessError | Some x \<Rightarrow> Ok x)"

text \<open>\<open>rkyv::access_unchecked\<close> reads the archive in place; bytes that are not an archive of the type are
  undefined behaviour, which the model makes a panic.\<close>

definition access_unchecked :: "'a serde \<Rightarrow> bytes \<Rightarrow> ('a, fragment_access_error) outcome" where
  "access_unchecked s bytes = (case from_bytes s bytes of None \<Rightarrow> Panic | Some x \<Rightarrow> Ok x)"

definition segment_entry ::
  "'a segment serde \<Rightarrow> fragment_id \<Rightarrow> 'b segment_block_access \<Rightarrow> ('a, fragment_access_error) outcome" where
  "segment_entry s fid a =
     (case sa_fragments (sba_segment a) fid of
        None \<Rightarrow> Err FragmentAccessError
      | Some entry \<Rightarrow>
          obind (access_unchecked s entry) (\<lambda>segment.
          obind (fetch (seg_data segment) (sba_offset a)) (\<lambda>d. Ok (fd_data d))))"

definition segment_index_fragment ::
  "segment_serde \<Rightarrow> fragment_id \<Rightarrow> 'b segment_block_access \<Rightarrow> (index_fragment, fragment_access_error) outcome" where
  "segment_index_fragment S fid a =
     obind (segment_entry (sd_index S) INDEX_FRAGMENT_ID a) (\<lambda>g. find_fragment ixf_fragment_id fid (igf_indexes g))"

definition segment_join_fragment ::
  "segment_serde \<Rightarrow> fragment_id \<Rightarrow> 'b segment_block_access \<Rightarrow> (join_fragment, fragment_access_error) outcome" where
  "segment_join_fragment S fid a =
     obind (segment_entry (sd_join S) JOIN_FRAGMENT_ID a) (\<lambda>g. find_fragment jf_fragment_id fid (jgf_joins g))"

definition segment_header_fragment ::
  "segment_serde \<Rightarrow> 'b segment_block_access \<Rightarrow> (header_fragment, fragment_access_error) outcome" where
  "segment_header_fragment S a = segment_entry (sd_header S) HEADER_FRAGMENT_ID a"

definition segment_body_fragment ::
  "segment_serde \<Rightarrow> fragment_id \<Rightarrow> 'b segment_block_access \<Rightarrow> (body_fragment, fragment_access_error) outcome" where
  "segment_body_fragment S fid a = segment_entry (sd_body S) fid a"

definition block_index_fragment ::
  "segment_serde \<Rightarrow> fragment_id \<Rightarrow> bytes \<Rightarrow> (index_fragment, fragment_access_error) outcome" where
  "block_index_fragment S fid entry =
     obind (access_unchecked (sd_block S) entry) (\<lambda>blk. find_fragment ixf_fragment_id fid (igf_indexes (blk_index blk)))"

definition block_join_fragment ::
  "segment_serde \<Rightarrow> fragment_id \<Rightarrow> bytes \<Rightarrow> (join_fragment, fragment_access_error) outcome" where
  "block_join_fragment S fid entry =
     obind (access_unchecked (sd_block S) entry) (\<lambda>blk. find_fragment jf_fragment_id fid (jgf_joins (blk_join blk)))"

definition block_header_fragment ::
  "segment_serde \<Rightarrow> bytes \<Rightarrow> (header_fragment, fragment_access_error) outcome" where
  "block_header_fragment S entry = obind (access_unchecked (sd_block S) entry) (\<lambda>blk. Ok (blk_header blk))"

definition block_body_fragment ::
  "segment_serde \<Rightarrow> fragment_id \<Rightarrow> bytes \<Rightarrow> (body_fragment, fragment_access_error) outcome" where
  "block_body_fragment S fid entry =
     obind (access_unchecked (sd_block S) entry) (\<lambda>blk. find_fragment bf_fragment_id fid (blk_body blk))"

fun get_index_fragment ::
  "segment_serde \<Rightarrow> fragment_id \<Rightarrow> 'b fragment_access \<Rightarrow> (index_fragment, fragment_access_error) outcome" where
  "get_index_fragment S fid (SegmentFA a) = segment_index_fragment S fid a"
| "get_index_fragment S fid (BlockFA e) = block_index_fragment S fid e"

fun get_join_fragment ::
  "segment_serde \<Rightarrow> fragment_id \<Rightarrow> 'b fragment_access \<Rightarrow> (join_fragment, fragment_access_error) outcome" where
  "get_join_fragment S fid (SegmentFA a) = segment_join_fragment S fid a"
| "get_join_fragment S fid (BlockFA e) = block_join_fragment S fid e"

fun get_header_fragment ::
  "segment_serde \<Rightarrow> 'b fragment_access \<Rightarrow> (header_fragment, fragment_access_error) outcome" where
  "get_header_fragment S (SegmentFA a) = segment_header_fragment S a"
| "get_header_fragment S (BlockFA e) = block_header_fragment S e"

fun get_body_fragment ::
  "segment_serde \<Rightarrow> fragment_id \<Rightarrow> 'b fragment_access \<Rightarrow> (body_fragment, fragment_access_error) outcome" where
  "get_body_fragment S fid (SegmentFA a) = segment_body_fragment S fid a"
| "get_body_fragment S fid (BlockFA e) = block_body_fragment S fid e"

section \<open>Block access of a segment\<close>

definition sba_block_number :: "'b segment_block_access \<Rightarrow> nat" where
  "sba_block_number a = u64_add (sa_first_block (sba_segment a)) (sba_offset a)"

definition sba_cursor :: "'b segment_block_access \<Rightarrow> cursor" where
  "sba_cursor a = new_finalized (sba_block_number a)"

text \<open>The iterator over the blocks of a segment; a block before the segment trips the assertion.\<close>

definition segment_access_iter ::
  "'b roaring \<Rightarrow> 'b segment_access \<Rightarrow> ('b segment_block_access, fragment_access_error) outcome list" where
  "segment_access_iter R s =
     map (\<lambda>block_number.
       if sa_first_block s \<le> block_number
       then Ok \<lparr>sba_offset = block_number - sa_first_block s, sba_segment = s\<rparr>
       else Panic) (rb_iter R (sa_blocks s))"

section \<open>A block is the same through its segment\<close>

fun add_blocks ::
  "segment_serde \<Rightarrow> (cursor \<times> bytes) list \<Rightarrow> segment_builder \<Rightarrow> (segment_builder, compaction_error) outcome" where
  "add_blocks S [] b = Ok b"
| "add_blocks S ((cur, bytes) # blocks) b = obind (add_block S cur bytes b) (add_blocks S blocks)"

text \<open>Blocks as the ingestion produces them: all with the same fragments, in the same order, under
  distinct ids and names.\<close>

definition uniform_fragments :: "(fragment_id \<times> string) list \<Rightarrow> block \<Rightarrow> bool" where
  "uniform_fragments fns blk \<longleftrightarrow> map (\<lambda>f. (bf_fragment_id f, bf_name f)) (blk_body blk) = fns"

definition fragment_table_ok :: "(fragment_id \<times> string) list \<Rightarrow> bool" where
  "fragment_table_ok fns \<longleftrightarrow> distinct (map fst fns) \<and>
     distinct ([INDEX_FRAGMENT_NAME, JOIN_FRAGMENT_NAME, HEADER_FRAGMENT_NAME] @ map snd fns)"

definition body_of ::
  "(fragment_id \<times> string) list \<Rightarrow> (cursor \<times> block) list \<Rightarrow> (fragment_id \<times> string \<times> body_fragment fragment_data list) list" where
  "body_of fns cbs = map (\<lambda>j. (fst (fns ! j), snd (fns ! j),
     map (\<lambda>(c, blk). \<lparr>fd_cursor = c, fd_data = blk_body blk ! j\<rparr>) cbs)) [0..<length fns]"

lemma push_body_append:
  "(\<forall>e \<in> set pre. fst e \<noteq> bf_fragment_id (fd_data d)) \<Longrightarrow> push_body d (pre @ body) = pre @ push_body d body"
  by (induction pre) (auto split: prod.splits)

lemma push_all_new:
  assumes "distinct (map bf_fragment_id frs)" and "\<forall>e \<in> set body. \<forall>f \<in> set frs. fst e \<noteq> bf_fragment_id f"
  shows "foldl (\<lambda>body fr. push_body \<lparr>fd_cursor = c, fd_data = fr\<rparr> body) body frs =
    body @ map (\<lambda>f. (bf_fragment_id f, bf_name f, [\<lparr>fd_cursor = c, fd_data = f\<rparr>])) frs"
  using assms
proof (induction frs arbitrary: body)
  case (Cons f frs)
  have "push_body \<lparr>fd_cursor = c, fd_data = f\<rparr> body = body @ [(bf_fragment_id f, bf_name f, [\<lparr>fd_cursor = c, fd_data = f\<rparr>])]"
    using Cons.prems(2) push_body_append [of body "\<lparr>fd_cursor = c, fd_data = f\<rparr>" "[]"] by simp
  moreover have "\<forall>e \<in> set (body @ [(bf_fragment_id f, bf_name f, [\<lparr>fd_cursor = c, fd_data = f\<rparr>])]). \<forall>g \<in> set frs. fst e \<noteq> bf_fragment_id g"
    using Cons.prems by (auto simp: image_iff)
  ultimately show ?case using Cons.IH Cons.prems(1) by simp
qed simp

lemma push_all_existing:
  assumes "distinct (map fst (pre @ body))" and "map fst body = map bf_fragment_id frs"
  shows "foldl (\<lambda>body fr. push_body \<lparr>fd_cursor = c, fd_data = fr\<rparr> body) (pre @ body) frs =
    pre @ map2 (\<lambda>(fid, name, ds) f. (fid, name, ds @ [\<lparr>fd_cursor = c, fd_data = f\<rparr>])) body frs"
  using assms
proof (induction frs arbitrary: pre body)
  case (Cons f frs)
  then obtain fid name ds rest where body: "body = (fid, name, ds) # rest" and fid: "fid = bf_fragment_id f"
    by (cases body) auto
  let ?e = "(fid, name, ds @ [\<lparr>fd_cursor = c, fd_data = f\<rparr>])"
  have step: "push_body \<lparr>fd_cursor = c, fd_data = f\<rparr> (pre @ body) = (pre @ [?e]) @ rest"
    using push_body_append [of pre "\<lparr>fd_cursor = c, fd_data = f\<rparr>" body] Cons.prems(1)
    by (fastforce simp: body fid image_iff)
  have "map fst ((pre @ [?e]) @ rest) = map fst (pre @ body)" by (simp add: body)
  then have "distinct (map fst ((pre @ [?e]) @ rest))" using Cons.prems(1) by argo
  moreover have "map fst rest = map bf_fragment_id frs" using Cons.prems(2) by (simp add: body)
  ultimately have "foldl (\<lambda>body fr. push_body \<lparr>fd_cursor = c, fd_data = fr\<rparr> body) ((pre @ [?e]) @ rest) frs =
      (pre @ [?e]) @ map2 (\<lambda>(fid, name, ds) f. (fid, name, ds @ [\<lparr>fd_cursor = c, fd_data = f\<rparr>])) rest frs"
    by (rule Cons.IH)
  then show ?case by (simp only: foldl_Cons step) (simp add: body)
qed simp

lemma body_of_first: "uniform_fragments fns blk \<Longrightarrow>
    map (\<lambda>f. (bf_fragment_id f, bf_name f, [\<lparr>fd_cursor = c, fd_data = f\<rparr>])) (blk_body blk) = body_of fns [(c, blk)]"
  by (rule nth_equalityI) (auto simp: uniform_fragments_def body_of_def)

lemma body_of_snoc:
  assumes "uniform_fragments fns blk"
  shows "map2 (\<lambda>(fid, name, ds) f. (fid, name, ds @ [\<lparr>fd_cursor = c, fd_data = f\<rparr>])) (body_of fns cbs) (blk_body blk) =
    body_of fns (cbs @ [(c, blk)])"
proof -
  have "length fns = length (blk_body blk)" using assms by (auto simp: uniform_fragments_def)
  then show ?thesis by (intro nth_equalityI) (auto simp: body_of_def)
qed

lemma map_fst_body_of: "map fst (body_of fns cbs) = map fst fns"
  by (intro nth_equalityI) (auto simp: body_of_def)

lemma push_blocks_body:
  assumes "distinct (map fst fns)" and "uniform_fragments fns blk"
  shows "foldl (\<lambda>body fr. push_body \<lparr>fd_cursor = c, fd_data = fr\<rparr> body)
      (if cbs = [] then [] else body_of fns cbs) (blk_body blk) = body_of fns (cbs @ [(c, blk)])"
proof -
  have ids: "map bf_fragment_id (blk_body blk) = map fst fns"
    using assms(2) by (auto simp: uniform_fragments_def)
  show ?thesis
  proof (cases "cbs = []")
    case True
    then show ?thesis using push_all_new [of "blk_body blk" "[]" c] assms(1) ids body_of_first [OF assms(2)] by simp
  next
    case False
    then show ?thesis
      using push_all_existing [of "[]" "body_of fns cbs" "blk_body blk" c] assms ids body_of_snoc [OF assms(2)]
      by (simp add: map_fst_body_of)
  qed
qed

text \<open>What the builder holds after a run of blocks.\<close>

definition builder_holds ::
  "(fragment_id \<times> string) list \<Rightarrow> cursor option \<Rightarrow> (cursor \<times> block) list \<Rightarrow> segment_builder \<Rightarrow> bool" where
  "builder_holds fns first cbs b \<longleftrightarrow>
     sb_first_block b = first \<and>
     sb_expected_fragment_count b = (if cbs = [] then None else Some (length fns)) \<and>
     sb_indexes b = map (\<lambda>(c, blk). \<lparr>fd_cursor = c, fd_data = blk_index blk\<rparr>) cbs \<and>
     sb_joins b = map (\<lambda>(c, blk). \<lparr>fd_cursor = c, fd_data = blk_join blk\<rparr>) cbs \<and>
     sb_headers b = map (\<lambda>(c, blk). \<lparr>fd_cursor = c, fd_data = blk_header blk\<rparr>) cbs \<and>
     sb_body b = (if cbs = [] then [] else body_of fns cbs)"

lemma add_block_holds:
  assumes "distinct (map fst fns)" and "builder_holds fns first cbs b"
    and "from_bytes (sd_block S) bytes = Some blk" and "uniform_fragments fns blk"
  shows "\<exists>b'. add_block S c bytes b = Ok b' \<and> builder_holds fns first (cbs @ [(c, blk)]) b'"
proof -
  have "length (blk_body blk) = length fns" using assms(4) by (auto simp: uniform_fragments_def)
  then show ?thesis
    using assms(2,3) push_blocks_body [OF assms(1,4), of c cbs]
    by (cases "cbs = []") (simp_all add: add_block_def builder_holds_def)
qed

lemma add_blocks_holds:
  assumes "distinct (map fst fns)" and "builder_holds fns first cbs b"
    and "list_all2 (\<lambda>(c, bytes) (c', blk). c = c' \<and> from_bytes (sd_block S) bytes = Some blk) blocks cbs'"
    and "\<forall>(c, blk) \<in> set cbs'. uniform_fragments fns blk"
  shows "\<exists>b'. add_blocks S blocks b = Ok b' \<and> builder_holds fns first (cbs @ cbs') b'"
  using assms(3,2,4)
proof (induction blocks cbs' arbitrary: cbs b rule: list_all2_induct)
  case Nil
  then show ?case by simp
next
  case (Cons x xs y ys)
  obtain c bytes blk where x: "x = (c, bytes)" and y: "y = (c, blk)" and dec: "from_bytes (sd_block S) bytes = Some blk"
    using Cons.hyps(1) by (cases x; cases y) auto
  have "uniform_fragments fns blk" using Cons.prems(2) y by auto
  from add_block_holds [OF assms(1) Cons.prems(1) dec this, of c]
  obtain b' where "add_block S c bytes b = Ok b'" and "builder_holds fns first (cbs @ [(c, blk)]) b'" by blast
  then show ?case using Cons.IH [of "cbs @ [(c, blk)]" b'] Cons.prems(2) x y by simp
qed

text \<open>rkyv round trips at the types of the segments.\<close>

definition serde_ok :: "'a serde \<Rightarrow> bool" where
  "serde_ok s \<longleftrightarrow> (\<forall>x bs. to_bytes s x = Some bs \<longrightarrow> from_bytes s bs = Some x)"

locale segment_codec =
  fixes S :: segment_serde
  assumes index_serde: "serde_ok (sd_index S)" and join_serde: "serde_ok (sd_join S)"
    and header_serde: "serde_ok (sd_header S)" and body_serde: "serde_ok (sd_body S)"
begin

lemma serialize_body_all:
  assumes "serialize_body S first n segments = Ok ss"
  shows "list_all2 (\<lambda>(name, data) s. ss_name s = name \<and> length data = n \<and>
    from_bytes (sd_body S) (ss_data s) = Some \<lparr>seg_first_block = first, seg_data = data\<rparr>) segments ss"
  using assms
proof (induction segments arbitrary: ss)
  case (Cons e segments)
  obtain name data where e: "e = (name, data)" by (cases e)
  then show ?case
    using Cons body_serde by (auto simp: outcome_simps serialize_segment_def serde_ok_def split: if_splits option.splits)
qed simp

lemma serialize_segment_eq:
  "serde_ok s \<Longrightarrow> serialize_segment s first name data = Ok x \<Longrightarrow>
    ss_name x = name \<and> from_bytes s (ss_data x) = Some \<lparr>seg_first_block = first, seg_data = data\<rparr>"
  by (auto simp: serialize_segment_def serde_ok_def split: option.splits)

text \<open>The files of a segment: every fragment with its data, block by block.\<close>

lemma segment_data_files:
  assumes holds: "builder_holds fns (Some first) cbs b" and "cbs \<noteq> []"
    and order: "mset (hash_order (map snd (sb_body b))) = mset (map snd (sb_body b))"
    and "segment_data S hash_order b = Ok (segs, b')"
  shows "\<exists>ix jn hd body. segs = [ix, jn, hd] @ body \<and>
    ss_name ix = INDEX_FRAGMENT_NAME \<and> ss_name jn = JOIN_FRAGMENT_NAME \<and> ss_name hd = HEADER_FRAGMENT_NAME \<and>
    from_bytes (sd_index S) (ss_data ix) =
      Some \<lparr>seg_first_block = first, seg_data = map (\<lambda>(c, blk). \<lparr>fd_cursor = c, fd_data = blk_index blk\<rparr>) cbs\<rparr> \<and>
    from_bytes (sd_join S) (ss_data jn) =
      Some \<lparr>seg_first_block = first, seg_data = map (\<lambda>(c, blk). \<lparr>fd_cursor = c, fd_data = blk_join blk\<rparr>) cbs\<rparr> \<and>
    from_bytes (sd_header S) (ss_data hd) =
      Some \<lparr>seg_first_block = first, seg_data = map (\<lambda>(c, blk). \<lparr>fd_cursor = c, fd_data = blk_header blk\<rparr>) cbs\<rparr> \<and>
    list_all2 (\<lambda>(name, data) s. ss_name s = name \<and>
      from_bytes (sd_body S) (ss_data s) = Some \<lparr>seg_first_block = first, seg_data = data\<rparr>)
      (hash_order (map snd (body_of fns cbs))) body"
proof -
  note h = holds [unfolded builder_holds_def]
  obtain ix jn hd body where segs: "segs = [ix, jn, hd] @ body"
    and ix: "serialize_segment (sd_index S) first INDEX_FRAGMENT_NAME (sb_indexes b) = Ok ix"
    and jn: "serialize_segment (sd_join S) first JOIN_FRAGMENT_NAME (sb_joins b) = Ok jn"
    and hd: "serialize_segment (sd_header S) first HEADER_FRAGMENT_NAME (sb_headers b) = Ok hd"
    and body: "serialize_body S first (length (sb_headers b)) (hash_order (map snd (sb_body b))) = Ok body"
    using assms(4) h by (auto simp: segment_data_def Let_def outcome_simps split: if_splits)
  have "list_all2 (\<lambda>(name, data) s. ss_name s = name \<and>
      from_bytes (sd_body S) (ss_data s) = Some \<lparr>seg_first_block = first, seg_data = data\<rparr>)
      (hash_order (map snd (body_of fns cbs))) body"
    using list_all2_mono [OF serialize_body_all [OF body]] h assms(2) by (auto simp: split_beta)
  then show ?thesis
    using serialize_segment_eq [OF index_serde ix] serialize_segment_eq [OF join_serde jn]
      serialize_segment_eq [OF header_serde hd] h segs
    by (intro exI [of _ ix] exI [of _ jn] exI [of _ hd] exI [of _ body]) simp
qed

end

context segment_codec
begin

text \<open>The body segment with the name of a fragment holds that fragment of every block.\<close>

lemma body_file:
  assumes table: "fragment_table_ok fns" and order: "mset segments = mset (map snd (body_of fns cbs))"
    and files: "list_all2 (\<lambda>(name, data) s. ss_name s = name \<and>
      from_bytes (sd_body S) (ss_data s) = Some \<lparr>seg_first_block = first, seg_data = data\<rparr>) segments body"
    and s: "s \<in> set body" and j: "j < length fns" and name: "ss_name s = snd (fns ! j)"
  shows "from_bytes (sd_body S) (ss_data s) = Some \<lparr>seg_first_block = first,
    seg_data = map (\<lambda>(c, blk). \<lparr>fd_cursor = c, fd_data = blk_body blk ! j\<rparr>) cbs\<rparr>"
proof -
  obtain p where p: "p < length body" "body ! p = s" using s by (auto simp: in_set_conv_nth)
  obtain n data where nd: "segments ! p = (n, data)" by force
  have len: "length segments = length body" using list_all2_lengthD [OF files] .
  have read: "ss_name s = n" "from_bytes (sd_body S) (ss_data s) = Some \<lparr>seg_first_block = first, seg_data = data\<rparr>"
    using list_all2_nthD2 [OF files p(1)] nd p(2) by auto
  have "(n, data) \<in> set segments" using nd p(1) len by (metis nth_mem)
  then have "(n, data) \<in> set (map snd (body_of fns cbs))" using order by (metis set_mset_mset)
  then obtain k where k: "k < length fns" "n = snd (fns ! k)"
    "data = map (\<lambda>(c, blk). \<lparr>fd_cursor = c, fd_data = blk_body blk ! k\<rparr>) cbs"
    by (auto simp: body_of_def)
  have "distinct (map snd fns)" using table by (simp add: fragment_table_ok_def)
  from nth_eq_iff_index_eq [OF this, of k j] have "k = j" using k name read(1) j by simp
  then show ?thesis using read k by simp
qed

lemma segment_files_read:
  assumes table: "fragment_table_ok fns" and holds: "builder_holds fns (Some first) cbs b" and ne: "cbs \<noteq> []"
    and order: "\<And>xs. mset (hash_order xs) = mset xs" and data: "segment_data S hash_order b = Ok (segs, b')"
    and s: "s \<in> set segs"
  shows "ss_name s = INDEX_FRAGMENT_NAME \<Longrightarrow> from_bytes (sd_index S) (ss_data s) =
      Some \<lparr>seg_first_block = first, seg_data = map (\<lambda>(c, blk). \<lparr>fd_cursor = c, fd_data = blk_index blk\<rparr>) cbs\<rparr>"
    and "ss_name s = JOIN_FRAGMENT_NAME \<Longrightarrow> from_bytes (sd_join S) (ss_data s) =
      Some \<lparr>seg_first_block = first, seg_data = map (\<lambda>(c, blk). \<lparr>fd_cursor = c, fd_data = blk_join blk\<rparr>) cbs\<rparr>"
    and "ss_name s = HEADER_FRAGMENT_NAME \<Longrightarrow> from_bytes (sd_header S) (ss_data s) =
      Some \<lparr>seg_first_block = first, seg_data = map (\<lambda>(c, blk). \<lparr>fd_cursor = c, fd_data = blk_header blk\<rparr>) cbs\<rparr>"
    and "j < length fns \<Longrightarrow> ss_name s = snd (fns ! j) \<Longrightarrow> from_bytes (sd_body S) (ss_data s) =
      Some \<lparr>seg_first_block = first, seg_data = map (\<lambda>(c, blk). \<lparr>fd_cursor = c, fd_data = blk_body blk ! j\<rparr>) cbs\<rparr>"
proof -
  obtain ix jn hd body where segs: "segs = [ix, jn, hd] @ body"
    and names: "ss_name ix = INDEX_FRAGMENT_NAME" "ss_name jn = JOIN_FRAGMENT_NAME" "ss_name hd = HEADER_FRAGMENT_NAME"
    and read: "from_bytes (sd_index S) (ss_data ix) =
      Some \<lparr>seg_first_block = first, seg_data = map (\<lambda>(c, blk). \<lparr>fd_cursor = c, fd_data = blk_index blk\<rparr>) cbs\<rparr>"
    "from_bytes (sd_join S) (ss_data jn) =
      Some \<lparr>seg_first_block = first, seg_data = map (\<lambda>(c, blk). \<lparr>fd_cursor = c, fd_data = blk_join blk\<rparr>) cbs\<rparr>"
    "from_bytes (sd_header S) (ss_data hd) =
      Some \<lparr>seg_first_block = first, seg_data = map (\<lambda>(c, blk). \<lparr>fd_cursor = c, fd_data = blk_header blk\<rparr>) cbs\<rparr>"
    and body: "list_all2 (\<lambda>(name, data) s. ss_name s = name \<and>
      from_bytes (sd_body S) (ss_data s) = Some \<lparr>seg_first_block = first, seg_data = data\<rparr>)
      (hash_order (map snd (body_of fns cbs))) body"
    using segment_data_files [OF holds ne order data] by blast
  have body_names: "ss_name x \<in> set (map snd fns)" if x: "x \<in> set body" for x
  proof -
    obtain p where p: "p < length body" "body ! p = x" using x by (auto simp: in_set_conv_nth)
    moreover have "p < length (hash_order (map snd (body_of fns cbs)))" using p(1) list_all2_lengthD [OF body] by simp
    moreover have "ss_name x = fst (hash_order (map snd (body_of fns cbs)) ! p)"
      using list_all2_nthD2 [OF body p(1)] p(2) by (auto split: prod.splits)
    ultimately have "ss_name x \<in> fst ` set (hash_order (map snd (body_of fns cbs)))" by (metis imageI nth_mem)
    also have "set (hash_order (map snd (body_of fns cbs))) = set (map snd (body_of fns cbs))"
      using order by (metis set_mset_mset)
    finally show ?thesis by (auto simp: body_of_def)
  qed
  note distinct_names = table [unfolded fragment_table_ok_def]
  show "ss_name s = INDEX_FRAGMENT_NAME \<Longrightarrow> from_bytes (sd_index S) (ss_data s) =
      Some \<lparr>seg_first_block = first, seg_data = map (\<lambda>(c, blk). \<lparr>fd_cursor = c, fd_data = blk_index blk\<rparr>) cbs\<rparr>"
    using s segs names read(1) body_names [of s] distinct_names by auto
  show "ss_name s = JOIN_FRAGMENT_NAME \<Longrightarrow> from_bytes (sd_join S) (ss_data s) =
      Some \<lparr>seg_first_block = first, seg_data = map (\<lambda>(c, blk). \<lparr>fd_cursor = c, fd_data = blk_join blk\<rparr>) cbs\<rparr>"
    using s segs names read(2) body_names [of s] distinct_names by auto
  show "ss_name s = HEADER_FRAGMENT_NAME \<Longrightarrow> from_bytes (sd_header S) (ss_data s) =
      Some \<lparr>seg_first_block = first, seg_data = map (\<lambda>(c, blk). \<lparr>fd_cursor = c, fd_data = blk_header blk\<rparr>) cbs\<rparr>"
    using s segs names read(3) body_names [of s] distinct_names by auto
  show "from_bytes (sd_body S) (ss_data s) =
      Some \<lparr>seg_first_block = first, seg_data = map (\<lambda>(c, blk). \<lparr>fd_cursor = c, fd_data = blk_body blk ! j\<rparr>) cbs\<rparr>"
    if j: "j < length fns" and name: "ss_name s = snd (fns ! j)"
  proof -
    have "ss_name s \<in> set (map snd fns)" using j name by simp
    then have "s \<noteq> ix" "s \<noteq> jn" "s \<noteq> hd" using names distinct_names by fastforce+
    then have "s \<in> set body" using s segs by simp
    then show ?thesis using body_file [OF table order body _ j name] by blast
  qed
qed

end

text \<open>A segment's files as a stream fetches them, by fragment id.\<close>

definition segment_fetched ::
  "(fragment_id \<times> string) list \<Rightarrow> serialized_segment list \<Rightarrow> 'b segment_access \<Rightarrow> bool" where
  "segment_fetched fns segs sa \<longleftrightarrow>
     list_all (\<lambda>(fid, name). list_ex (\<lambda>s. ss_name s = name \<and> sa_fragments sa fid = Some (ss_data s)) segs)
       ([(INDEX_FRAGMENT_ID, INDEX_FRAGMENT_NAME), (JOIN_FRAGMENT_ID, JOIN_FRAGMENT_NAME),
         (HEADER_FRAGMENT_ID, HEADER_FRAGMENT_NAME)] @ fns)"

lemma segment_fetchedD: "segment_fetched fns segs sa \<Longrightarrow>
    (fid, name) \<in> set ([(INDEX_FRAGMENT_ID, INDEX_FRAGMENT_NAME), (JOIN_FRAGMENT_ID, JOIN_FRAGMENT_NAME),
         (HEADER_FRAGMENT_ID, HEADER_FRAGMENT_NAME)] @ fns) \<Longrightarrow>
    \<exists>s \<in> set segs. ss_name s = name \<and> sa_fragments sa fid = Some (ss_data s)"
  unfolding segment_fetched_def list_all_iff list_ex_iff by fastforce

lemma segment_entry_read:
  assumes "\<exists>x \<in> set segs. ss_name x = name \<and> sa_fragments sa fid = Some (ss_data x)"
    and "\<And>x. x \<in> set segs \<Longrightarrow> ss_name x = name \<Longrightarrow> from_bytes s (ss_data x) =
      Some \<lparr>seg_first_block = first, seg_data = map (\<lambda>(c, blk). \<lparr>fd_cursor = c, fd_data = f blk\<rparr>) cbs\<rparr>"
    and "i < length cbs"
  shows "segment_entry s fid \<lparr>sba_offset = i, sba_segment = sa\<rparr> = Ok (f (snd (cbs ! i)))"
proof -
  obtain x where x: "x \<in> set segs" "ss_name x = name" and "sa_fragments sa fid = Some (ss_data x)"
    using assms(1) by blast
  then show ?thesis
    using assms(2) [OF x] assms(3) by (simp add: segment_entry_def access_unchecked_def fetch_def split_beta)
qed

lemma find_fragment_nth:
  assumes "distinct (map f xs)" and "j < length xs"
  shows "find_fragment f (f (xs ! j)) xs = Ok (xs ! j)"
  using assms
proof (induction xs arbitrary: j)
  case (Cons x xs)
  show ?case
  proof (cases j)
    case 0
    then show ?thesis by (simp add: find_fragment_def)
  next
    case (Suc k)
    then have "f x \<noteq> f (xs ! k)" using Cons.prems by (metis distinct.simps(2) length_Cons list.simps(9) image_eqI
        list.set_map nth_mem Suc_less_eq)
    then show ?thesis using Cons Suc by (simp add: find_fragment_def)
  qed
qed simp

lemma segment_agrees:
  fixes sa :: "'b segment_access"
  assumes S: "segment_codec S" and table: "fragment_table_ok fns" and order: "\<And>xs. mset (hash_order xs) = mset xs"
    and blocks: "\<forall>(c, bytes) \<in> set blocks. \<exists>blk. from_bytes (sd_block S) bytes = Some blk \<and> uniform_fragments fns blk"
    and build: "obind (start_new_segment first default_segment_builder) (add_blocks S blocks) = Ok b"
    and data: "segment_data S hash_order b = Ok (segs, b')" and fetched: "segment_fetched fns segs sa"
    and i: "i < length blocks" and fid: "fid \<in> set (map fst fns)"
  shows "get_index_fragment S fid (SegmentFA \<lparr>sba_offset = i, sba_segment = sa\<rparr>) = get_index_fragment S fid (BlockFA (snd (blocks ! i)) :: 'b fragment_access) \<and>
    get_join_fragment S fid (SegmentFA \<lparr>sba_offset = i, sba_segment = sa\<rparr>) = get_join_fragment S fid (BlockFA (snd (blocks ! i)) :: 'b fragment_access) \<and>
    get_header_fragment S (SegmentFA \<lparr>sba_offset = i, sba_segment = sa\<rparr>) = get_header_fragment S (BlockFA (snd (blocks ! i)) :: 'b fragment_access) \<and>
    get_body_fragment S fid (SegmentFA \<lparr>sba_offset = i, sba_segment = sa\<rparr>) = get_body_fragment S fid (BlockFA (snd (blocks ! i)) :: 'b fragment_access)"
proof -
  define cbs where "cbs = map (\<lambda>(c, bytes). (c, the (from_bytes (sd_block S) bytes))) blocks"
  have dec: "from_bytes (sd_block S) (snd x) = Some (the (from_bytes (sd_block S) (snd x))) \<and>
      uniform_fragments fns (the (from_bytes (sd_block S) (snd x)))" if "x \<in> set blocks" for x
    using bspec [OF blocks that] by (cases x) auto
  have decoded: "list_all2 (\<lambda>(c, bytes) (c', blk). c = c' \<and> from_bytes (sd_block S) bytes = Some blk) blocks cbs"
    using dec by (simp add: cbs_def list_all2_conv_all_nth split_beta)
  have uniform: "\<forall>(c, blk) \<in> set cbs. uniform_fragments fns blk"
    using dec by (fastforce simp: cbs_def)
  define b0 where "b0 = default_segment_builder\<lparr>sb_first_block := Some first\<rparr>"
  have "builder_holds fns (Some first) [] b0" by (simp add: builder_holds_def b0_def default_segment_builder_def)
  then have holds: "builder_holds fns (Some first) cbs b"
    using add_blocks_holds [OF _ _ decoded uniform] build table
    by (fastforce simp: start_new_segment_def default_segment_builder_def b0_def fragment_table_ok_def)
  have len: "length cbs = length blocks" by (simp add: cbs_def)
  then have ne: "cbs \<noteq> []" using i by auto
  note read = segment_codec.segment_files_read [OF S table holds ne order data]
  obtain blk where blk: "from_bytes (sd_block S) (snd (blocks ! i)) = Some blk" and u: "uniform_fragments fns blk"
    using bspec [OF blocks nth_mem [OF i]] by (cases "blocks ! i") auto
  have nth: "snd (cbs ! i) = blk" using blk i by (simp add: cbs_def split_beta)
  obtain j where j: "j < length fns" "fst (fns ! j) = fid" using fid by (auto simp: in_set_conv_nth)
  have frag: "bf_fragment_id (blk_body blk ! j) = fid" "j < length (blk_body blk)" "distinct (map bf_fragment_id (blk_body blk))"
    using u j table by (auto simp: uniform_fragments_def fragment_table_ok_def comp_def)
  let ?a = "\<lparr>sba_offset = i, sba_segment = sa\<rparr> :: 'b segment_block_access"
  have i': "i < length cbs" using i len by simp
  have index: "segment_entry (sd_index S) INDEX_FRAGMENT_ID ?a = Ok (blk_index blk)"
    unfolding nth [symmetric]
    by (rule segment_entry_read [where f = "blk_index" and name = "INDEX_FRAGMENT_NAME" and segs = segs and first = first])
      (use segment_fetchedD [OF fetched, of INDEX_FRAGMENT_ID "INDEX_FRAGMENT_NAME"] read(1) i'  in auto)
  have join: "segment_entry (sd_join S) JOIN_FRAGMENT_ID ?a = Ok (blk_join blk)"
    unfolding nth [symmetric]
    by (rule segment_entry_read [where f = "blk_join" and name = "JOIN_FRAGMENT_NAME" and segs = segs and first = first])
      (use segment_fetchedD [OF fetched, of JOIN_FRAGMENT_ID "JOIN_FRAGMENT_NAME"] read(2) i'  in auto)
  have header: "segment_entry (sd_header S) HEADER_FRAGMENT_ID ?a = Ok (blk_header blk)"
    unfolding nth [symmetric]
    by (rule segment_entry_read [where f = "blk_header" and name = "HEADER_FRAGMENT_NAME" and segs = segs and first = first])
      (use segment_fetchedD [OF fetched, of HEADER_FRAGMENT_ID "HEADER_FRAGMENT_NAME"] read(3) i'  in auto)
  have entry: "(fid, snd (fns ! j)) \<in> set fns" using j by (metis nth_mem prod.collapse)
  have body: "segment_entry (sd_body S) fid ?a = Ok (blk_body blk ! j)"
    unfolding nth [symmetric]
    by (rule segment_entry_read [where f = "\<lambda>blk. blk_body blk ! j" and name = "snd (fns ! j)" and segs = segs and first = first])
      (use segment_fetchedD [OF fetched, of fid "snd (fns ! j)"] read(4) [OF _ j(1)] i' entry in auto)
  have "find_fragment bf_fragment_id fid (blk_body blk) = Ok (blk_body blk ! j)"
    using find_fragment_nth [OF frag(3,2)] frag(1) by simp
  then show ?thesis
    using index join header body blk
    by (simp add: segment_index_fragment_def segment_join_fragment_def segment_header_fragment_def segment_body_fragment_def
        block_index_fragment_def block_join_fragment_def block_header_fragment_def block_body_fragment_def access_unchecked_def)
qed

text \<open>C17: Reading a block through its segment is reading the block. When a segment is built from
  serialised blocks with uniform fragments and its files are fetched, the access at offset \<open>i\<close>
  returns for every fragment the same index, join, header and body as the access to the
  \<open>i\<close>-th block itself, whatever order the builder's hash map iterates in.\<close>

theorem segment_access_agrees:
  fixes sa :: "'b segment_access"
  assumes S: "segment_codec S" and table: "fragment_table_ok fns" and order: "\<And>xs. mset (hash_order xs) = mset xs"
    and blocks: "\<forall>(c, bytes) \<in> set blocks. \<exists>blk. from_bytes (sd_block S) bytes = Some blk \<and> uniform_fragments fns blk"
    and build: "obind (start_new_segment first default_segment_builder) (add_blocks S blocks) = Ok b"
    and data: "segment_data S hash_order b = Ok (segs, b')" and fetched: "segment_fetched fns segs sa"
    and i: "i < length blocks" and fid: "fid \<in> set (map fst fns)"
  shows "get_index_fragment S fid (SegmentFA \<lparr>sba_offset = i, sba_segment = sa\<rparr>) = get_index_fragment S fid (BlockFA (snd (blocks ! i)) :: 'b fragment_access) \<and>
    get_join_fragment S fid (SegmentFA \<lparr>sba_offset = i, sba_segment = sa\<rparr>) = get_join_fragment S fid (BlockFA (snd (blocks ! i)) :: 'b fragment_access) \<and>
    get_header_fragment S (SegmentFA \<lparr>sba_offset = i, sba_segment = sa\<rparr>) = get_header_fragment S (BlockFA (snd (blocks ! i)) :: 'b fragment_access) \<and>
    get_body_fragment S fid (SegmentFA \<lparr>sba_offset = i, sba_segment = sa\<rparr>) = get_body_fragment S fid (BlockFA (snd (blocks ! i)) :: 'b fragment_access)"
  using segment_agrees [OF assms] .

lemma table_serde_ok [simp]: "serde_ok (table_serde xs)"
  by (simp add: serde_ok_def table_serde_inverse)

definition table_segment_serde ::
  "block list \<Rightarrow> index_group_fragment segment list \<Rightarrow> join_group_fragment segment list
    \<Rightarrow> header_fragment segment list \<Rightarrow> body_fragment segment list \<Rightarrow> segment_serde" where
  "table_segment_serde blocks indexes joins headers bodies = \<lparr>sd_block = table_serde blocks,
     sd_index = table_serde indexes, sd_join = table_serde joins, sd_header = table_serde headers, sd_body = table_serde bodies\<rparr>"

interpretation table_codec: segment_codec "table_segment_serde blocks indexes joins headers bodies"
  by unfold_locales (simp_all add: table_segment_serde_def)

text \<open>Two blocks with one body fragment and their segment.\<close>

definition demo_segment_block :: "u8 \<Rightarrow> block" where
  "demo_segment_block b = \<lparr>blk_header = \<lparr>hf_data = [b]\<rparr>,
     blk_index = \<lparr>igf_indexes = [\<lparr>ixf_fragment_id = 2, ixf_range_start = 0, ixf_range_len = 1, ixf_indexes = []\<rparr>]\<rparr>,
     blk_join = \<lparr>jgf_joins = [\<lparr>jf_fragment_id = 2, jf_joins = []\<rparr>]\<rparr>,
     blk_body = [\<lparr>bf_fragment_id = 2, bf_name = ''transaction'', bf_data = [[b, b]]\<rparr>]\<rparr>"

definition demo_segment_of :: "(block \<Rightarrow> 'a) \<Rightarrow> 'a segment" where
  "demo_segment_of f = \<lparr>seg_first_block = new_finalized 5,
     seg_data = [\<lparr>fd_cursor = mk_cursor 5 (Hash [1]), fd_data = f (demo_segment_block 1)\<rparr>,
                 \<lparr>fd_cursor = mk_cursor 6 (Hash [2]), fd_data = f (demo_segment_block 2)\<rparr>]\<rparr>"

definition demo_segment_serde :: segment_serde where
  "demo_segment_serde = table_segment_serde [demo_segment_block 1, demo_segment_block 2]
     [demo_segment_of blk_index] [demo_segment_of blk_join] [demo_segment_of blk_header] [demo_segment_of (\<lambda>b. blk_body b ! 0)]"

definition demo_segment_access :: "nat list segment_access" where
  "demo_segment_access = \<lparr>sa_first_block = 5, sa_blocks = [5, 6], sa_fragments = (\<lambda>fid. if fid \<in> {0, 1, 2, 255} then Some [0] else None)\<rparr>"

definition demo_segment_blocks :: "(cursor \<times> bytes) list" where
  "demo_segment_blocks = [(mk_cursor 5 (Hash [1]), [0]), (mk_cursor 6 (Hash [2]), [1])]"

lemma demo_segment_built:
  obtains b segs b' where "segment_codec demo_segment_serde" and "fragment_table_ok [(2, ''transaction'')]"
    and "\<forall>(c, bytes) \<in> set demo_segment_blocks. \<exists>blk. from_bytes (sd_block demo_segment_serde) bytes = Some blk \<and>
      uniform_fragments [(2, ''transaction'')] blk"
    and "obind (start_new_segment (new_finalized 5) default_segment_builder) (add_blocks demo_segment_serde demo_segment_blocks) = Ok b"
    and "segment_data demo_segment_serde rev b = Ok (segs, b')" and "segment_fetched [(2, ''transaction'')] segs demo_segment_access"
proof -
  let ?fns = "[(2, ''transaction'')]"
  have dec: "from_bytes (sd_block demo_segment_serde) [0] = Some (demo_segment_block 1)"
    "from_bytes (sd_block demo_segment_serde) [1] = Some (demo_segment_block 2)"
    by (simp_all add: demo_segment_serde_def table_segment_serde_def table_serde_def)
  have uni: "uniform_fragments ?fns (demo_segment_block b)" for b
    by (simp add: uniform_fragments_def demo_segment_block_def)
  define b where "b = \<lparr>sb_expected_fragment_count = Some 1, sb_first_block = Some (new_finalized 5),
     sb_headers = seg_data (demo_segment_of blk_header), sb_indexes = seg_data (demo_segment_of blk_index),
     sb_joins = seg_data (demo_segment_of blk_join),
     sb_body = [(2, ''transaction'', seg_data (demo_segment_of (\<lambda>b. blk_body b ! 0)))]\<rparr>"
  have build: "obind (start_new_segment (new_finalized 5) default_segment_builder) (add_blocks demo_segment_serde demo_segment_blocks) = Ok b"
    by (simp add: start_new_segment_def default_segment_builder_def add_block_def dec b_def demo_segment_of_def demo_segment_blocks_def)
      (simp add: demo_segment_block_def)
  have seg: "(\<lparr>seg_first_block = new_finalized 5, seg_data = seg_data (demo_segment_of f)\<rparr> :: 'z segment) = demo_segment_of f" for f
    by (simp add: demo_segment_of_def)
  let ?segs = "[\<lparr>ss_name = INDEX_FRAGMENT_NAME, ss_data = [0]\<rparr>, \<lparr>ss_name = JOIN_FRAGMENT_NAME, ss_data = [0]\<rparr>,
    \<lparr>ss_name = HEADER_FRAGMENT_NAME, ss_data = [0]\<rparr>, \<lparr>ss_name = ''transaction'', ss_data = [0]\<rparr>] :: serialized_segment list"
  have len: "length (seg_data (demo_segment_of f)) = 2" for f :: "block \<Rightarrow> 'z" by (simp add: demo_segment_of_def)
  obtain b' where data: "segment_data demo_segment_serde rev b = Ok (?segs, b')"
    by (simp add: segment_data_def b_def serialize_segment_def demo_segment_serde_def table_segment_serde_def table_serde_def
        seg len)
  have fetched: "segment_fetched ?fns ?segs demo_segment_access"
    by (simp add: segment_fetched_def demo_segment_access_def fragment_names)
  have codec: "segment_codec demo_segment_serde"
    unfolding demo_segment_serde_def by (rule table_codec.segment_codec_axioms)
  have table: "fragment_table_ok ?fns" by (simp add: fragment_table_ok_def fragment_names)
  have blocks: "\<forall>(c, bytes) \<in> set demo_segment_blocks. \<exists>blk. from_bytes (sd_block demo_segment_serde) bytes = Some blk \<and> uniform_fragments ?fns blk"
    using dec uni by (simp add: demo_segment_blocks_def)
  show thesis by (rule that [OF codec table blocks build data fetched])
qed

theorem segment_access_agrees_witness:
  "\<exists>b segs b'. obind (start_new_segment (new_finalized 5) default_segment_builder) (add_blocks demo_segment_serde demo_segment_blocks) = Ok b \<and>
     segment_data demo_segment_serde rev b = Ok (segs, b') \<and>
     get_body_fragment demo_segment_serde 2 (SegmentFA \<lparr>sba_offset = 1, sba_segment = demo_segment_access\<rparr>) =
       get_body_fragment demo_segment_serde 2 (BlockFA [1] :: nat list fragment_access)"
proof -
  obtain b segs b' where built: "segment_codec demo_segment_serde" "fragment_table_ok [(2, ''transaction'')]"
    "\<forall>(c, bytes) \<in> set demo_segment_blocks. \<exists>blk. from_bytes (sd_block demo_segment_serde) bytes = Some blk \<and>
      uniform_fragments [(2, ''transaction'')] blk"
    "obind (start_new_segment (new_finalized 5) default_segment_builder) (add_blocks demo_segment_serde demo_segment_blocks) = Ok b"
    "segment_data demo_segment_serde rev b = Ok (segs, b')" "segment_fetched [(2, ''transaction'')] segs demo_segment_access"
    by (rule demo_segment_built)
  show ?thesis
    using segment_access_agrees [OF built(1,2) _ built(3-6), of 1 2] built(4,5) by (simp add: demo_segment_blocks_def)
qed

end
