(* ===== verification/SegmentGroups.thy ===== *)
theory SegmentGroups
  imports Segments
begin

text \<open>
  Segment groups: \<open>common/src/compaction/group_builder.rs\<close>. A group index maps, for every fragment,
  index and key, to the blocks in which the key occurs. The main result is that a filter evaluated
  on the group index selects every block of the group in which it selects a row.
\<close>

section \<open>The group builder\<close>

type_synonym 'b fragment_indexes = "(index_id, 'b bitmap_index_builder) btree_map"
type_synonym 'b block_indexes = "(fragment_id, 'b fragment_indexes) btree_map"

record 'b group_builder =
  gb_segment_size :: nat
  gb_segment_count :: nat
  gb_block_range :: "(cursor \<times> nat) option"
  gb_block_indexes :: "'b block_indexes"

definition group_builder_new :: "nat \<Rightarrow> 'b group_builder" where
  "group_builder_new sz = \<lparr>gb_segment_size = sz, gb_segment_count = 0, gb_block_range = None, gb_block_indexes = []\<rparr>"

definition add_index_entry :: "'b roaring \<Rightarrow> nat \<Rightarrow> index_entry \<Rightarrow> 'b fragment_indexes \<Rightarrow> 'b fragment_indexes" where
  "add_index_entry R block_number index m =
     bt_entry [] (ie_index_id index) (\<lambda>block_index.
       case ie_index index of
         BitmapI bitmap_index \<Rightarrow>
           foldl (\<lambda>block_index key. bitmap_index_insert R key block_number block_index) block_index (bx_keys bitmap_index)
       | EmptyI \<Rightarrow> block_index) m"

definition add_index_fragment :: "'b roaring \<Rightarrow> nat \<Rightarrow> index_fragment \<Rightarrow> 'b block_indexes \<Rightarrow> 'b block_indexes" where
  "add_index_fragment R block_number fr m =
     bt_entry [] (ixf_fragment_id fr) (\<lambda>fm. foldl (\<lambda>fm index. add_index_entry R block_number index fm) fm (ixf_indexes fr)) m"

definition add_block_data ::
  "'b roaring \<Rightarrow> index_group_fragment fragment_data \<Rightarrow> 'b block_indexes \<Rightarrow> 'b block_indexes" where
  "add_block_data R d m =
     foldl (\<lambda>m fr. add_index_fragment R (as_u32 (cur_number (fd_cursor d))) fr m) m (igf_indexes (fd_data d))"

definition add_segment ::
  "'b roaring \<Rightarrow> index_group_fragment segment \<Rightarrow> 'b group_builder \<Rightarrow> 'b group_builder" where
  "add_segment R segment g =
     (let segment_cursor = seg_first_block segment;
          segment_end = u64_sub (u64_add (cur_number segment_cursor) (gb_segment_size g)) 1
      in g\<lparr>gb_block_range := (case gb_block_range g of
               None \<Rightarrow> Some (segment_cursor, segment_end)
             | Some (first, _) \<Rightarrow> Some (first, segment_end)),
           gb_block_indexes := foldl (\<lambda>m d. add_block_data R d m) (gb_block_indexes g) (seg_data segment),
           gb_segment_count := gb_segment_count g + 1\<rparr>)"

fun build_fragment_indexes ::
  "'b roaring \<Rightarrow> (index_id \<times> 'b bitmap_index_builder) list \<Rightarrow> (index_entry list, compaction_error) outcome" where
  "build_fragment_indexes R [] = Ok []"
| "build_fragment_indexes R ((i, builder) # m) =
     obind (map_err (\<lambda>_. CompactionError) (bitmap_index_build R builder)) (\<lambda>index.
     obind (build_fragment_indexes R m) (\<lambda>rest. Ok (\<lparr>ie_index_id = i, ie_index = BitmapI index\<rparr> # rest)))"

fun build_block_indexes ::
  "'b roaring \<Rightarrow> nat \<Rightarrow> nat \<Rightarrow> (fragment_id \<times> 'b fragment_indexes) list \<Rightarrow> (index_fragment list, compaction_error) outcome" where
  "build_block_indexes R range_start range_len [] = Ok []"
| "build_block_indexes R range_start range_len ((fid, fm) # m) =
     obind (build_fragment_indexes R fm) (\<lambda>indexes.
     obind (build_block_indexes R range_start range_len m) (\<lambda>rest.
     Ok (\<lparr>ixf_fragment_id = fid, ixf_range_start = range_start, ixf_range_len = range_len, ixf_indexes = indexes\<rparr> # rest)))"

definition group_build :: "'b roaring \<Rightarrow> 'b group_builder \<Rightarrow> (segment_group, compaction_error) outcome" where
  "group_build R g =
     (case gb_block_range g of
        None \<Rightarrow> Err CompactionError
      | Some (first, last_b) \<Rightarrow>
          let range_start = as_u32 (cur_number first);
              range_len = as_u32 (u64_add (u64_sub last_b (cur_number first)) 1)
          in obind (build_block_indexes R range_start range_len (gb_block_indexes g)) (\<lambda>indexes.
             Ok \<lparr>sg_first_block = first, sg_index = \<lparr>igf_indexes = sort_key ixf_fragment_id indexes\<rparr>\<rparr>))"

section \<open>What is indexed\<close>

text \<open>The nested maps by their lookups.\<close>

definition bix_ok :: "'b block_indexes \<Rightarrow> bool" where
  "bix_ok m \<longleftrightarrow> bt_ok m \<and> (\<forall>f fm. bt_get m f = Some fm \<longrightarrow> bt_ok fm \<and> (\<forall>i bi. bt_get fm i = Some bi \<longrightarrow> bt_ok bi))"

definition fix_ok :: "'b fragment_indexes \<Rightarrow> bool" where
  "fix_ok fm \<longleftrightarrow> bt_ok fm \<and> (\<forall>i bi. bt_get fm i = Some bi \<longrightarrow> bt_ok bi)"

definition key_blocks :: "'b roaring \<Rightarrow> 'b fragment_indexes \<Rightarrow> index_id \<Rightarrow> scalar_value \<Rightarrow> nat set" where
  "key_blocks R fm i key = elements R (bt_get (bt_get_or [] fm i) key)"

definition index_keys :: "index_entry \<Rightarrow> scalar_value set" where
  "index_keys e = (case ie_index e of BitmapI b \<Rightarrow> set (bx_keys b) | EmptyI \<Rightarrow> {})"

lemma bix_ok_alt: "bix_ok m \<longleftrightarrow> bt_ok m \<and> (\<forall>f fm. bt_get m f = Some fm \<longrightarrow> fix_ok fm)"
  by (auto simp: bix_ok_def fix_ok_def)

lemma fix_ok_Nil [simp]: "fix_ok []" and bix_ok_Nil [simp]: "bix_ok []"
  by (simp_all add: fix_ok_def bix_ok_def)

lemma fix_ok_get_or: "fix_ok fm \<Longrightarrow> bt_ok (bt_get_or [] fm i)"
  by (auto simp: fix_ok_def bt_get_or_def split: option.splits)

lemma bix_ok_get_or: "bix_ok m \<Longrightarrow> fix_ok (bt_get_or [] m f)"
  by (auto simp: bix_ok_alt bt_get_or_def split: option.splits)

context roaring_bitmap
begin

lemma insert_keys:
  "bt_ok bi \<Longrightarrow> bt_ok (foldl (\<lambda>bi key. bitmap_index_insert R key n bi) bi keys) \<and>
    elements R (bt_get (foldl (\<lambda>bi key. bitmap_index_insert R key n bi) bi keys) k) =
      elements R (bt_get bi k) \<union> (if k \<in> set keys then {n} else {}) \<and>
    set (bt_keys (foldl (\<lambda>bi key. bitmap_index_insert R key n bi) bi keys)) = set (bt_keys bi) \<union> set keys"
proof (induction keys arbitrary: bi)
  case (Cons key keys)
  have ok: "bt_ok (bitmap_index_insert R key n bi)" using Cons.prems by (simp add: bitmap_index_insert_def)
  have "set (bt_keys (bitmap_index_insert R key n bi)) = insert key (set (bt_keys bi))"
    using bt.keys_insert [OF Cons.prems] by (simp add: bitmap_index_insert_def bt_entry_def)
  then show ?case
    using Cons.IH [OF ok] entry_elements [OF Cons.prems, of key n k] by (auto simp: bitmap_index_insert_def)
qed simp

lemma add_index_entry_spec:
  assumes "fix_ok fm"
  shows "fix_ok (add_index_entry R n e fm)"
    and "key_blocks R (add_index_entry R n e fm) i key =
      key_blocks R fm i key \<union> (if i = ie_index_id e \<and> key \<in> index_keys e then {n} else {})"
    and "set (bt_keys (add_index_entry R n e fm)) = insert (ie_index_id e) (set (bt_keys fm))"
    and "set (bt_keys (bt_get_or [] (add_index_entry R n e fm) i)) =
      set (bt_keys (bt_get_or [] fm i)) \<union> (if i = ie_index_id e then index_keys e else {})"
proof -
  have ok: "bt_ok fm" using assms by (simp add: fix_ok_def)
  define new where "new = (case ie_index e of
         BitmapI b \<Rightarrow> foldl (\<lambda>bi key. bitmap_index_insert R key n bi) (bt_get_or [] fm (ie_index_id e)) (bx_keys b)
       | EmptyI \<Rightarrow> bt_get_or [] fm (ie_index_id e))"
  have add: "add_index_entry R n e fm = bt_insert (ie_index_id e) new fm"
    by (simp add: add_index_entry_def bt_entry_def new_def)
  have new: "bt_ok new" "elements R (bt_get new key) =
      elements R (bt_get (bt_get_or [] fm (ie_index_id e)) key) \<union> (if key \<in> index_keys e then {n} else {})"
    "set (bt_keys new) = set (bt_keys (bt_get_or [] fm (ie_index_id e))) \<union> index_keys e" for key
    using insert_keys [OF fix_ok_get_or [OF assms, of "ie_index_id e"]] fix_ok_get_or [OF assms]
    by (auto simp: new_def index_keys_def split: index.splits)
  show "fix_ok (add_index_entry R n e fm)"
    using assms new(1) by (auto simp: add fix_ok_def ok split: if_splits)
  show "key_blocks R (add_index_entry R n e fm) i key =
      key_blocks R fm i key \<union> (if i = ie_index_id e \<and> key \<in> index_keys e then {n} else {})"
    using new(2) by (auto simp: add key_blocks_def ok)
  show "set (bt_keys (add_index_entry R n e fm)) = insert (ie_index_id e) (set (bt_keys fm))"
    by (simp add: add bt.keys_insert [OF ok])
  show "set (bt_keys (bt_get_or [] (add_index_entry R n e fm) i)) =
      set (bt_keys (bt_get_or [] fm i)) \<union> (if i = ie_index_id e then index_keys e else {})"
    using new(3) by (auto simp: add ok)
qed

lemma add_index_entries_spec:
  assumes "fix_ok fm"
  shows "let fm' = foldl (\<lambda>fm e. add_index_entry R n e fm) fm es in
    fix_ok fm' \<and>
    key_blocks R fm' i key = key_blocks R fm i key \<union>
      (if \<exists>e \<in> set es. i = ie_index_id e \<and> key \<in> index_keys e then {n} else {}) \<and>
    set (bt_keys fm') = set (bt_keys fm) \<union> ie_index_id ` set es \<and>
    set (bt_keys (bt_get_or [] fm' i)) = set (bt_keys (bt_get_or [] fm i)) \<union> {k. \<exists>e \<in> set es. i = ie_index_id e \<and> k \<in> index_keys e}"
  using assms
proof (induction es arbitrary: fm)
  case (Cons e es)
  note step = add_index_entry_spec [OF Cons.prems]
  show ?case
    using Cons.IH [OF step(1) [of n e]] step(2) [of n e i key] step(3) [of n e] step(4) [of n e i]
    by (auto simp: Let_def)
qed (simp add: Let_def)

text \<open>The same lookups on the whole map, by fragment.\<close>

definition indexed :: "'b block_indexes \<Rightarrow> fragment_id \<Rightarrow> index_id \<Rightarrow> scalar_value \<Rightarrow> nat set" where
  "indexed m f i key = key_blocks R (bt_get_or [] m f) i key"

lemma add_index_fragment_spec:
  assumes "bix_ok m"
  shows "bix_ok (add_index_fragment R n fr m)"
    and "indexed (add_index_fragment R n fr m) f i key = indexed m f i key \<union>
      (if f = ixf_fragment_id fr \<and> (\<exists>e \<in> set (ixf_indexes fr). i = ie_index_id e \<and> key \<in> index_keys e) then {n} else {})"
    and "set (bt_keys (add_index_fragment R n fr m)) = insert (ixf_fragment_id fr) (set (bt_keys m))"
    and "set (bt_keys (bt_get_or [] (add_index_fragment R n fr m) f)) = set (bt_keys (bt_get_or [] m f)) \<union>
      (if f = ixf_fragment_id fr then ie_index_id ` set (ixf_indexes fr) else {})"
    and "set (bt_keys (bt_get_or [] (bt_get_or [] (add_index_fragment R n fr m) f) i)) =
      set (bt_keys (bt_get_or [] (bt_get_or [] m f) i)) \<union>
      (if f = ixf_fragment_id fr then {k. \<exists>e \<in> set (ixf_indexes fr). i = ie_index_id e \<and> k \<in> index_keys e} else {})"
proof -
  have ok: "bt_ok m" using assms by (simp add: bix_ok_def)
  define new where "new = foldl (\<lambda>fm e. add_index_entry R n e fm) (bt_get_or [] m (ixf_fragment_id fr)) (ixf_indexes fr)"
  have add: "add_index_fragment R n fr m = bt_insert (ixf_fragment_id fr) new m"
    by (simp add: add_index_fragment_def bt_entry_def new_def)
  note new = add_index_entries_spec [OF bix_ok_get_or [OF assms, of "ixf_fragment_id fr"], of n "ixf_indexes fr",
      unfolded Let_def, folded new_def]
  show "bix_ok (add_index_fragment R n fr m)"
    using assms new by (auto simp: add bix_ok_alt ok split: if_splits)
  show "indexed (add_index_fragment R n fr m) f i key = indexed m f i key \<union>
      (if f = ixf_fragment_id fr \<and> (\<exists>e \<in> set (ixf_indexes fr). i = ie_index_id e \<and> key \<in> index_keys e) then {n} else {})"
    using new by (auto simp: add indexed_def ok)
  show "set (bt_keys (add_index_fragment R n fr m)) = insert (ixf_fragment_id fr) (set (bt_keys m))"
    by (simp add: add bt.keys_insert [OF ok])
  show "set (bt_keys (bt_get_or [] (add_index_fragment R n fr m) f)) = set (bt_keys (bt_get_or [] m f)) \<union>
      (if f = ixf_fragment_id fr then ie_index_id ` set (ixf_indexes fr) else {})"
    using new by (auto simp: add ok)
  show "set (bt_keys (bt_get_or [] (bt_get_or [] (add_index_fragment R n fr m) f) i)) =
      set (bt_keys (bt_get_or [] (bt_get_or [] m f) i)) \<union>
      (if f = ixf_fragment_id fr then {k. \<exists>e \<in> set (ixf_indexes fr). i = ie_index_id e \<and> k \<in> index_keys e} else {})"
    using new by (auto simp: add ok)
qed

end

section \<open>From segments to the group index\<close>

text \<open>The index fragments of a segment with the block numbers they are recorded under.\<close>

definition segment_fragments :: "index_group_fragment segment \<Rightarrow> (nat \<times> index_fragment) list" where
  "segment_fragments s =
     concat (map (\<lambda>d. map (\<lambda>fr. (as_u32 (cur_number (fd_cursor d)), fr)) (igf_indexes (fd_data d))) (seg_data s))"

definition group_of :: "'b roaring \<Rightarrow> nat \<Rightarrow> index_group_fragment segment list \<Rightarrow> 'b group_builder" where
  "group_of R sz segments = foldl (\<lambda>g s. add_segment R s g) (group_builder_new sz) segments"

lemma add_block_data_fragments:
  "add_block_data R d m = foldl (\<lambda>m (n, fr). add_index_fragment R n fr m) m
     (map (\<lambda>fr. (as_u32 (cur_number (fd_cursor d)), fr)) (igf_indexes (fd_data d)))"
  by (simp add: add_block_data_def foldl_map)

lemma add_segment_fragments:
  "foldl (\<lambda>m d. add_block_data R d m) m (seg_data s) =
     foldl (\<lambda>m (n, fr). add_index_fragment R n fr m) m (segment_fragments s)"
proof -
  have "foldl (\<lambda>m d. add_block_data R d m) m ds = foldl (\<lambda>m (n, fr). add_index_fragment R n fr m) m
     (concat (map (\<lambda>d. map (\<lambda>fr. (as_u32 (cur_number (fd_cursor d)), fr)) (igf_indexes (fd_data d))) ds))" for ds
    by (induction ds arbitrary: m) (simp_all add: add_block_data_fragments)
  then show ?thesis by (simp add: segment_fragments_def)
qed

lemma group_of_snoc: "group_of R n (segments @ [s]) = add_segment R s (group_of R n segments)"
  by (simp add: group_of_def)

lemma group_of_indexes:
  "gb_block_indexes (group_of R n segments) =
     foldl (\<lambda>m (k, fr). add_index_fragment R k fr m) [] (concat (map segment_fragments segments))"
proof (induction segments rule: rev_induct)
  case Nil
  then show ?case by (simp add: group_of_def group_builder_new_def)
next
  case (snoc s segments)
  then show ?case by (simp add: group_of_snoc add_segment_def Let_def add_segment_fragments)
qed

lemma group_of_size: "gb_segment_size (group_of R n segments) = n"
  by (induction segments rule: rev_induct) (simp_all add: group_of_def group_builder_new_def add_segment_def Let_def)

lemma group_of_count: "gb_segment_count (group_of R n segments) = length segments"
  by (induction segments rule: rev_induct) (simp_all add: group_of_def group_builder_new_def add_segment_def Let_def)

lemma group_of_range:
  "segments \<noteq> [] \<Longrightarrow> gb_block_range (group_of R n segments) =
     Some (seg_first_block (hd segments), u64_sub (u64_add (cur_number (seg_first_block (last segments))) n) 1)"
proof (induction segments rule: rev_induct)
  case (snoc s segments)
  show ?case
  proof (cases "segments = []")
    case True
    then show ?thesis by (simp add: group_of_def group_builder_new_def add_segment_def Let_def)
  next
    case False
    then show ?thesis using snoc by (simp add: group_of_snoc add_segment_def Let_def group_of_size)
  qed
qed simp

text \<open>\<open>occurs frs f i key n\<close>: the key is in index \<open>i\<close> of fragment \<open>f\<close> of a block recorded under \<open>n\<close>.\<close>

definition occurs :: "(nat \<times> index_fragment) list \<Rightarrow> fragment_id \<Rightarrow> index_id \<Rightarrow> scalar_value \<Rightarrow> nat \<Rightarrow> bool" where
  "occurs frs f i key n \<longleftrightarrow>
     (\<exists>fr e. (n, fr) \<in> set frs \<and> ixf_fragment_id fr = f \<and> e \<in> set (ixf_indexes fr) \<and> ie_index_id e = i \<and> key \<in> index_keys e)"

context roaring_bitmap
begin

lemma add_fragments_spec:
  "let m = foldl (\<lambda>m (n, fr). add_index_fragment R n fr m) [] frs in
    bix_ok m \<and>
    (\<forall>f i key. indexed m f i key = {n. occurs frs f i key n}) \<and>
    set (bt_keys m) = (ixf_fragment_id \<circ> snd) ` set frs \<and>
    (\<forall>f. set (bt_keys (bt_get_or [] m f)) = {i. \<exists>n fr e. (n, fr) \<in> set frs \<and> ixf_fragment_id fr = f \<and> e \<in> set (ixf_indexes fr) \<and> ie_index_id e = i}) \<and>
    (\<forall>f i. set (bt_keys (bt_get_or [] (bt_get_or [] m f) i)) = {key. \<exists>n. occurs frs f i key n})"
proof (induction frs rule: rev_induct)
  case Nil
  then show ?case
    by (simp add: Let_def indexed_def key_blocks_def bt_get_or_def bt_keys_def occurs_def)
next
  case (snoc x frs)
  obtain n fr where x: "x = (n, fr)" by (cases x)
  define m where "m = foldl (\<lambda>m (n, fr). add_index_fragment R n fr m) [] frs"
  have IH: "bix_ok m" "\<And>f i key. indexed m f i key = {n. occurs frs f i key n}"
    "set (bt_keys m) = (ixf_fragment_id \<circ> snd) ` set frs"
    "\<And>f. set (bt_keys (bt_get_or [] m f)) = {i. \<exists>n fr e. (n, fr) \<in> set frs \<and> ixf_fragment_id fr = f \<and> e \<in> set (ixf_indexes fr) \<and> ie_index_id e = i}"
    "\<And>f i. set (bt_keys (bt_get_or [] (bt_get_or [] m f) i)) = {key. \<exists>n. occurs frs f i key n}"
    using snoc by (simp_all add: Let_def m_def)
  note step = add_index_fragment_spec [OF IH(1), of n fr]
  have fold: "foldl (\<lambda>m (n, fr). add_index_fragment R n fr m) [] (frs @ [x]) = add_index_fragment R n fr m"
    by (simp add: m_def x)
  have occ: "occurs (frs @ [x]) f i key k \<longleftrightarrow> occurs frs f i key k \<or>
      (k = n \<and> f = ixf_fragment_id fr \<and> (\<exists>e \<in> set (ixf_indexes fr). i = ie_index_id e \<and> key \<in> index_keys e))" for f i key k
    by (auto simp: occurs_def x)
  show ?case
    unfolding fold Let_def
  proof (intro conjI allI)
    show "bix_ok (add_index_fragment R n fr m)" using step(1) .
    show "indexed (add_index_fragment R n fr m) f i key = {k. occurs (frs @ [x]) f i key k}" for f i key
      by (auto simp: step(2) IH(2) occ)
    show "set (bt_keys (add_index_fragment R n fr m)) = (ixf_fragment_id \<circ> snd) ` set (frs @ [x])"
      by (simp add: step(3) IH(3) x)
    show "set (bt_keys (bt_get_or [] (add_index_fragment R n fr m) f)) =
        {i. \<exists>n fr e. (n, fr) \<in> set (frs @ [x]) \<and> ixf_fragment_id fr = f \<and> e \<in> set (ixf_indexes fr) \<and> ie_index_id e = i}" for f
      by (auto simp: step(4) IH(4) x)
    show "set (bt_keys (bt_get_or [] (bt_get_or [] (add_index_fragment R n fr m) f) i)) = {key. \<exists>k. occurs (frs @ [x]) f i key k}" for f i
      by (auto simp: step(5) IH(5) occ)
  qed
qed

lemma add_fragments:
  assumes "m = foldl (\<lambda>m (n, fr). add_index_fragment R n fr m) [] frs"
  shows "bix_ok m" and "indexed m f i key = {n. occurs frs f i key n}"
    and "set (bt_keys m) = (ixf_fragment_id \<circ> snd) ` set frs"
    and "set (bt_keys (bt_get_or [] m f)) = {i. \<exists>n fr e. (n, fr) \<in> set frs \<and> ixf_fragment_id fr = f \<and> e \<in> set (ixf_indexes fr) \<and> ie_index_id e = i}"
    and "set (bt_keys (bt_get_or [] (bt_get_or [] m f) i)) = {key. \<exists>n. occurs frs f i key n}"
  using add_fragments_spec [of frs] by (simp_all add: Let_def assms)

end

lemma build_fragment_indexes_spec:
  "build_fragment_indexes R fm = Ok es \<Longrightarrow>
    list_all2 (\<lambda>(i, builder) e. ie_index_id e = i \<and> (\<exists>b. bitmap_index_build R builder = Ok b \<and> ie_index e = BitmapI b)) fm es"
  by (induction R fm arbitrary: es rule: build_fragment_indexes.induct) (auto simp: outcome_simps)

lemma build_block_indexes_spec:
  "build_block_indexes R a n m = Ok frs \<Longrightarrow>
    list_all2 (\<lambda>(f, fm) fr. ixf_fragment_id fr = f \<and> ixf_range_start fr = a \<and> ixf_range_len fr = n \<and>
      build_fragment_indexes R fm = Ok (ixf_indexes fr)) m frs"
  by (induction R a n m arbitrary: frs rule: build_block_indexes.induct) (auto simp: outcome_simps)

lemma sorted_keys_upt:
  assumes "sorted_wrt (<) (xs :: nat list)" and "set xs = {0..<n}"
  shows "xs = [0..<n]"
  using assms by (metis atLeast_upt lessThan_atLeast0 sorted_wrt_upt strict_sorted_equal)

section \<open>Filters on the group index\<close>

text \<open>Index fragments as the ingestion produces them: indexes at the position of their id, with keys of
  one variant per index (and null).\<close>

definition positional :: "index_fragment \<Rightarrow> bool" where
  "positional fr \<longleftrightarrow> map ie_index_id (ixf_indexes fr) = [0..<length (ixf_indexes fr)]"

definition keys_of_kind :: "(fragment_id \<Rightarrow> index_id \<Rightarrow> nat) \<Rightarrow> index_fragment \<Rightarrow> bool" where
  "keys_of_kind kind fr \<longleftrightarrow>
     (\<forall>e \<in> set (ixf_indexes fr). \<forall>key \<in> index_keys e. key = Null \<or> scalar_rank key = kind (ixf_fragment_id fr) (ie_index_id e))"

definition fragments_ok :: "(fragment_id \<Rightarrow> index_id \<Rightarrow> nat) \<Rightarrow> (nat \<times> index_fragment) list \<Rightarrow> bool" where
  "fragments_ok kind frs \<longleftrightarrow> (\<forall>(n, fr) \<in> set frs. positional fr \<and> keys_of_kind kind fr)"

lemma downward_closed_upt:
  assumes "finite A" and "\<And>i j. i \<in> A \<Longrightarrow> j < i \<Longrightarrow> j \<in> (A :: nat set)"
  shows "\<exists>k. A = {0..<k}"
proof (cases "A = {}")
  case False
  note top = Max_in [OF assms(1) False]
  have "i \<in> A \<longleftrightarrow> i \<in> {0..<Suc (Max A)}" for i
    using Max_ge [OF assms(1), of i] top assms(2) [OF top, of i] by (cases "i = Max A") auto
  then show ?thesis by blast
qed auto

lemma fragment_ids_upt:
  assumes "\<forall>(n, fr) \<in> set frs. positional fr"
  shows "\<exists>k. {i. \<exists>n fr e. (n, fr) \<in> set frs \<and> ixf_fragment_id fr = f \<and> e \<in> set (ixf_indexes fr) \<and> ie_index_id e = i} = {0..<k} \<and>
    (\<forall>n fr. (n, fr) \<in> set frs \<and> ixf_fragment_id fr = f \<longrightarrow> length (ixf_indexes fr) \<le> k)"
proof -
  define A where "A = {i. \<exists>n fr e. (n, fr) \<in> set frs \<and> ixf_fragment_id fr = f \<and> e \<in> set (ixf_indexes fr) \<and> ie_index_id e = i}"
  have ids: "ie_index_id ` set (ixf_indexes fr) = {0..<length (ixf_indexes fr)}" if "(n, fr) \<in> set frs" for n fr
  proof -
    have "map ie_index_id (ixf_indexes fr) = [0..<length (ixf_indexes fr)]"
      using bspec [OF assms that] by (simp add: positional_def)
    then have "set (map ie_index_id (ixf_indexes fr)) = set [0..<length (ixf_indexes fr)]" by (rule arg_cong)
    then show ?thesis by simp
  qed
  have A: "A = (\<Union>(n, fr) \<in> {x \<in> set frs. ixf_fragment_id (snd x) = f}. ie_index_id ` set (ixf_indexes fr))"
    by (auto simp: A_def) blast
  have "finite A" unfolding A by auto
  moreover have "j \<in> A" if "i \<in> A" "j < i" for i j
  proof -
    obtain n fr where fr: "(n, fr) \<in> set frs" "ixf_fragment_id fr = f" "i \<in> ie_index_id ` set (ixf_indexes fr)"
      using \<open>i \<in> A\<close> unfolding A by auto
    then have "j \<in> ie_index_id ` set (ixf_indexes fr)" using ids [OF fr(1)] \<open>j < i\<close> by simp
    then show ?thesis using fr unfolding A by fastforce
  qed
  ultimately obtain k where k: "A = {0..<k}" using downward_closed_upt by blast
  have "length (ixf_indexes fr) \<le> k" if "(n, fr) \<in> set frs" "ixf_fragment_id fr = f" for n fr
  proof -
    have "{0..<length (ixf_indexes fr)} \<subseteq> A" using ids [OF that(1)] that unfolding A by fastforce
    then show ?thesis using k by (cases "ixf_indexes fr = []") simp_all
  qed
  then show ?thesis using k by (auto simp: A_def)
qed

lemma group_fragment_lookup:
  assumes "bt_ok m" and "build_block_indexes R a n m = Ok frs" and "bt_get m f = Some fm"
  shows "\<exists>gfr. find_fragment ixf_fragment_id f (sort_key ixf_fragment_id frs) = Ok gfr \<and>
    ixf_range_start gfr = a \<and> ixf_range_len gfr = n \<and> build_fragment_indexes R fm = Ok (ixf_indexes gfr)"
proof -
  note all = build_block_indexes_spec [OF assms(2)]
  have ids: "map ixf_fragment_id frs = bt_keys m"
    using all by (intro nth_equalityI) (auto simp: list_all2_conv_all_nth bt_keys_def split_beta)
  have sorted: "sorted_wrt (<) (map ixf_fragment_id frs)" using bt_keys_sorted [OF assms(1)] ids by simp
  then have "sort_key ixf_fragment_id frs = frs"
    by (simp add: sort_key_id_if_sorted strict_sorted_imp_sorted)
  moreover obtain p where p: "p < length m" "m ! p = (f, fm)"
    using assms(1,3) by (auto simp: bt_get_iff_mem in_set_conv_nth)
  moreover have "p < length frs" using p(1) list_all2_lengthD [OF all] by simp
  moreover have "ixf_fragment_id (frs ! p) = f \<and> ixf_range_start (frs ! p) = a \<and> ixf_range_len (frs ! p) = n \<and>
      build_fragment_indexes R fm = Ok (ixf_indexes (frs ! p))"
    using list_all2_nthD [OF all p(1)] p(2) by simp
  ultimately show ?thesis
    using find_fragment_nth [of ixf_fragment_id frs p] sorted by (auto simp: strict_sorted_iff)
qed

lemma group_index_lookup:
  assumes "bt_ok fm" and "set (bt_keys fm) = {0..<k}" and "build_fragment_indexes R fm = Ok es" and "i < k"
  shows "length es = k \<and> (\<exists>b. ie_index (es ! i) = BitmapI b \<and> bitmap_index_build R (bt_get_or [] fm i) = Ok b)"
proof -
  note all = build_fragment_indexes_spec [OF assms(3)]
  have keys: "bt_keys fm = [0..<k]" using sorted_keys_upt [OF bt_keys_sorted [OF assms(1)] assms(2)] .
  then have len: "length fm = k" by (metis bt_keys_def diff_zero length_map length_upt)
  have "map fst fm ! i = [0..<k] ! i" using keys by (simp add: bt_keys_def)
  then obtain builder where fm_i: "fm ! i = (i, builder)" using len assms(4) by (cases "fm ! i") simp
  then have "bt_get fm i = Some builder" using assms(1,4) len by (metis bt_get_iff_mem nth_mem)
  then show ?thesis
    using list_all2_nthD [OF all, of i] assms(4) len fm_i list_all2_lengthD [OF all] by (auto simp: bt_get_or_def)
qed

context roaring_bitmap
begin

lemma group_condition:
  assumes ok: "bt_ok builder" and kind: "\<forall>key \<in> set (bt_keys builder). key = Null \<or> scalar_rank key = r"
    and build: "bitmap_index_build R builder = Ok b" and "ie_index (es ! co_index_id c) = BitmapI b"
  shows "row_satisfies R es c row \<longleftrightarrow> row \<in> elements R (bt_get builder (co_key c))"
proof -
  have "keys_ok (bt_keys builder)" using keys_ok_one_variant [OF bt_keys_sorted [OF ok] kind] .
  from bitmap_index_get_elements [OF ok this build, of "co_key c"] obtain x
    where "(bitmap_index_get R b (co_key c) :: (_, filter_error) outcome) = Ok x"
      "elements R x = elements R (bt_get builder (co_key c))" by blast
  then show ?thesis using assms(4) by (simp add: row_satisfies_def)
qed

end

text \<open>The segments of a group: a non-empty run whose block numbers fit \<open>u32\<close>.\<close>

definition group_range_ok :: "nat \<Rightarrow> index_group_fragment segment list \<Rightarrow> bool" where
  "group_range_ok n segments \<longleftrightarrow> segments \<noteq> [] \<and> 0 < n \<and>
     cur_number (seg_first_block (hd segments)) \<le> cur_number (seg_first_block (last segments)) \<and>
     cur_number (seg_first_block (last segments)) + n < u32_lim"

lemma group_build_range:
  assumes "group_range_ok n segments" and "group_build R (group_of R n segments) = Ok sg"
  shows "sg_first_block sg = seg_first_block (hd segments) \<and>
    (\<exists>frs. build_block_indexes R (cur_number (seg_first_block (hd segments)))
       (cur_number (seg_first_block (last segments)) + n - cur_number (seg_first_block (hd segments)))
       (gb_block_indexes (group_of R n segments)) = Ok frs \<and> igf_indexes (sg_index sg) = sort_key ixf_fragment_id frs)"
proof -
  define a where "a = cur_number (seg_first_block (hd segments))"
  define z where "z = cur_number (seg_first_block (last segments))"
  have r: "segments \<noteq> []" "0 < n" "a \<le> z" "z + n < u32_lim"
    using assms(1) by (auto simp: group_range_ok_def a_def z_def)
  have lim: "z + n < u64_lim" using r(4) by (simp add: u64_lim_def u32_lim_def)
  have z_end: "u64_sub (u64_add z n) 1 = z + n - 1"
    using r lim by (simp add: u64_simps)
  have len: "as_u32 (u64_add (u64_sub (z + n - 1) a) 1) = z + n - a"
    using r lim by (simp add: u64_simps)
  have start: "as_u32 a = a" using r by (simp add: as_u32_small)
  show ?thesis
    using assms(2) group_of_range [OF r(1), of R n] z_end len start
    by (auto simp: group_build_def Let_def outcome_simps simp flip: a_def z_def)
qed

lemma group_filter_rows:
  assumes R: "roaring_bitmap R" and range: "group_range_ok n segments"
    and frs: "frs = concat (map segment_fragments segments)" and ok: "fragments_ok kind frs"
    and build: "group_build R (group_of R n segments) = Ok sg"
    and fr: "(k, fr) \<in> set frs" "ixf_fragment_id fr = flt_fragment_id flt"
    and conds: "\<forall>c \<in> set (flt_conditions flt). co_index_id c < length (ixf_indexes fr)"
  shows "\<exists>gfr b. find_fragment ixf_fragment_id (flt_fragment_id flt) (igf_indexes (sg_index sg)) = Ok gfr \<and>
    filter_rows R flt gfr = Ok b \<and>
    (\<forall>row. row \<in> set (rb_iter R b) \<longleftrightarrow>
       cur_number (seg_first_block (hd segments)) \<le> row \<and> row < cur_number (seg_first_block (last segments)) + n \<and>
       (\<forall>c \<in> set (flt_conditions flt). occurs frs (flt_fragment_id flt) (co_index_id c) (co_key c) row))"
proof -
  let ?f = "flt_fragment_id flt" and ?a = "cur_number (seg_first_block (hd segments))"
  let ?z = "cur_number (seg_first_block (last segments))"
  define m where "m = gb_block_indexes (group_of R n segments)"
  have m: "m = foldl (\<lambda>m (k, fr). add_index_fragment R k fr m) [] frs" by (simp add: m_def group_of_indexes frs)
  note bix = roaring_bitmap.add_fragments(1) [OF R m] and at = roaring_bitmap.add_fragments(2) [OF R m]
    and keys = roaring_bitmap.add_fragments(3) [OF R m] and ids = roaring_bitmap.add_fragments(4) [OF R m]
    and all_keys = roaring_bitmap.add_fragments(5) [OF R m]
  have "?f \<in> set (bt_keys m)" unfolding keys using fr by (metis comp_apply image_eqI snd_conv)
  then obtain fm where fm: "bt_get m ?f = Some fm" by (auto simp: set_bt_keys)
  have fm_ok: "fix_ok fm" and fm_or: "bt_get_or [] m ?f = fm"
    using bix fm by (auto simp: bix_ok_alt bt_get_or_def)
  obtain built where built: "build_block_indexes R ?a (?z + n - ?a) m = Ok built"
    and sg: "igf_indexes (sg_index sg) = sort_key ixf_fragment_id built"
    using group_build_range [OF range build] by (auto simp: m_def)
  obtain gfr where gfr: "find_fragment ixf_fragment_id ?f (igf_indexes (sg_index sg)) = Ok gfr"
    "ixf_range_start gfr = ?a" "ixf_range_len gfr = ?z + n - ?a" "build_fragment_indexes R fm = Ok (ixf_indexes gfr)"
    using group_fragment_lookup [OF _ built fm] bix sg by (auto simp: bix_ok_def)
  have pos: "\<forall>(n, fr) \<in> set frs. positional fr" using ok by (auto simp: fragments_ok_def)
  obtain len where len: "set (bt_keys fm) = {0..<len}" "length (ixf_indexes fr) \<le> len"
    using fragment_ids_upt [OF pos, of ?f] ids [of ?f] fr unfolding fm_or by metis
  have bt_fm: "bt_ok fm" using fm_ok by (simp add: fix_ok_def)
  have built_at: "length (ixf_indexes gfr) = len \<and> (\<exists>b. ie_index (ixf_indexes gfr ! i) = BitmapI b \<and>
      bitmap_index_build R (bt_get_or [] fm i) = Ok b)" if "i < len" for i
    using group_index_lookup [OF bt_fm len(1) gfr(4) that] .
  have gfr_len: "length (ixf_indexes gfr) = len"
    using built_at list_all2_lengthD [OF build_fragment_indexes_spec [OF gfr(4)]]
      sorted_keys_upt [OF bt_keys_sorted [OF bt_fm] len(1)] by (metis bt_keys_def diff_zero length_map length_upt)
  have readable: "fragment_readable R gfr"
    using built_at build_loop_readable [OF R] gfr_len by (fastforce simp: fragment_readable_def list_all_length)
  have cond: "row_satisfies R (ixf_indexes gfr) c row \<longleftrightarrow> occurs frs ?f (co_index_id c) (co_key c) row"
    if "c \<in> set (flt_conditions flt)" for c row
  proof -
    have i: "co_index_id c < len" using conds len that by fastforce
    define builder where "builder = bt_get_or [] fm (co_index_id c)"
    obtain b where b: "ie_index (ixf_indexes gfr ! co_index_id c) = BitmapI b" "bitmap_index_build R builder = Ok b"
      using built_at [OF i] by (auto simp: builder_def)
    have "key = Null \<or> scalar_rank key = kind ?f (co_index_id c)" if "key \<in> set (bt_keys builder)" for key
    proof -
      have "key \<in> set (bt_keys builder)" using that .
      then obtain k' where "occurs frs ?f (co_index_id c) key k'" using all_keys [of ?f "co_index_id c"] by (auto simp: builder_def fm_or)
      then show ?thesis using ok by (fastforce simp: occurs_def fragments_ok_def keys_of_kind_def)
    qed
    then have "row_satisfies R (ixf_indexes gfr) c row \<longleftrightarrow> row \<in> elements R (bt_get builder (co_key c))"
      using roaring_bitmap.group_condition [OF R fix_ok_get_or [OF fm_ok, of "co_index_id c", folded builder_def] _ b(2,1)] by (auto simp: builder_def)
    also have "elements R (bt_get builder (co_key c)) = roaring_bitmap.indexed R m ?f (co_index_id c) (co_key c)"
      by (simp add: roaring_bitmap.indexed_def [OF R] key_blocks_def fm_or builder_def)
    finally show ?thesis using at by simp
  qed
  have in_range: "\<forall>c \<in> set (flt_conditions flt). co_index_id c < length (ixf_indexes gfr)"
    using conds len gfr_len by fastforce
  have "ixf_range_start gfr + ixf_range_len gfr < u32_lim" using gfr(2,3) range by (simp add: group_range_ok_def)
  from filter_rows_spec [OF R readable in_range this] obtain b where "filter_rows R flt gfr = Ok b"
    "\<And>row. row \<in> set (rb_iter R b) \<longleftrightarrow> ?a \<le> row \<and> row < ?a + (?z + n - ?a) \<and>
       (\<forall>c \<in> set (flt_conditions flt). row_satisfies R (ixf_indexes gfr) c row)"
    using gfr(2,3) by auto
  then show ?thesis using gfr(1) cond range by (auto simp: group_range_ok_def intro!: exI [of _ gfr] exI [of _ b])
qed

text \<open>A row that a filter selects in a block has every key of the filter's conditions in the block's index.\<close>

context roaring_bitmap
begin

lemma filter_loop_found:
  "filter_loop R indexes conds result = Ok b \<Longrightarrow> row \<in> set (rb_iter R b) \<Longrightarrow> c \<in> set conds \<Longrightarrow>
    co_index_id c < length indexes \<and>
    (case ie_index (indexes ! co_index_id c) of EmptyI \<Rightarrow> True | BitmapI bm \<Rightarrow> co_key c \<in> set (bx_keys bm))"
proof (induction conds arbitrary: result)
  case (Cons d conds)
  have d: "co_index_id d < length indexes" using Cons.prems(1) by (auto split: if_splits)
  show ?case
  proof (cases "ie_index (indexes ! co_index_id d)")
    case EmptyI
    then show ?thesis using Cons d by auto
  next
    case (BitmapI bm)
    then obtain r where r: "bitmap_index_get R bm (co_key d) = (Ok r :: (_, filter_error) outcome)"
      using Cons.prems(1) d by (auto simp: outcome_simps)
    then obtain x where x: "bitmap_index_get R bm (co_key d) = (Ok (Some x) :: (_, filter_error) outcome)"
      using Cons.prems(1,2) d BitmapI by (cases r) (auto simp: iter_empty)
    then obtain pos where "binary_search_by (\<lambda>e. cmp_scalar_value e (co_key d)) (bx_keys bm) = Some pos"
      by (auto simp: bitmap_index_get_def split: option.splits)
    then have "co_key d \<in> set (bx_keys bm)"
      using binary_search_sound by (metis cmp_scalar_value_eq nth_mem)
    moreover have "filter_loop R indexes conds (rb_and R result x) = Ok b" using Cons.prems(1) d BitmapI x by simp
    ultimately show ?thesis using Cons d BitmapI by auto
  qed
qed simp

end

lemma filter_rows_found:
  assumes R: "roaring_bitmap R" and "positional fr" and "filter_rows R flt fr = Ok b" and "row \<in> set (rb_iter R b)"
    and "c \<in> set (flt_conditions flt)" and "\<forall>e \<in> set (ixf_indexes fr). ie_index e \<noteq> EmptyI"
  shows "co_index_id c < length (ixf_indexes fr) \<and>
    (\<exists>e \<in> set (ixf_indexes fr). ie_index_id e = co_index_id c \<and> co_key c \<in> index_keys e)"
proof -
  obtain result where "filter_loop R (ixf_indexes fr) (flt_conditions flt) result = Ok b"
    using assms(3) by (simp add: filter_rows_def Let_def)
  note found = roaring_bitmap.filter_loop_found [OF R this assms(4,5)]
  let ?e = "ixf_indexes fr ! co_index_id c"
  have "?e \<in> set (ixf_indexes fr)" using found by simp
  moreover have "map ie_index_id (ixf_indexes fr) ! co_index_id c = [0..<length (ixf_indexes fr)] ! co_index_id c"
    using assms(2) by (simp add: positional_def)
  then have "ie_index_id ?e = co_index_id c" using found by simp
  moreover have "co_key c \<in> index_keys ?e"
    using found assms(6) calculation(1) by (auto simp: index_keys_def split: index.splits)
  ultimately show ?thesis using found by blast
qed

lemma group_block_found:
  assumes "roaring_bitmap R" and "group_range_ok n segments"
    and "fragments_ok kind (concat (map segment_fragments segments))"
    and "group_build R (group_of R n segments) = Ok sg"
    and "s \<in> set segments" and "d \<in> set (seg_data s)"
    and "cur_number (seg_first_block (hd segments)) \<le> cur_number (fd_cursor d)"
    and "cur_number (fd_cursor d) < cur_number (seg_first_block (last segments)) + n"
    and "fr \<in> set (igf_indexes (fd_data d))" and "ixf_fragment_id fr = flt_fragment_id flt"
    and "\<forall>e \<in> set (ixf_indexes fr). ie_index e \<noteq> EmptyI"
    and "filter_rows R flt fr = Ok b" and "row \<in> set (rb_iter R b)"
  shows "\<exists>gfr gb. find_fragment ixf_fragment_id (flt_fragment_id flt) (igf_indexes (sg_index sg)) = Ok gfr \<and>
    filter_rows R flt gfr = Ok gb \<and> cur_number (fd_cursor d) \<in> set (rb_iter R gb)"
proof -
  let ?frs = "concat (map segment_fragments segments)" and ?n = "cur_number (fd_cursor d)"
  have "as_u32 ?n = ?n" using assms(2,8) by (simp add: group_range_ok_def as_u32_def)
  then have fr: "(?n, fr) \<in> set ?frs" using assms(5,6,9) by (force simp: segment_fragments_def)
  then have "positional fr" using assms(3) by (auto simp: fragments_ok_def)
  note found = filter_rows_found [OF assms(1) this assms(12,13) _ assms(11)]
  have "\<forall>c \<in> set (flt_conditions flt). co_index_id c < length (ixf_indexes fr)" using found by blast
  from group_filter_rows [OF assms(1,2) refl assms(3,4) fr assms(10) this]
  obtain gfr gb where g: "find_fragment ixf_fragment_id (flt_fragment_id flt) (igf_indexes (sg_index sg)) = Ok gfr"
    "filter_rows R flt gfr = Ok gb"
    "?n \<in> set (rb_iter R gb) \<longleftrightarrow> cur_number (seg_first_block (hd segments)) \<le> ?n \<and>
       ?n < cur_number (seg_first_block (last segments)) + n \<and>
       (\<forall>c \<in> set (flt_conditions flt). occurs ?frs (flt_fragment_id flt) (co_index_id c) (co_key c) ?n)"
    by blast
  have "occurs ?frs (flt_fragment_id flt) (co_index_id c) (co_key c) ?n" if "c \<in> set (flt_conditions flt)" for c
    using found [OF that] fr assms(10) unfolding occurs_def by blast
  then show ?thesis using g assms(7,8) by blast
qed

section \<open>The group index\<close>

text \<open>C31: A filter evaluated on the index of a segment group selects exactly the block numbers of the group
  in which, for every condition of the filter, some entry of the block's index for that fragment holds
  the condition's key. The evaluation neither fails nor panics.\<close>

theorem group_filter_exact:
  assumes "roaring_bitmap R" and "group_range_ok n segments"
    and "fragments_ok kind (concat (map segment_fragments segments))"
    and "group_build R (group_of R n segments) = Ok sg"
    and "(k, fr) \<in> set (concat (map segment_fragments segments))" and "ixf_fragment_id fr = flt_fragment_id flt"
    and "\<forall>c \<in> set (flt_conditions flt). co_index_id c < length (ixf_indexes fr)"
  shows "\<exists>gfr b. find_fragment ixf_fragment_id (flt_fragment_id flt) (igf_indexes (sg_index sg)) = Ok gfr \<and>
    filter_rows R flt gfr = Ok b \<and>
    set (rb_iter R b) = {m. cur_number (seg_first_block (hd segments)) \<le> m \<and> m < cur_number (seg_first_block (last segments)) + n \<and>
       (\<forall>c \<in> set (flt_conditions flt).
          occurs (concat (map segment_fragments segments)) (flt_fragment_id flt) (co_index_id c) (co_key c) m)}"
  using group_filter_rows [OF assms(1,2) refl assms(3-7)] by (auto simp: set_eq_iff)

text \<open>C12: No block is lost by looking at the group index first: if a filter selects any row of a block of the
  group, evaluated on the block's own index, then evaluated on the group index it selects that block.\<close>

theorem group_filter_complete:
  assumes "roaring_bitmap R" and "group_range_ok n segments"
    and "fragments_ok kind (concat (map segment_fragments segments))"
    and "group_build R (group_of R n segments) = Ok sg"
    and "s \<in> set segments" and "d \<in> set (seg_data s)"
    and "cur_number (seg_first_block (hd segments)) \<le> cur_number (fd_cursor d)"
    and "cur_number (fd_cursor d) < cur_number (seg_first_block (last segments)) + n"
    and "fr \<in> set (igf_indexes (fd_data d))" and "ixf_fragment_id fr = flt_fragment_id flt"
    and "\<forall>e \<in> set (ixf_indexes fr). ie_index e \<noteq> EmptyI"
    and "filter_rows R flt fr = Ok b" and "row \<in> set (rb_iter R b)"
  shows "\<exists>gfr gb. find_fragment ixf_fragment_id (flt_fragment_id flt) (igf_indexes (sg_index sg)) = Ok gfr \<and>
    filter_rows R flt gfr = Ok gb \<and> cur_number (fd_cursor d) \<in> set (rb_iter R gb)"
  using group_block_found [OF assms] .

section \<open>A group of two blocks\<close>

definition group_cursor :: "nat \<Rightarrow> cursor" where
  "group_cursor k = mk_cursor k (Hash [])"

definition demo_block_fragment :: "nat \<Rightarrow> index_fragment" where
  "demo_block_fragment k = \<lparr>ixf_fragment_id = 4, ixf_range_start = 0, ixf_range_len = 11,
     ixf_indexes = [\<lparr>ie_index_id = 0,
       ie_index = BitmapI \<lparr>bx_keys = [Uint8 k], bx_values = [put_u32 2 @ put_u32 10]\<rparr>\<rparr>]\<rparr>"

definition demo_segment :: "nat \<Rightarrow> nat \<Rightarrow> index_group_fragment segment" where
  "demo_segment k key = \<lparr>seg_first_block = group_cursor k,
     seg_data = [\<lparr>fd_cursor = group_cursor k, fd_data = \<lparr>igf_indexes = [demo_block_fragment key]\<rparr>\<rparr>]\<rparr>"


lemmas demo_group_defs = demo_segment_def demo_block_fragment_def group_cursor_def mk_cursor_def

definition demo_group :: "index_group_fragment segment list" where
  "demo_group = [demo_segment 100 3, demo_segment 101 7]"

definition demo_built :: segment_group where
  "demo_built = \<lparr>sg_first_block = group_cursor 100, sg_index = \<lparr>igf_indexes = [\<lparr>ixf_fragment_id = 4,
     ixf_range_start = 100, ixf_range_len = 2, ixf_indexes = [\<lparr>ie_index_id = 0,
       ie_index = BitmapI \<lparr>bx_keys = [Uint8 3, Uint8 7], bx_values = [put_u32 100, put_u32 101]\<rparr>\<rparr>]\<rparr>]\<rparr>\<rparr>"

lemma demo_rows:
  "filter_rows list_roaring demo_filter (demo_block_fragment 3) = Ok [2, 10]" "filter_rows list_roaring demo_filter (demo_block_fragment 7) = Ok []"
proof -
  show "filter_rows list_roaring demo_filter (demo_block_fragment 3) = Ok [2, 10]"
    by (simp add: filter_rows_def demo_filter_def demo_block_fragment_def as_u32_def u32_lim_def demo_get Let_def)
      (simp add: list_roaring_def upt_rec)
  show "filter_rows list_roaring demo_filter (demo_block_fragment 7) = Ok []"
    by (simp add: filter_rows_def demo_filter_def demo_block_fragment_def as_u32_def u32_lim_def Let_def bitmap_index_get_def binary_search_by_def
        search_loop.simps cmp_def list_roaring_def)
qed

lemma demo_group_built: "group_build list_roaring (group_of list_roaring 1 demo_group) = Ok demo_built"
  by (simp add: group_build_def group_of_def group_builder_new_def add_segment_def add_block_data_def add_index_fragment_def
      add_index_entry_def demo_group_def demo_group_defs demo_built_def bt_entry_def bitmap_index_insert_def
      u64_add_def u64_sub_def u64_lim_def as_u32_def u32_lim_def bitmap_index_build_def bt_get_or_def bt_get_def list_roaring_def
      less_scalar_value_def scalar_key_def list_iter_def)

lemma demo_group_ok:
  "group_range_ok 1 demo_group" "fragments_ok (\<lambda>_ _. 3) (concat (map segment_fragments demo_group))"
  by (simp_all add: group_range_ok_def demo_group_def demo_group_defs u32_lim_def fragments_ok_def segment_fragments_def
      positional_def keys_of_kind_def index_keys_def)

lemma demo_group_fragments:
  "concat (map segment_fragments demo_group) = [(100, demo_block_fragment 3), (101, demo_block_fragment 7)]"
  by (simp add: segment_fragments_def demo_group_def demo_segment_def group_cursor_def mk_cursor_def as_u32_def u32_lim_def)

theorem group_filter_exact_witness:
  "\<exists>gfr b. find_fragment ixf_fragment_id 4 (igf_indexes (sg_index demo_built)) = Ok gfr \<and>
     filter_rows list_roaring demo_filter gfr = Ok b \<and> set (rb_iter list_roaring b) = {100}"
proof -
  have occ: "occurs (concat (map segment_fragments demo_group)) 4 0 (Uint8 3) m \<longleftrightarrow> m = 100" for m
    by (simp add: demo_group_fragments occurs_def conj_disj_distribR ex_disj_distrib)
      (simp add: demo_block_fragment_def index_keys_def)
  have fr: "(100, demo_block_fragment 3) \<in> set (concat (map segment_fragments demo_group))"
    unfolding demo_group_fragments by simp
  have "ixf_fragment_id (demo_block_fragment 3) = flt_fragment_id demo_filter"
    and "\<forall>c \<in> set (flt_conditions demo_filter). co_index_id c < length (ixf_indexes (demo_block_fragment 3))"
    by (simp_all add: demo_block_fragment_def demo_filter_def)
  from group_filter_exact [OF listbm.roaring_bitmap_axioms demo_group_ok demo_group_built fr this] show ?thesis
    by (simp add: demo_filter_def occ) (simp add: demo_group_def demo_group_defs Collect_conv_if)
qed

theorem group_filter_complete_witness:
  "\<exists>gfr gb. find_fragment ixf_fragment_id 4 (igf_indexes (sg_index demo_built)) = Ok gfr \<and>
     filter_rows list_roaring demo_filter gfr = Ok gb \<and> 100 \<in> set (rb_iter list_roaring gb)"
proof -
  have "(2::nat) \<in> set (rb_iter list_roaring [2, 10])" by (simp add: list_roaring_def)
  then show ?thesis
    using demo_rows(1) group_filter_complete [OF listbm.roaring_bitmap_axioms demo_group_ok demo_group_built,
        of "demo_segment 100 3" "hd (seg_data (demo_segment 100 3))" "demo_block_fragment 3" demo_filter]
    by (simp add: demo_filter_def) (simp add: demo_group_defs demo_group_def)
qed

end
