(* ===== verification/Compaction.thy ===== *)
theory Compaction
  imports ChainView SegmentGroups
begin

text \<open>
  The compaction services: \<open>common/src/compaction/segment.rs\<close> (segments from blocks),
  \<open>common/src/compaction/group.rs\<close> (groups from segments), \<open>common/src/compaction/prune.rs\<close> (deletion of
  grouped blocks) and the checks of \<open>common/src/compaction/mod.rs\<close>. The chain view is shared with the
  sync service, so every call reads the view the outside state holds at that moment. A request
  pushed to the bounded queue runs when its result is awaited; results come in the order of the
  pushes. Metrics and the wake-ups of the waiting loops are not part of the model.
\<close>

section \<open>The services\<close>

record ('w, 'b) compaction =
  cm_segment_size :: nat
  cm_group_size :: nat
  cm_view :: "'w \<Rightarrow> 'w chain_view"
  cm_store :: "'w block_store"
  cm_state :: "'w state_client"
  cm_serde :: segment_serde
  cm_roaring :: "'b roaring"
  cm_hash_order :: "(string \<times> body_fragment fragment_data list) list \<Rightarrow> (string \<times> body_fragment fragment_data list) list"
  cm_cancelled :: "'w \<Rightarrow> bool"

definition with_view ::
  "('w, 'b) compaction \<Rightarrow> ('w chain_view \<Rightarrow> ('w, 'a, chain_view_error) io) \<Rightarrow> ('w, 'a, compaction_error) io" where
  "with_view cs f = ichange (\<lambda>_. CompactionError) (\<lambda>w. f (cm_view cs w) w)"

definition next_continue :: "('w, 'b) compaction \<Rightarrow> cursor \<Rightarrow> ('w, cursor, compaction_error) io" where
  "next_continue cs c =
     ibind (with_view cs (\<lambda>v. view_next_cursor v (Some c))) (\<lambda>next.
     case next of NextContinue c' _ \<Rightarrow> ireturn c' | _ \<Rightarrow> ierr CompactionError)"

section \<open>Segments\<close>

definition MAX_BUFFERED_BLOCKS :: nat where "MAX_BUFFERED_BLOCKS = 128"

text \<open>The queue holds the cursors of the requested blocks.\<close>

fun push_blocks ::
  "('w, 'b) compaction \<Rightarrow> nat \<Rightarrow> cursor \<Rightarrow> cursor list \<Rightarrow> ('w, cursor \<times> cursor list, compaction_error) io" where
  "push_blocks cs 0 current queue = ireturn (current, queue)"
| "push_blocks cs (Suc n) current queue =
     ibind (next_continue cs current) (\<lambda>next. push_blocks cs n next (queue @ [current]))"

definition pop_block ::
  "('w, 'b) compaction \<Rightarrow> cursor list \<Rightarrow> segment_builder
    \<Rightarrow> ('w, cursor \<times> cursor list \<times> segment_builder, compaction_error) io" where
  "pop_block cs queue builder = (case queue of
     [] \<Rightarrow> ierr CompactionError
   | c # queue \<Rightarrow>
       ibind (ichange (\<lambda>_. CompactionError) (get_block_and_cursor (cm_store cs) c)) (\<lambda>(block_cursor, block_data).
       ibind (ilift (add_block (cm_serde cs) block_cursor block_data builder)) (\<lambda>builder.
       ireturn (block_cursor, queue, builder))))"

fun roll_blocks ::
  "('w, 'b) compaction \<Rightarrow> nat \<Rightarrow> cursor \<Rightarrow> cursor \<Rightarrow> cursor list \<Rightarrow> segment_builder
    \<Rightarrow> ('w, cursor \<times> cursor list \<times> segment_builder, compaction_error) io" where
  "roll_blocks cs 0 current last_b queue builder = ireturn (last_b, queue, builder)"
| "roll_blocks cs (Suc n) current last_b queue builder =
     ibind (pop_block cs queue builder) (\<lambda>(block_cursor, queue, builder).
     ibind (next_continue cs current) (\<lambda>next.
     roll_blocks cs n next block_cursor (queue @ [current]) builder))"

fun drain_blocks ::
  "('w, 'b) compaction \<Rightarrow> nat \<Rightarrow> cursor \<Rightarrow> cursor \<Rightarrow> cursor list \<Rightarrow> segment_builder
    \<Rightarrow> ('w, cursor \<times> segment_builder, compaction_error) io" where
  "drain_blocks cs 0 first last_b queue builder = ireturn (last_b, builder)"
| "drain_blocks cs (Suc n) first last_b queue builder =
     ibind (pop_block cs queue builder) (\<lambda>(block_cursor, queue, builder).
     if block_cursor \<noteq> first \<and> cur_number block_cursor \<noteq> u64_add (cur_number last_b) 1
     then ierr CompactionError
     else drain_blocks cs n first block_cursor queue builder)"

fun put_segments ::
  "('w, 'b) compaction \<Rightarrow> cursor \<Rightarrow> serialized_segment list \<Rightarrow> ('w, unit, compaction_error) io" where
  "put_segments cs first [] = ireturn ()"
| "put_segments cs first (s # ss) =
     ibind (ichange (\<lambda>_. CompactionError) (put_segment (cm_store cs) first s)) (\<lambda>_. put_segments cs first ss)"

text \<open>\<open>Ok None\<close> is the retry loop of \<open>put_segmented\<close> running out of fuel.\<close>

definition compact_segment ::
  "nat \<Rightarrow> ('w, 'b) compaction \<Rightarrow> cursor \<Rightarrow> ('w, unit option, compaction_error) io" where
  "compact_segment fuel cs first =
     ibind (ilift (start_new_segment first default_segment_builder)) (\<lambda>builder.
     let buffered_queue_size = min (cm_segment_size cs) MAX_BUFFERED_BLOCKS in
     ibind (push_blocks cs buffered_queue_size first []) (\<lambda>(current, queue).
     ibind (if cm_segment_size cs > buffered_queue_size
            then roll_blocks cs (cm_segment_size cs - buffered_queue_size) current first queue builder
            else ireturn (first, queue, builder)) (\<lambda>(last_b, queue, builder).
     ibind (drain_blocks cs buffered_queue_size first last_b queue builder) (\<lambda>(last_b, builder).
     if block_count builder \<noteq> cm_segment_size cs then ierr CompactionError
     else
       ibind (ilift (segment_data (cm_serde cs) (cm_hash_order cs) builder)) (\<lambda>(segments, _).
       ibind (put_segments cs first segments) (\<lambda>_.
       ichange (\<lambda>_. CompactionError) (put_segmented fuel (cm_state cs) (cur_number last_b))))))))"

datatype tick = Compacted "unit option" | WaitFinalized | WaitHead | WaitSegmented

definition first_block_in_segment :: "('w, 'b) compaction \<Rightarrow> ('w, cursor, compaction_error) io" where
  "first_block_in_segment cs =
     ibind (with_view cs get_segmented_cursor) (\<lambda>segmented.
     case segmented of Some c \<Rightarrow> next_continue cs c | None \<Rightarrow> with_view cs get_starting_cursor)"

definition segment_tick :: "nat \<Rightarrow> ('w, 'b) compaction \<Rightarrow> ('w, tick, compaction_error) io" where
  "segment_tick fuel cs =
     ibind (first_block_in_segment cs) (\<lambda>first.
     ibind (with_view cs (\<lambda>v. ireturn (view_get_head v))) (\<lambda>head.
     ibind (with_view cs get_finalized_cursor) (\<lambda>finalized.
     let latest_available = min (cur_number finalized) (cur_number head) in
     if u64_add (cur_number first) (cm_segment_size cs) \<le> latest_available
     then ibind (compact_segment fuel cs first) (\<lambda>r. ireturn (Compacted r))
     else if cur_number finalized < cur_number head then ireturn WaitFinalized
     else ireturn WaitHead)))"

section \<open>Groups\<close>

definition MAX_BUFFERED_SEGMENTS :: nat where "MAX_BUFFERED_SEGMENTS = 128"

definition segment_request :: "('w, 'b) compaction \<Rightarrow> cursor \<Rightarrow> nat \<Rightarrow> cursor" where
  "segment_request cs first i = new_finalized (u64_add (cur_number first) (u64_mul i (cm_segment_size cs)))"

definition pop_segment ::
  "('w, 'b) compaction \<Rightarrow> cursor list \<Rightarrow> 'b group_builder \<Rightarrow> ('w, cursor list \<times> 'b group_builder, compaction_error) io" where
  "pop_segment cs queue builder = (case queue of
     [] \<Rightarrow> ierr CompactionError
   | c # queue \<Rightarrow>
       ibind (ichange (\<lambda>_. CompactionError) (get_index_segment_and_cursor (cm_store cs) c)) (\<lambda>(_, bytes).
       ibind (ioption CompactionError (from_bytes (sd_index (cm_serde cs)) bytes)) (\<lambda>segment.
       ireturn (queue, add_segment (cm_roaring cs) segment builder))))"

fun roll_segments ::
  "('w, 'b) compaction \<Rightarrow> cursor \<Rightarrow> nat list \<Rightarrow> cursor list \<Rightarrow> 'b group_builder
    \<Rightarrow> ('w, cursor list \<times> 'b group_builder, compaction_error) io" where
  "roll_segments cs first [] queue builder = ireturn (queue, builder)"
| "roll_segments cs first (i # is) queue builder =
     ibind (pop_segment cs queue builder) (\<lambda>(queue, builder).
     roll_segments cs first is (queue @ [segment_request cs first i]) builder)"

fun drain_segments ::
  "('w, 'b) compaction \<Rightarrow> nat \<Rightarrow> cursor list \<Rightarrow> 'b group_builder \<Rightarrow> ('w, 'b group_builder, compaction_error) io" where
  "drain_segments cs 0 queue builder = ireturn builder"
| "drain_segments cs (Suc n) queue builder =
     ibind (pop_segment cs queue builder) (\<lambda>(queue, builder). drain_segments cs n queue builder)"

definition compact_group ::
  "nat \<Rightarrow> ('w, 'b) compaction \<Rightarrow> cursor \<Rightarrow> nat \<Rightarrow> ('w, unit option, compaction_error) io" where
  "compact_group fuel cs first blocks_in_group =
     (let buffered_queue_size = min (cm_group_size cs) MAX_BUFFERED_SEGMENTS;
          queue = map (segment_request cs first) [0..<buffered_queue_size];
          builder = group_builder_new (cm_segment_size cs)
      in
      ibind (if cm_group_size cs > buffered_queue_size
             then roll_segments cs first [buffered_queue_size..<cm_group_size cs] queue builder
             else ireturn (queue, builder)) (\<lambda>(queue, builder).
      ibind (drain_segments cs buffered_queue_size queue builder) (\<lambda>builder.
      if gb_segment_count builder \<noteq> cm_group_size cs then ierr CompactionError
      else
        ibind (ilift (group_build (cm_roaring cs) builder)) (\<lambda>grp.
        let last_block_in_group = u64_sub (u64_add (cur_number first) blocks_in_group) 1 in
        ibind (ichange (\<lambda>_. CompactionError) (put_group (cm_store cs) first grp)) (\<lambda>_.
        ichange (\<lambda>_. CompactionError) (put_grouped fuel (cm_state cs) last_block_in_group))))))"

definition first_block_in_group :: "('w, 'b) compaction \<Rightarrow> ('w, cursor, compaction_error) io" where
  "first_block_in_group cs =
     ibind (with_view cs get_grouped_cursor) (\<lambda>grouped.
     case grouped of Some c \<Rightarrow> next_continue cs c | None \<Rightarrow> with_view cs get_starting_cursor)"

definition group_tick :: "nat \<Rightarrow> ('w, 'b) compaction \<Rightarrow> ('w, tick, compaction_error) io" where
  "group_tick fuel cs =
     (let blocks_in_group = u64_mul (cm_group_size cs) (cm_segment_size cs) in
      ibind (first_block_in_group cs) (\<lambda>first.
      ibind (with_view cs get_segmented_cursor) (\<lambda>segmented.
      case segmented of
        None \<Rightarrow> ireturn WaitSegmented
      | Some segmented \<Rightarrow>
          if u64_add (cur_number first) blocks_in_group \<le> cur_number segmented
          then ibind (compact_group fuel cs first blocks_in_group) (\<lambda>r. ireturn (Compacted r))
          else ireturn WaitSegmented)))"

section \<open>Pruning\<close>

text \<open>The inner loop; \<open>None\<close> is the return on cancellation.\<close>

fun prune_blocks ::
  "('w, 'b) compaction \<Rightarrow> nat \<Rightarrow> nat \<Rightarrow> nat \<Rightarrow> ('w, nat option, compaction_error) io" where
  "prune_blocks cs 0 grouped current = ireturn (Some current)"
| "prune_blocks cs (Suc n) grouped current = (\<lambda>w.
     if cm_cancelled cs w then (Ok None, w)
     else if current > grouped then (Ok (Some current), w)
     else ibind (ichange (\<lambda>_. CompactionError) (delete_block_with_prefix (cm_store cs) current)) (\<lambda>_.
          prune_blocks cs n grouped (u64_add current 1)) w)"

text \<open>The outer loop; \<open>Ok None\<close> is running out of fuel.\<close>

fun prune_while ::
  "nat \<Rightarrow> ('w, 'b) compaction \<Rightarrow> nat \<Rightarrow> nat \<Rightarrow> ('w, unit option, compaction_error) io" where
  "prune_while 0 cs grouped current = ireturn None"
| "prune_while (Suc fuel) cs grouped current =
     (if current < grouped then
        ibind (prune_blocks cs (cm_segment_size cs) grouped current) (\<lambda>r.
        case r of
          None \<Rightarrow> ireturn (Some ())
        | Some current \<Rightarrow>
            ibind (ichange (\<lambda>_. CompactionError) (put_pruned (cm_state cs) (u64_sub current 1))) (\<lambda>_.
            prune_while fuel cs grouped current))
      else ireturn (Some ()))"

definition prune_loop :: "nat \<Rightarrow> ('w, 'b) compaction \<Rightarrow> ('w, unit option, compaction_error) io" where
  "prune_loop fuel cs =
     ibind (ichange (\<lambda>_. CompactionError) (get_grouped (cm_state cs))) (\<lambda>grouped.
     case grouped of
       None \<Rightarrow> ireturn (Some ())
     | Some grouped \<Rightarrow>
         ibind (ichange (\<lambda>_. CompactionError) (get_pruned (cm_state cs))) (\<lambda>pruned.
         ibind (case pruned of
                  Some pruned_block \<Rightarrow> ireturn pruned_block
                | None \<Rightarrow> ibind (with_view cs get_starting_cursor) (\<lambda>genesis. ireturn (cur_number genesis))) (\<lambda>starting_block.
         prune_while fuel cs grouped starting_block)))"

section \<open>Options\<close>

text \<open>The sizes are stored on the first start and must not change afterwards.\<close>

definition check_option ::
  "('w, nat option, options_store_error) io \<Rightarrow> (nat \<Rightarrow> ('w, unit, options_store_error) io) \<Rightarrow> nat \<Rightarrow> ('w, unit, compaction_error) io" where
  "check_option get set_value expected =
     ibind (ichange (\<lambda>_. CompactionError) get) (\<lambda>stored.
     case stored of
       Some value \<Rightarrow> if value \<noteq> expected then ierr CompactionError else ireturn ()
     | None \<Rightarrow> ichange (\<lambda>_. CompactionError) (set_value expected))"

definition check_compaction_options :: "'w kv_client \<Rightarrow> nat \<Rightarrow> nat \<Rightarrow> ('w, unit, compaction_error) io" where
  "check_compaction_options options sz grp_size =
     ibind (check_option (get_segment_size options) (set_segment_size options) sz) (\<lambda>_.
     check_option (get_group_size options) (set_group_size options) grp_size)"

section \<open>Cursors\<close>

lemma segment_request_number:
  assumes "i < cm_group_size cs" and "cur_number first + cm_group_size cs * cm_segment_size cs < u64_lim"
  shows "cur_number (segment_request cs first i) = cur_number first + i * cm_segment_size cs"
proof -
  have "i * cm_segment_size cs \<le> cm_group_size cs * cm_segment_size cs" using assms(1) by (intro mult_le_mono1) simp
  then have "i * cm_segment_size cs < u64_lim" "cur_number first + i * cm_segment_size cs < u64_lim" using assms(2) by linarith+
  then show ?thesis by (simp add: segment_request_def new_finalized_def u64_simps)
qed

text \<open>Whatever the chain view holds, the cursor after another has the next number.\<close>

lemma next_cursor_number:
  assumes "get_next_cursor fc (Some c) w = (Ok (NextContinue c' b), w')"
  shows "cur_number c' = u64_add (cur_number c) 1"
proof -
  obtain segment action w1 where "get_chain_segment fc (cur_number c) w = (Ok segment, w1)"
    and "reconnect segment c = Ok action"
    and "(case action of
         Continue \<Rightarrow>
           if cur_number c = cur_number (last_block (cs_info (fc_recent fc))) then ireturn AtHead
           else ibind (get_canonical_impl fc (u64_add (cur_number c) 1)) (\<lambda>next_available.
             ireturn (NextContinue next_available (cur_number next_available = cur_number (last_block (cs_info (fc_recent fc))))))
       | OfflineReorg target \<Rightarrow> ireturn (Invalidate target)
       | Unknown \<Rightarrow> ierr ChainViewError) w1 = (Ok (NextContinue c' b), w')"
    using assms by (auto simp: get_next_cursor_def outcome_simps)
  then show ?thesis
    by (cases action) (auto simp: outcome_simps split: if_splits dest: canonical_impl_number)
qed

lemma next_continue_Ok:
  "next_continue cs c w = (Ok c', w') \<longleftrightarrow> (\<exists>b. view_next_cursor (cm_view cs w) (Some c) w = (Ok (NextContinue c' b), w'))"
proof (cases "view_next_cursor (cm_view cs w) (Some c) w")
  case (Pair r w1)
  then show ?thesis
  proof (cases r)
    case (Ok nxt)
    then show ?thesis using Pair by (cases nxt) (auto simp: next_continue_def with_view_def ibind_def ichange_def)
  qed (auto simp: next_continue_def with_view_def ibind_def ichange_def)
qed

lemma next_continue_number:
  "next_continue cs c w = (Ok c', w') \<Longrightarrow> cur_number c' = u64_add (cur_number c) 1"
  by (auto simp: next_continue_Ok view_next_cursor_def dest: next_cursor_number)

section \<open>The environment of the services\<close>

text \<open>The blocks of the store were written by the writer, with the bytes \<open>B\<close>.\<close>

definition blocks_written ::
  "'w block_store \<Rightarrow> ('w \<Rightarrow> string \<rightharpoonup> object_version \<times> bytes) \<Rightarrow> (cursor \<Rightarrow> bytes) \<Rightarrow> 'w \<Rightarrow> bool" where
  "blocks_written st objects B w \<longleftrightarrow> (\<forall>c v stored.
     objects w (full_key (bs_client st) (format_block_key (bs_hex st) c)) = Some (v, stored) \<longrightarrow> written_as (bs_codec st) (B c) stored)"

lemma blocks_written_keeps: "objects w' = objects w \<Longrightarrow> blocks_written st objects B w' = blocks_written st objects B w"
  by (simp add: blocks_written_def)

context block_backend
begin

lemma object_get_found:
  assumes "object_store_get (bs_codec st) (bs_client st) key None w = (Ok r, w')"
  shows "objects w (full_key (bs_client st) key) \<noteq> None"
  using assms by (auto simp: object_store_get_def outcome_simps dest: get_ok)

end

text \<open>The bucket of the block store and rkyv obey their laws; the services read the chain and read and write the shared
  state without writing to the bucket.\<close>

locale compaction_env =
  block_backend "cm_store cs" objects cached + segment_codec "cm_serde cs"
  for cs :: "('w, 'b) compaction" and objects :: "'w \<Rightarrow> string \<rightharpoonup> object_version \<times> bytes"
    and cached :: "'w \<Rightarrow> string \<rightharpoonup> bytes" +
  assumes view_reads: "chain_reads (fc_store (cv_canonical (cm_view cs w))) objects"
    and etcd_get_keeps: "keeps objects (et_get (kvc_client (stc_kv (cm_state cs))) k p)"
    and etcd_put_keeps: "keeps objects (et_put (kvc_client (stc_kv (cm_state cs))) k v)"
    and etcd_txn_keeps: "keeps objects (et_txn (kvc_client (stc_kv (cm_state cs))) conds ops)"
begin

lemma with_view_keeps:
  assumes "\<And>v. chain_reads (fc_store (cv_canonical v)) objects \<Longrightarrow> keeps objects (f v)"
  shows "keeps objects (with_view cs f)"
  unfolding with_view_def
proof (rule keeps_ichange)
  show "keeps objects (\<lambda>w. f (cm_view cs w) w)"
    using assms [OF view_reads] by (simp add: keeps_def)
qed

lemma next_continue_keeps: "keeps objects (next_continue cs c)"
  unfolding next_continue_def view_next_cursor_def
  by (intro keeps_ibind with_view_keeps chain_reads.next_cursor_keeps) (auto split: next_cursor.splits)

lemma starting_cursor_keeps: "keeps objects (with_view cs get_starting_cursor)"
  unfolding get_starting_cursor_def
  by (intro with_view_keeps) (rule chain_reads.cursor_or_finalized_keeps, assumption, rule refl)

lemma get_block_at_keeps: "keeps objects (get_block_at (cm_state cs) key)"
  unfolding get_block_at_def kv_get_def by (auto intro!: keeps_ibind etcd_get_keeps split: list.splits)

lemma put_block_at_keeps: "keeps objects (put_block_at (cm_state cs) key n)"
  unfolding put_block_at_def kv_put_def by (auto intro!: etcd_put_keeps)

lemma put_if_higher_keeps: "keeps objects (put_if_higher fuel (cm_state cs) key n)"
proof (induction fuel)
  case 0
  then show ?case by (simp add: keeps_def)
next
  case (Suc fuel)
  then show ?case
    by (auto intro!: keeps_ibind keeps_ichange etcd_get_keeps etcd_txn_keeps
      simp: kv_get_def kv_put_if_mod_revision_def Let_def split: list.splits option.splits)
qed

lemma get_block_written:
  assumes "blocks_written (cm_store cs) objects B w" and "get_block_and_cursor (cm_store cs) c w = (Ok r, w')"
  shows "r = (c, B c) \<and> objects w' = objects w"
proof -
  have "objects w (full_key (bs_client (cm_store cs)) (format_block_key (bs_hex (cm_store cs)) c)) \<noteq> None"
    using assms(2) by (auto simp: get_block_and_cursor_def outcome_simps dest: object_get_found)
  then have "holds w (format_block_key (bs_hex (cm_store cs)) c) (B c)"
    using assms(1) by (fastforce simp: blocks_written_def holds_def)
  then show ?thesis using get_block_holds assms(2) by blast
qed

lemma pop_block_spec:
  assumes "blocks_written (cm_store cs) objects B w" and "pop_block cs queue b w = (Ok (c, queue', b'), w')"
  shows "queue = c # queue'" and "add_block (cm_serde cs) c (B c) b = Ok b'" and "objects w' = objects w"
proof -
  obtain d q where q: "queue = d # q" using assms(2) by (cases queue) (auto simp: pop_block_def)
  then obtain r w1 where "get_block_and_cursor (cm_store cs) d w = (Ok r, w1)"
    and rest: "add_block (cm_serde cs) (fst r) (snd r) b = Ok b'" "w' = w1" "c = fst r" "queue' = q"
    using assms(2) by (auto simp: pop_block_def outcome_simps)
  with get_block_written [OF assms(1) this(1)] q show "queue = c # queue'"
    and "add_block (cm_serde cs) c (B c) b = Ok b'" and "objects w' = objects w" by auto
qed

lemma push_blocks_spec:
  "push_blocks cs n current queue w = (Ok (current', queue'), w') \<Longrightarrow> cur_number current + n < u64_lim \<Longrightarrow>
    \<exists>added. queue' = queue @ added \<and> map cur_number added = [cur_number current..<cur_number current + n] \<and>
      (0 < n \<longrightarrow> hd added = current) \<and> cur_number current' = cur_number current + n \<and> objects w' = objects w"
proof (induction n arbitrary: current queue w)
  case 0
  then show ?case by simp
next
  case (Suc n)
  then obtain nxt w1 where nxt: "next_continue cs current w = (Ok nxt, w1)"
    and rest: "push_blocks cs n nxt (queue @ [current]) w1 = (Ok (current', queue'), w')"
    by (auto simp: outcome_simps)
  have num: "cur_number nxt = Suc (cur_number current)"
    using next_continue_number [OF nxt] Suc.prems(2) by (simp add: u64_simps)
  obtain added where "queue' = (queue @ [current]) @ added"
    "map cur_number added = [Suc (cur_number current)..<Suc (cur_number current) + n]"
    "cur_number current' = Suc (cur_number current) + n" "objects w' = objects w1"
    using Suc.IH [OF rest] num Suc.prems(2) by auto
  then show ?case
    using keepsD [OF next_continue_keeps nxt] by (intro exI [of _ "current # added"]) (simp add: upt_conv_Cons)
qed

lemma add_blocks_append: "add_blocks S (xs @ ys) b = obind (add_blocks S xs b) (add_blocks S ys)"
proof (induction xs arbitrary: b)
  case (Cons x xs)
  then show ?case by (cases x; cases "add_block S (fst x) (snd x) b") simp_all
qed simp

lemma roll_blocks_spec:
  "roll_blocks cs n current last_b queue b w = (Ok (last_b', queue', b'), w') \<Longrightarrow>
    blocks_written (cm_store cs) objects B w \<Longrightarrow> cur_number current + n < u64_lim \<Longrightarrow>
    \<exists>added used. queue @ added = used @ queue' \<and> length used = n \<and>
      map cur_number added = [cur_number current..<cur_number current + n] \<and>
      add_blocks (cm_serde cs) (map (\<lambda>c. (c, B c)) used) b = Ok b' \<and> last_b' = last (last_b # used) \<and> objects w' = objects w"
proof (induction n arbitrary: current last_b queue b w)
  case 0
  then show ?case by simp
next
  case (Suc n)
  then obtain c q b1 w1 nxt w2 where pop: "pop_block cs queue b w = (Ok (c, q, b1), w1)"
    and nxt: "next_continue cs current w1 = (Ok nxt, w2)"
    and rest: "roll_blocks cs n nxt c (q @ [current]) b1 w2 = (Ok (last_b', queue', b'), w')"
    by (auto simp: outcome_simps)
  note popped = pop_block_spec [OF Suc.prems(2) pop]
  have w2: "objects w2 = objects w" using keepsD [OF next_continue_keeps nxt] popped(3) by simp
  have num: "cur_number nxt = Suc (cur_number current)"
    using next_continue_number [OF nxt] Suc.prems(3) by (simp add: u64_simps)
  obtain added used where "(q @ [current]) @ added = used @ queue'" "length used = n"
    "map cur_number added = [Suc (cur_number current)..<Suc (cur_number current) + n]"
    "add_blocks (cm_serde cs) (map (\<lambda>c. (c, B c)) used) b1 = Ok b'" "last_b' = last (c # used)" "objects w' = objects w2"
    using Suc.IH [OF rest] Suc.prems(2,3) num w2 blocks_written_keeps [OF w2] by auto
  then show ?case
    using popped w2 by (intro exI [of _ "current # added"] exI [of _ "c # used"]) (simp add: upt_conv_Cons)
qed

lemma drain_blocks_spec:
  "drain_blocks cs n first last_b queue b w = (Ok (last_b', b'), w') \<Longrightarrow> blocks_written (cm_store cs) objects B w \<Longrightarrow>
    n \<le> length queue \<and> add_blocks (cm_serde cs) (map (\<lambda>c. (c, B c)) (take n queue)) b = Ok b' \<and>
      last_b' = last (last_b # take n queue) \<and> objects w' = objects w"
proof (induction n arbitrary: last_b queue b w)
  case 0
  then show ?case by simp
next
  case (Suc n)
  then obtain c q b1 w1 where pop: "pop_block cs queue b w = (Ok (c, q, b1), w1)"
    and rest: "drain_blocks cs n first c q b1 w1 = (Ok (last_b', b'), w')"
    by (auto simp: outcome_simps split: if_splits)
  note popped = pop_block_spec [OF Suc.prems(2) pop]
  show ?case using Suc.IH [OF rest] Suc.prems(2) popped blocks_written_keeps [OF popped(3)] by auto
qed

lemma put_segments_spec:
  "put_segments cs first ss w = (Ok (), w') \<Longrightarrow> distinct (map ss_name ss) \<Longrightarrow>
    (\<forall>s \<in> set ss. holds w' (format_segment_key first (ss_name s)) (ss_data s)) \<and>
    (\<forall>k. (\<forall>s \<in> set ss. k \<noteq> full_key (bs_client (cm_store cs)) (format_segment_key first (ss_name s))) \<longrightarrow> objects w' k = objects w k)"
proof (induction ss arbitrary: w)
  case (Cons s ss)
  then obtain v w1 where put: "put_bytes (cm_store cs) (format_segment_key first (ss_name s)) (ss_data s) w = (Ok v, w1)"
    and rest: "put_segments cs first ss w1 = (Ok (), w')"
    by (auto simp: outcome_simps put_segment_def)
  have names: "distinct (map ss_name ss)" using Cons.prems(2) by simp
  note IH = Cons.IH [OF rest names]
  have "full_key (bs_client (cm_store cs)) (format_segment_key first (ss_name s)) \<noteq>
      full_key (bs_client (cm_store cs)) (format_segment_key first (ss_name t))" if "t \<in> set ss" for t
    using that Cons.prems(2) by (auto simp: full_key_def format_segment_key_def)
  then have "objects w' (full_key (bs_client (cm_store cs)) (format_segment_key first (ss_name s))) =
      objects w1 (full_key (bs_client (cm_store cs)) (format_segment_key first (ss_name s)))"
    using IH by simp
  then have "holds w' (format_segment_key first (ss_name s)) (ss_data s)"
    using put_bytes_holds(1) [OF put] by (simp add: holds_def)
  then show ?case using IH Cons.prems(2) put_bytes_holds(2) [OF put] by auto
qed simp

lemma compact_segment_result:
  assumes "compact_segment fuel cs first w = (Ok (Some ()), w')" and B: "blocks_written (cm_store cs) objects B w"
    and pos: "0 < cm_segment_size cs" and bound: "cur_number first + cm_segment_size cs < u64_lim"
  obtains cursors b segs b' w1 w2 where
    "map cur_number cursors = [cur_number first..<cur_number first + cm_segment_size cs]" and "hd cursors = first"
    and "obind (start_new_segment first default_segment_builder) (add_blocks (cm_serde cs) (map (\<lambda>c. (c, B c)) cursors)) = Ok b"
    and "segment_data (cm_serde cs) (cm_hash_order cs) b = Ok (segs, b')" and "objects w1 = objects w"
    and "put_segments cs first segs w1 = (Ok (), w2)"
    and "put_segmented fuel (cm_state cs) (cur_number first + cm_segment_size cs - 1) w2 = (Ok (Some ()), w')"
proof -
  define m where "m = min (cm_segment_size cs) MAX_BUFFERED_BLOCKS"
  have m: "0 < m" "m \<le> cm_segment_size cs" using pos by (auto simp: m_def MAX_BUFFERED_BLOCKS_def)
  define R where "R = (\<lambda>cur q b0. if cm_segment_size cs > m then roll_blocks cs (cm_segment_size cs - m) cur first q b0
    else ireturn (first, q, b0))"
  let ?bs = "\<lambda>cs'. map (\<lambda>c. (c, B c)) cs'"
  obtain b0 cur q w1 last1 q1 b1 w2 last2 b2 w3 segs b' w4 where
    start: "start_new_segment first default_segment_builder = Ok b0"
    and push: "push_blocks cs m first [] w = (Ok (cur, q), w1)"
    and roll: "R cur q b0 w1 = (Ok (last1, q1, b1), w2)"
    and drain: "drain_blocks cs m first last1 q1 b1 w2 = (Ok (last2, b2), w3)"
    and data: "segment_data (cm_serde cs) (cm_hash_order cs) b2 = Ok (segs, b')"
    and put: "put_segments cs first segs w3 = (Ok (), w4)"
    and mark: "put_segmented fuel (cm_state cs) (cur_number last2) w4 = (Ok (Some ()), w')"
    using assms(1) unfolding compact_segment_def Let_def m_def [symmetric] R_def [symmetric, THEN fun_cong, THEN fun_cong, THEN fun_cong]
    by (auto simp: outcome_simps split: if_splits)
  obtain pushed where p: "q = pushed" "map cur_number pushed = [cur_number first..<cur_number first + m]" "hd pushed = first"
    "cur_number cur = cur_number first + m" "objects w1 = objects w"
    using push_blocks_spec [OF push] m bound by auto
  have "\<exists>added used. pushed @ added = used @ q1 \<and> length used = cm_segment_size cs - m \<and>
      map cur_number added = [cur_number first + m..<cur_number first + cm_segment_size cs] \<and>
      add_blocks (cm_serde cs) (?bs used) b0 = Ok b1 \<and> last1 = last (first # used) \<and> objects w2 = objects w"
  proof (cases "cm_segment_size cs > m")
    case True
    then show ?thesis
      using roll_blocks_spec [of "cm_segment_size cs - m" cur first q b0 w1 last1 q1 b1 w2 B] roll p m bound B
        blocks_written_keeps [OF p(5)] by (auto simp: R_def)
  next
    case False
    then show ?thesis using roll p m by (intro exI [of _ "[]"]) (auto simp: R_def)
  qed
  then obtain added used where u: "pushed @ added = used @ q1" "length used = cm_segment_size cs - m"
    "map cur_number added = [cur_number first + m..<cur_number first + cm_segment_size cs]"
    "add_blocks (cm_serde cs) (?bs used) b0 = Ok b1" "last1 = last (first # used)" "objects w2 = objects w" by blast
  define cursors where "cursors = pushed @ added"
  have nums: "map cur_number cursors = [cur_number first..<cur_number first + cm_segment_size cs]"
    using p(2) u(3) m upt_add_eq_append [of "cur_number first" "cur_number first + m" "cm_segment_size cs - m"]
    by (simp add: cursors_def)
  have "length cursors = cm_segment_size cs" using arg_cong [OF nums, of length] by simp
  then have "length q1 = m" using u(1,2) m unfolding cursors_def by (metis add_diff_cancel_left' diff_diff_cancel length_append)
  then have d: "add_blocks (cm_serde cs) (?bs q1) b1 = Ok b2" "last2 = last (last1 # q1)" "objects w3 = objects w"
    using drain_blocks_spec [OF drain, of B] B blocks_written_keeps [OF u(6)] u(6) by auto
  have "cursors = used @ q1" using u(1) cursors_def by simp
  then have "add_blocks (cm_serde cs) (?bs cursors) b0 = Ok b2" using u(4) d(1) by (simp add: add_blocks_append)
  moreover have "last2 = last cursors" using d(2) \<open>cursors = used @ q1\<close> \<open>length q1 = m\<close> m by auto
  moreover have "cursors \<noteq> []" using \<open>length cursors = cm_segment_size cs\<close> pos by auto
  ultimately have "cur_number last2 = cur_number first + cm_segment_size cs - 1"
    using nums pos by (metis last_map last_upt less_add_same_cancel1)
  moreover have "pushed \<noteq> []" using arg_cong [OF p(2), of length] m(1) by auto
  then have "hd cursors = first" using p(3) by (simp add: cursors_def)
  ultimately show ?thesis
    using that [of cursors b2 segs b' w3 w4] nums start data put mark d(3)
      \<open>add_blocks (cm_serde cs) (?bs cursors) b0 = Ok b2\<close> by simp
qed

end

context segment_codec
begin

lemma segment_file_names:
  assumes "builder_holds fns (Some first) cbs b" and "cbs \<noteq> []"
    and order: "\<And>xs. mset (hash_order xs) = mset xs" and "segment_data S hash_order b = Ok (segs, b')"
  shows "mset (map ss_name segs) = mset ([INDEX_FRAGMENT_NAME, JOIN_FRAGMENT_NAME, HEADER_FRAGMENT_NAME] @ map snd fns)"
proof -
  let ?xs = "map snd (body_of fns cbs)"
  obtain ix jn hd body where segs: "segs = [ix, jn, hd] @ body"
    "ss_name ix = INDEX_FRAGMENT_NAME" "ss_name jn = JOIN_FRAGMENT_NAME" "ss_name hd = HEADER_FRAGMENT_NAME"
    and body: "list_all2 (\<lambda>(name, data) s. ss_name s = name \<and>
      from_bytes (sd_body S) (ss_data s) = Some \<lparr>seg_first_block = first, seg_data = data\<rparr>) (hash_order ?xs) body"
    using segment_data_files [OF assms(1,2) order assms(4)] by blast
  have "map ss_name body = map fst (hash_order ?xs)"
    using body by (auto simp: list_all2_conv_all_nth split_beta intro!: nth_equalityI)
  moreover have "mset (map fst (hash_order ?xs)) = mset (map snd fns)"
  proof -
    have "mset (map fst (hash_order ?xs)) = mset (map fst ?xs)" by (simp only: mset_map order)
    also have "map fst ?xs = map snd fns" by (rule nth_equalityI) (simp_all add: body_of_def)
    finally show ?thesis .
  qed
  ultimately have "mset (map ss_name segs) = mset ([INDEX_FRAGMENT_NAME, JOIN_FRAGMENT_NAME, HEADER_FRAGMENT_NAME] @ map snd fns)"
    using segs by simp
  then show ?thesis .
qed

lemma segment_data_names:
  assumes "builder_holds fns (Some first) cbs b" and "cbs \<noteq> []" and table: "fragment_table_ok fns"
    and order: "\<And>xs. mset (hash_order xs) = mset xs" and "segment_data S hash_order b = Ok (segs, b')"
  shows "distinct (map ss_name segs)"
  using segment_file_names [OF assms(1,2,4,5)] table unfolding fragment_table_ok_def
  by (metis mset_eq_imp_distinct_iff)

end


section \<open>A compacted segment\<close>

text \<open>The files of a segment, and access to the same fragments.\<close>

definition segment_files :: "(fragment_id \<times> string) list \<Rightarrow> (fragment_id \<times> string) list" where
  "segment_files fns = [(INDEX_FRAGMENT_ID, INDEX_FRAGMENT_NAME), (JOIN_FRAGMENT_ID, JOIN_FRAGMENT_NAME),
     (HEADER_FRAGMENT_ID, HEADER_FRAGMENT_NAME)] @ fns"

definition same_fragments :: "segment_serde \<Rightarrow> fragment_id \<Rightarrow> 'b fragment_access \<Rightarrow> 'b fragment_access \<Rightarrow> bool" where
  "same_fragments S fid a b \<longleftrightarrow> get_index_fragment S fid a = get_index_fragment S fid b \<and>
     get_join_fragment S fid a = get_join_fragment S fid b \<and> get_header_fragment S a = get_header_fragment S b \<and>
     get_body_fragment S fid a = get_body_fragment S fid b"

context compaction_env
begin

lemma compacted_files:
  assumes "obind (start_new_segment first default_segment_builder) (add_blocks (cm_serde cs) (map (\<lambda>c. (c, B c)) cursors)) = Ok b"
    and "segment_data (cm_serde cs) (cm_hash_order cs) b = Ok (segs, b')" and "put_segments cs first segs w1 = (Ok (), w2)"
    and "cursors \<noteq> []" and table: "fragment_table_ok fns" and order: "\<And>xs. mset (cm_hash_order cs xs) = mset xs"
    and uniform: "\<And>c. \<exists>blk. from_bytes (sd_block (cm_serde cs)) (B c) = Some blk \<and> uniform_fragments fns blk"
  shows "\<forall>s \<in> set segs. holds w2 (format_segment_key first (ss_name s)) (ss_data s)"
    and "(fid, name) \<in> set (segment_files fns) \<Longrightarrow> \<exists>s \<in> set segs. ss_name s = name"
proof -
  define blk where "blk = (\<lambda>c. the (from_bytes (sd_block (cm_serde cs)) (B c)))"
  have blk: "from_bytes (sd_block (cm_serde cs)) (B c) = Some (blk c) \<and> uniform_fragments fns (blk c)" for c
    using uniform [of c] by (auto simp: blk_def)
  have d: "distinct (map fst fns)" using table by (simp add: fragment_table_ok_def)
  define b0 where "b0 = default_segment_builder\<lparr>sb_first_block := Some first\<rparr>"
  have b0: "builder_holds fns (Some first) [] b0" by (simp add: builder_holds_def b0_def default_segment_builder_def)
  have dec: "list_all2 (\<lambda>(c, bytes) (c', blk). c = c' \<and> from_bytes (sd_block (cm_serde cs)) bytes = Some blk)
      (map (\<lambda>c. (c, B c)) cursors) (map (\<lambda>c. (c, blk c)) cursors)"
    using blk by (simp add: list_all2_conv_all_nth)
  have "add_blocks (cm_serde cs) (map (\<lambda>c. (c, B c)) cursors) b0 = Ok b"
    using assms(1) by (simp add: b0_def start_new_segment_def default_segment_builder_def)
  moreover have "\<forall>(c, blk) \<in> set (map (\<lambda>c. (c, blk c)) cursors). uniform_fragments fns blk" using blk by auto
  ultimately have holds: "builder_holds fns (Some first) (map (\<lambda>c. (c, blk c)) cursors) b"
    using add_blocks_holds [OF d b0 dec] by auto
  have ne: "map (\<lambda>c. (c, blk c)) cursors \<noteq> []" using assms(4) by simp
  show "\<forall>s \<in> set segs. holds w2 (format_segment_key first (ss_name s)) (ss_data s)"
    using put_segments_spec [OF assms(3) segment_data_names [OF holds ne table order assms(2)]] by blast
  show "\<exists>s \<in> set segs. ss_name s = name" if "(fid, name) \<in> set (segment_files fns)"
  proof -
    have "set (map ss_name segs) = set ([INDEX_FRAGMENT_NAME, JOIN_FRAGMENT_NAME, HEADER_FRAGMENT_NAME] @ map snd fns)"
      using segment_file_names [OF holds ne order assms(2)] by (rule mset_eq_setD)
    moreover have "name \<in> set ([INDEX_FRAGMENT_NAME, JOIN_FRAGMENT_NAME, HEADER_FRAGMENT_NAME] @ map snd fns)"
      using that by (force simp: segment_files_def)
    ultimately have "name \<in> set (map ss_name segs)" by (simp only:)
    then show ?thesis by auto
  qed
qed

lemma fetched_files:
  assumes held: "\<forall>s \<in> set segs. holds w (format_segment_key first (ss_name s)) (ss_data s)"
    and names: "\<And>fid name. (fid, name) \<in> set (segment_files fns) \<Longrightarrow> \<exists>s \<in> set segs. ss_name s = name"
    and fetched: "\<And>fid name. (fid, name) \<in> set (segment_files fns) \<Longrightarrow> \<exists>bytes w1 w2. sa_fragments sa fid = Some bytes \<and>
      objects w1 = objects w \<and> get_segment (cm_store cs) first name w1 = (Ok bytes, w2)"
  shows "segment_fetched fns segs sa"
proof -
  have "\<exists>s \<in> set segs. ss_name s = name \<and> sa_fragments sa fid = Some (ss_data s)" if mem: "(fid, name) \<in> set (segment_files fns)" for fid name
  proof -
    obtain s where s: "s \<in> set segs" "ss_name s = name" using names [OF mem] by blast
    obtain bytes w1 w2 where g: "sa_fragments sa fid = Some bytes" "objects w1 = objects w"
      "get_segment (cm_store cs) first name w1 = (Ok bytes, w2)" using fetched [OF mem] by blast
    have "holds w1 (format_segment_key first name) (ss_data s)" using held s g(2) by (auto simp: holds_def)
    then have "bytes = ss_data s" using get_segment_holds g(3) by blast
    then show ?thesis using s g(1) by blast
  qed
  then show ?thesis unfolding segment_fetched_def segment_files_def [symmetric] list_all_iff list_ex_iff by auto
qed

lemma compacted_segment_agrees:
  assumes run: "compact_segment fuel cs first w = (Ok (Some ()), w')" and B: "blocks_written (cm_store cs) objects B w"
    and pos: "0 < cm_segment_size cs" and bound: "cur_number first + cm_segment_size cs < u64_lim"
    and table: "fragment_table_ok fns" and order: "\<And>xs. mset (cm_hash_order cs xs) = mset xs"
    and uniform: "\<And>c. \<exists>blk. from_bytes (sd_block (cm_serde cs)) (B c) = Some blk \<and> uniform_fragments fns blk"
  shows "\<exists>cursors w2. map cur_number cursors = [cur_number first..<cur_number first + cm_segment_size cs] \<and> hd cursors = first \<and>
    put_segmented fuel (cm_state cs) (cur_number first + cm_segment_size cs - 1) w2 = (Ok (Some ()), w') \<and>
    (\<forall>sa i fid. (\<forall>(f, name) \<in> set (segment_files fns). \<exists>bytes w3 w4. sa_fragments sa f = Some bytes \<and>
         objects w3 = objects w2 \<and> get_segment (cm_store cs) first name w3 = (Ok bytes, w4)) \<and>
       i < cm_segment_size cs \<and> fid \<in> fst ` set fns \<longrightarrow>
       same_fragments (cm_serde cs) fid (SegmentFA \<lparr>sba_offset = i, sba_segment = sa :: 'c segment_access\<rparr>) (BlockFA (B (cursors ! i))))"
proof -
  obtain cursors b segs b' w1 w2 where c: "map cur_number cursors = [cur_number first..<cur_number first + cm_segment_size cs]"
    "hd cursors = first"
    and build: "obind (start_new_segment first default_segment_builder) (add_blocks (cm_serde cs) (map (\<lambda>c. (c, B c)) cursors)) = Ok b"
    and data: "segment_data (cm_serde cs) (cm_hash_order cs) b = Ok (segs, b')" and put: "put_segments cs first segs w1 = (Ok (), w2)"
    and mark: "put_segmented fuel (cm_state cs) (cur_number first + cm_segment_size cs - 1) w2 = (Ok (Some ()), w')"
    by (rule compact_segment_result [OF run B pos bound]) (rule that; assumption)
  have len: "length cursors = cm_segment_size cs" using arg_cong [OF c(1), of length] by simp
  then have "cursors \<noteq> []" using pos by auto
  note files = compacted_files [OF build data put this table order uniform]
  have "same_fragments (cm_serde cs) fid (SegmentFA \<lparr>sba_offset = i, sba_segment = sa\<rparr>) (BlockFA (B (cursors ! i)))"
    if fetched: "\<forall>(f, name) \<in> set (segment_files fns). \<exists>bytes w3 w4. sa_fragments sa f = Some bytes \<and>
         objects w3 = objects w2 \<and> get_segment (cm_store cs) first name w3 = (Ok bytes, w4)"
      and i: "i < cm_segment_size cs" and fid: "fid \<in> fst ` set fns" for sa :: "'c segment_access" and i fid
  proof -
    have "segment_fetched fns segs sa"
    proof (rule fetched_files [OF files(1)])
      fix f name
      assume "(f, name) \<in> set (segment_files fns)"
      then show "\<exists>s \<in> set segs. ss_name s = name" and "\<exists>bytes w3 w4. sa_fragments sa f = Some bytes \<and>
          objects w3 = objects w2 \<and> get_segment (cm_store cs) first name w3 = (Ok bytes, w4)"
        using files(2) bspec [OF fetched] by fastforce+
    qed
    moreover have "\<forall>(c, bytes) \<in> set (map (\<lambda>c. (c, B c)) cursors).
        \<exists>blk. from_bytes (sd_block (cm_serde cs)) bytes = Some blk \<and> uniform_fragments fns blk" using uniform by auto
    ultimately show ?thesis
      using segment_agrees [OF segment_codec_axioms table order _ build data, of sa i fid] i fid len
      by (simp add: same_fragments_def)
  qed
  then show ?thesis using c mark by blast
qed

end

section \<open>A compacted group\<close>

text \<open>The index files of the segments were written by the writer, with the bytes \<open>SB\<close>.\<close>

definition index_written ::
  "'w block_store \<Rightarrow> ('w \<Rightarrow> string \<rightharpoonup> object_version \<times> bytes) \<Rightarrow> (nat \<Rightarrow> bytes) \<Rightarrow> 'w \<Rightarrow> bool" where
  "index_written st objects SB w \<longleftrightarrow> (\<forall>c v stored.
     objects w (full_key (bs_client st) (format_segment_key c ''index'')) = Some (v, stored) \<longrightarrow>
     written_as (bs_codec st) (SB (cur_number c)) stored)"

lemma index_written_keeps: "objects w' = objects w \<Longrightarrow> index_written st objects SB w' = index_written st objects SB w"
  by (simp add: index_written_def)

definition decodes :: "segment_serde \<Rightarrow> (nat \<Rightarrow> bytes) \<Rightarrow> cursor list \<Rightarrow> index_group_fragment segment list \<Rightarrow> bool" where
  "decodes S SB cursors segs \<longleftrightarrow> list_all2 (\<lambda>c seg. from_bytes (sd_index S) (SB (cur_number c)) = Some seg) cursors segs"

context compaction_env
begin

lemma pop_segment_spec:
  assumes "index_written (cm_store cs) objects SB w" and "pop_segment cs queue b w = (Ok (queue', b'), w')"
  shows "\<exists>c seg. queue = c # queue' \<and> from_bytes (sd_index (cm_serde cs)) (SB (cur_number c)) = Some seg \<and>
    b' = add_segment (cm_roaring cs) seg b \<and> objects w' = objects w"
proof -
  obtain c q where q: "queue = c # q" using assms(2) by (cases queue) (auto simp: pop_segment_def)
  then obtain bytes w1 seg where get: "get_segment (cm_store cs) c ''index'' w = (Ok bytes, w1)"
    and rest: "from_bytes (sd_index (cm_serde cs)) bytes = Some seg" "b' = add_segment (cm_roaring cs) seg b" "queue' = q" "w' = w1"
    using assms(2) by (auto simp: pop_segment_def get_index_segment_and_cursor_def outcome_simps ioption_def split: option.splits)
  have "objects w (full_key (bs_client (cm_store cs)) (format_segment_key c ''index'')) \<noteq> None"
    using get by (auto simp: get_segment_def outcome_simps dest: object_get_found)
  then have "holds w (format_segment_key c ''index'') (SB (cur_number c))"
    using assms(1) by (fastforce simp: index_written_def holds_def)
  then have "bytes = SB (cur_number c) \<and> objects w1 = objects w" using get_segment_holds get by blast
  then show ?thesis using q rest by blast
qed

lemma roll_segments_spec:
  "roll_segments cs first is queue b w = (Ok (queue', b'), w') \<Longrightarrow> index_written (cm_store cs) objects SB w \<Longrightarrow>
    \<exists>used segs. queue @ map (segment_request cs first) is = used @ queue' \<and> length used = length is \<and>
      decodes (cm_serde cs) SB used segs \<and> b' = foldl (\<lambda>g s. add_segment (cm_roaring cs) s g) b segs \<and> objects w' = objects w"
proof (induction "is" arbitrary: queue b w)
  case Nil
  then show ?case by (auto simp: decodes_def)
next
  case (Cons i "is")
  then obtain q b1 w1 where pop: "pop_segment cs queue b w = (Ok (q, b1), w1)"
    and rest: "roll_segments cs first is (q @ [segment_request cs first i]) b1 w1 = (Ok (queue', b'), w')"
    by (auto simp: outcome_simps)
  obtain c seg where p: "queue = c # q" "from_bytes (sd_index (cm_serde cs)) (SB (cur_number c)) = Some seg"
    "b1 = add_segment (cm_roaring cs) seg b" "objects w1 = objects w"
    using pop_segment_spec [OF Cons.prems(2) pop] by blast
  obtain used segs where "(q @ [segment_request cs first i]) @ map (segment_request cs first) is = used @ queue'"
    "length used = length is" "decodes (cm_serde cs) SB used segs"
    "b' = foldl (\<lambda>g s. add_segment (cm_roaring cs) s g) b1 segs" "objects w' = objects w1"
    using Cons.IH [OF rest] Cons.prems(2) index_written_keeps [OF p(4)] by blast
  then show ?case using p by (intro exI [of _ "c # used"] exI [of _ "seg # segs"]) (simp add: decodes_def)
qed

lemma drain_segments_spec:
  "drain_segments cs n queue b w = (Ok b', w') \<Longrightarrow> index_written (cm_store cs) objects SB w \<Longrightarrow>
    n \<le> length queue \<and> (\<exists>segs. decodes (cm_serde cs) SB (take n queue) segs \<and>
      b' = foldl (\<lambda>g s. add_segment (cm_roaring cs) s g) b segs) \<and> objects w' = objects w"
proof (induction n arbitrary: queue b w)
  case 0
  then show ?case by (auto simp: decodes_def)
next
  case (Suc n)
  then obtain q b1 w1 where pop: "pop_segment cs queue b w = (Ok (q, b1), w1)"
    and rest: "drain_segments cs n q b1 w1 = (Ok b', w')"
    by (auto simp: outcome_simps)
  obtain c seg where p: "queue = c # q" "from_bytes (sd_index (cm_serde cs)) (SB (cur_number c)) = Some seg"
    "b1 = add_segment (cm_roaring cs) seg b" "objects w1 = objects w"
    using pop_segment_spec [OF Suc.prems(2) pop] by blast
  have "index_written (cm_store cs) objects SB w1" using Suc.prems(2) index_written_keeps [OF p(4)] by blast
  from Suc.IH [OF rest this] obtain segs where "n \<le> length q" "decodes (cm_serde cs) SB (take n q) segs"
    "b' = foldl (\<lambda>g s. add_segment (cm_roaring cs) s g) b1 segs" "objects w' = objects w1" by blast
  then show ?case using p by (intro conjI exI [of _ "seg # segs"]) (simp_all add: decodes_def)
qed

lemma compact_group_result:
  assumes "compact_group fuel cs first n w = (Ok (Some ()), w')" and SB: "index_written (cm_store cs) objects SB w"
  shows "\<exists>segs grp size_version w1 w2. decodes (cm_serde cs) SB (map (segment_request cs first) [0..<cm_group_size cs]) segs \<and>
    group_build (cm_roaring cs) (group_of (cm_roaring cs) (cm_segment_size cs) segs) = Ok grp \<and>
    put_group (cm_store cs) first grp w1 = (Ok size_version, w2) \<and> objects w1 = objects w \<and>
    put_grouped fuel (cm_state cs) (u64_sub (u64_add (cur_number first) n) 1) w2 = (Ok (Some ()), w')"
proof -
  define m where "m = min (cm_group_size cs) MAX_BUFFERED_SEGMENTS"
  have m: "m \<le> cm_group_size cs" by (simp add: m_def)
  let ?req = "segment_request cs first" and ?add = "\<lambda>g s. add_segment (cm_roaring cs) s g"
  define R where "R = (if cm_group_size cs > m
    then roll_segments cs first [m..<cm_group_size cs] (map ?req [0..<m]) (group_builder_new (cm_segment_size cs))
    else ireturn (map ?req [0..<m], group_builder_new (cm_segment_size cs)))"
  obtain q b1 w1 b2 w2 grp sv w3 where roll: "R w = (Ok (q, b1), w1)"
    and drain: "drain_segments cs m q b1 w1 = (Ok b2, w2)" and build: "group_build (cm_roaring cs) b2 = Ok grp"
    and put: "put_group (cm_store cs) first grp w2 = (Ok sv, w3)"
    and mark: "put_grouped fuel (cm_state cs) (u64_sub (u64_add (cur_number first) n) 1) w3 = (Ok (Some ()), w')"
    using assms(1) unfolding compact_group_def Let_def m_def [symmetric] R_def [symmetric]
    by (auto simp: outcome_simps split: if_splits)
  have "\<exists>used segs. map ?req [0..<cm_group_size cs] = used @ q \<and> length used = cm_group_size cs - m \<and>
      decodes (cm_serde cs) SB used segs \<and> b1 = foldl ?add (group_builder_new (cm_segment_size cs)) segs \<and> objects w1 = objects w"
  proof (cases "cm_group_size cs > m")
    case True
    then have "[0..<cm_group_size cs] = [0..<m] @ [m..<cm_group_size cs]"
      using upt_add_eq_append [of 0 m "cm_group_size cs - m"] by simp
    then show ?thesis using roll_segments_spec [OF roll [unfolded R_def if_P [OF True]] SB] by simp
  next
    case False
    then show ?thesis using roll m by (auto simp: R_def decodes_def)
  qed
  then obtain used segs where u: "map ?req [0..<cm_group_size cs] = used @ q" "length used = cm_group_size cs - m"
    "decodes (cm_serde cs) SB used segs" "b1 = foldl ?add (group_builder_new (cm_segment_size cs)) segs" "objects w1 = objects w"
    by blast
  have "length q = m" using arg_cong [OF u(1), of length] u(2) m by simp
  then obtain segs' where d: "decodes (cm_serde cs) SB q segs'" "b2 = foldl ?add b1 segs'" "objects w2 = objects w"
    using drain_segments_spec [OF drain, of SB] SB index_written_keeps [OF u(5)] u(5) by auto
  have "decodes (cm_serde cs) SB (map ?req [0..<cm_group_size cs]) (segs @ segs')"
    using u(1,3) d(1) by (simp add: decodes_def list_all2_appendI)
  moreover have "b2 = group_of (cm_roaring cs) (cm_segment_size cs) (segs @ segs')"
    using u(4) d(2) by (simp add: group_of_def)
  ultimately show ?thesis using build put mark d(3) by blast
qed

end

section \<open>What pruning deletes\<close>

lemma prune_blocks_reached:
  "prune_blocks cs n grouped current w = (Ok (Some current'), w') \<Longrightarrow> Suc grouped < u64_lim \<Longrightarrow> current \<le> Suc grouped \<Longrightarrow>
    current' = min (current + n) (Suc grouped)"
proof (induction n arbitrary: current w)
  case (Suc n)
  then show ?case
  proof (cases "current > grouped")
    case False
    then obtain w1 where "prune_blocks cs n grouped (u64_add current 1) w1 = (Ok (Some current'), w')"
      using Suc.prems by (auto simp: outcome_simps split: if_splits)
    moreover have "u64_add current 1 = Suc current" using False Suc.prems by (simp add: u64_simps)
    ultimately show ?thesis using Suc.IH [of "Suc current" w1] Suc.prems False by simp
  qed (auto split: if_splits)
qed simp

lemma prune_while_fuel:
  "0 < cm_segment_size cs \<Longrightarrow> Suc grouped < u64_lim \<Longrightarrow> Suc grouped - current < fuel \<Longrightarrow> current \<le> Suc grouped \<Longrightarrow>
    fst (prune_while fuel cs grouped current w) \<noteq> Ok None"
proof (induction fuel arbitrary: current w)
  case (Suc fuel)
  show ?case
  proof (cases "current < grouped")
    case True
    obtain r w1 where r: "prune_blocks cs (cm_segment_size cs) grouped current w = (r, w1)" by (meson surj_pair)
    show ?thesis
    proof (cases "\<exists>next. r = Ok (Some next)")
      case more: True
      then obtain nxt where nxt: "r = Ok (Some nxt)" by blast
      then have "nxt = min (current + cm_segment_size cs) (Suc grouped)"
        using prune_blocks_reached r Suc.prems True by (metis less_Suc_eq less_imp_le_nat)
      then have "Suc grouped - nxt < fuel" "nxt \<le> Suc grouped" using Suc.prems True by auto
      then have "fst (prune_while fuel cs grouped nxt w2) \<noteq> Ok None" for w2 using Suc.IH Suc.prems by blast
      moreover obtain p w2 where "put_pruned (cm_state cs) (u64_sub nxt 1) w1 = (p, w2)" by (meson surj_pair)
      ultimately show ?thesis using True r nxt by (cases p) (simp_all add: ibind_def ichange_def)
    next
      case False
      then show ?thesis using True r by (cases r) (auto simp: ibind_def split: option.splits)
    qed
  qed simp
qed simp

context block_backend
begin

lemma delete_block_absent:
  assumes "objects w k = None"
  shows "objects (snd (delete_block_with_prefix st n w)) k = None"
proof -
  let ?p = "full_key (bs_client st) (format_block_prefix n)"
  obtain r w1 where l: "oc_list_objects (os_client (bs_client st)) (os_bucket (bs_client st)) ?p w = (r, w1)"
    by (meson surj_pair)
  have w1: "objects w1 = objects w" using keepsD [OF list_keeps l] .
  show ?thesis
  proof (cases r)
    case (Ok ids)
    then have "k \<notin> set ids" using list_ok l assms by blast
    then show ?thesis
      using delete_objects_others [of k ids w1] Ok l w1 assms
      by (auto simp: delete_block_with_prefix_def ibind_def ichange_def object_store_list_def)
  qed (use l w1 assms in \<open>simp_all add: delete_block_with_prefix_def ibind_def ichange_def object_store_list_def\<close>)
qed

text \<open>The keys of the blocks with a number.\<close>

definition of_block :: "nat \<Rightarrow> string \<Rightarrow> bool" where
  "of_block n k \<longleftrightarrow>
     take (length (full_key (bs_client st) (format_block_prefix n))) k = full_key (bs_client st) (format_block_prefix n)"

end

context compaction_env
begin

lemma prune_blocks_effect:
  "Suc grouped < u64_lim \<Longrightarrow> \<forall>m. current \<le> m \<and> m \<le> grouped \<longrightarrow> \<not> of_block m k \<Longrightarrow>
    objects (snd (prune_blocks cs n grouped current w)) k = objects w k"
proof (induction n arbitrary: current w)
  case (Suc n)
  show ?case
  proof (cases "cm_cancelled cs w \<or> current > grouped")
    case False
    obtain r w1 where d: "delete_block_with_prefix (cm_store cs) current w = (r, w1)" by (meson surj_pair)
    have "objects w1 k = objects w k"
      using delete_block_effect [of current w k] Suc.prems(2) False d by (auto simp: of_block_def)
    moreover have "u64_add current 1 = Suc current" using False Suc.prems by (simp add: u64_simps)
    moreover have "objects (snd (prune_blocks cs n grouped (Suc current) w1)) k = objects w1 k"
      using Suc.IH [of "Suc current" w1] Suc.prems by simp
    ultimately show ?thesis using False d by (cases r) (simp_all add: ibind_def ichange_def)
  qed auto
qed simp

lemma prune_blocks_before:
  "Suc grouped < u64_lim \<Longrightarrow> current + n \<le> grouped \<Longrightarrow> \<forall>m. current \<le> m \<and> m < grouped \<longrightarrow> \<not> of_block m k \<Longrightarrow>
    objects (snd (prune_blocks cs n grouped current w)) k = objects w k"
proof (induction n arbitrary: current w)
  case (Suc n)
  obtain r w1 where d: "delete_block_with_prefix (cm_store cs) current w = (r, w1)" by (meson surj_pair)
  have "objects w1 k = objects w k"
    using delete_block_effect [of current w k] Suc.prems(2,3) d by (auto simp: of_block_def)
  moreover have "u64_add current 1 = Suc current" using Suc.prems by (simp add: u64_simps)
  moreover have "objects (snd (prune_blocks cs n grouped (Suc current) w1)) k = objects w1 k"
    using Suc.IH [of "Suc current" w1] Suc.prems by simp
  ultimately show ?case using d by (cases r) (simp_all add: ibind_def ichange_def)
qed simp

lemma prune_blocks_gone:
  "Suc grouped < u64_lim \<Longrightarrow> current \<le> Suc grouped \<Longrightarrow> prune_blocks cs n grouped current w = (Ok (Some current'), w') \<Longrightarrow>
    (objects w k = None \<or> (\<exists>m. current \<le> m \<and> m < current' \<and> of_block m k)) \<Longrightarrow> objects w' k = None"
proof (induction n arbitrary: current w)
  case (Suc n)
  show ?case
  proof (cases "current > grouped")
    case True
    then show ?thesis using Suc.prems by (auto split: if_splits)
  next
    case False
    then obtain w1 where d: "delete_block_with_prefix (cm_store cs) current w = (Ok (), w1)"
      and rest: "prune_blocks cs n grouped (u64_add current 1) w1 = (Ok (Some current'), w')"
      using Suc.prems by (auto simp: outcome_simps split: if_splits)
    have nxt: "u64_add current 1 = Suc current" using False Suc.prems by (simp add: u64_simps)
    have "objects w1 k = None \<or> (\<exists>m. Suc current \<le> m \<and> m < current' \<and> of_block m k)"
      using Suc.prems(4)
    proof
      assume "objects w k = None"
      then show ?thesis using delete_block_absent [of w k current] d by simp
    next
      assume "\<exists>m. current \<le> m \<and> m < current' \<and> of_block m k"
      then obtain m where m: "current \<le> m" "m < current'" "of_block m k" by blast
      show ?thesis
      proof (cases "m = current")
        case True
        then show ?thesis using delete_block_gone [OF d] m(3) by (simp add: of_block_def)
      qed (use m in auto)
    qed
    then show ?thesis using Suc.IH [of "Suc current" w1] Suc.prems(1) rest nxt False by simp
  qed
qed auto

lemma prune_while_effect:
  "Suc grouped < u64_lim \<Longrightarrow> current \<le> Suc grouped \<Longrightarrow> \<forall>m. current \<le> m \<and> m \<le> grouped \<longrightarrow> \<not> of_block m k \<Longrightarrow>
    objects (snd (prune_while fuel cs grouped current w)) k = objects w k"
proof (induction fuel arbitrary: current w)
  case (Suc fuel)
  show ?case
  proof (cases "current < grouped")
    case True
    obtain r w1 where r: "prune_blocks cs (cm_segment_size cs) grouped current w = (r, w1)" by (meson surj_pair)
    have w1: "objects w1 k = objects w k" using prune_blocks_effect [OF Suc.prems(1,3), of "cm_segment_size cs" w] r by simp
    show ?thesis
    proof (cases "\<exists>nxt. r = Ok (Some nxt)")
      case more: True
      then obtain nxt where nxt: "r = Ok (Some nxt)" by blast
      then have "nxt = min (current + cm_segment_size cs) (Suc grouped)"
        using prune_blocks_reached r Suc.prems by metis
      then have "nxt \<le> Suc grouped" and "\<forall>m. nxt \<le> m \<and> m \<le> grouped \<longrightarrow> \<not> of_block m k" using Suc.prems(2,3) by auto
      then have "objects (snd (prune_while fuel cs grouped nxt w2)) k = objects w2 k" for w2
        using Suc.IH [OF Suc.prems(1)] by blast
      moreover obtain p w2 where p: "put_pruned (cm_state cs) (u64_sub nxt 1) w1 = (p, w2)" by (meson surj_pair)
      moreover have "objects w2 = objects w1" using keepsD [OF put_block_at_keeps] p by (simp add: put_pruned_def)
      ultimately show ?thesis using True r nxt w1 by (cases p) (simp_all add: ibind_def ichange_def)
    next
      case False
      then show ?thesis using True r w1 by (cases r) (auto simp: ibind_def split: option.splits)
    qed
  qed simp
qed simp

lemma prune_while_gone:
  assumes "\<And>w. \<not> cm_cancelled cs w"
  shows "Suc grouped < u64_lim \<Longrightarrow> current \<le> Suc grouped \<Longrightarrow> prune_while fuel cs grouped current w = (Ok (Some ()), w') \<Longrightarrow>
    (objects w k = None \<or> (\<exists>m. current \<le> m \<and> m < grouped \<and> of_block m k)) \<Longrightarrow> objects w' k = None"
proof (induction fuel arbitrary: current w)
  case (Suc fuel)
  show ?case
  proof (cases "current < grouped")
    case True
    have never: "fst (prune_blocks cs n grouped c v) \<noteq> Ok None" for n c v
      by (induction n arbitrary: c v) (auto simp: assms ibind_def split: prod.splits outcome.splits)
    obtain nxt w1 w2 where b: "prune_blocks cs (cm_segment_size cs) grouped current w = (Ok (Some nxt), w1)"
      and p: "put_pruned (cm_state cs) (u64_sub nxt 1) w1 = (Ok (), w2)"
      and rest: "prune_while fuel cs grouped nxt w2 = (Ok (Some ()), w')"
      using Suc.prems(3) True never [of "cm_segment_size cs" current w] by (auto simp: outcome_simps split: option.splits)
    have w2: "objects w2 = objects w1" using keepsD [OF put_block_at_keeps] p by (simp add: put_pruned_def)
    note nxt = prune_blocks_reached [OF b Suc.prems(1,2)]
    have "objects w1 k = None \<or> (\<exists>m. nxt \<le> m \<and> m < grouped \<and> of_block m k)"
      using prune_blocks_gone [OF Suc.prems(1,2) b, of k] Suc.prems(4) by (meson not_le)
    then show ?thesis using Suc.IH [OF Suc.prems(1) _ rest] nxt w2 by simp
  qed (use Suc.prems in auto)
qed simp

text \<open>The loop ends as soon as it has reached the last grouped block. When it reaches it at the end of a
  run of the inner loop, that block has not been deleted.\<close>

lemma prune_while_last:
  "Suc grouped < u64_lim \<Longrightarrow> current \<le> grouped \<Longrightarrow> (grouped - current) mod cm_segment_size cs = 0 \<Longrightarrow>
    \<forall>m. current \<le> m \<and> m < grouped \<longrightarrow> \<not> of_block m k \<Longrightarrow>
    objects (snd (prune_while fuel cs grouped current w)) k = objects w k"
proof (induction fuel arbitrary: current w)
  case (Suc fuel)
  show ?case
  proof (cases "current < grouped")
    case True
    then have le: "current + cm_segment_size cs \<le> grouped"
      using Suc.prems(3) by (metis mod_eq_0_iff_dvd dvd_imp_le le_diff_conv2 less_imp_le_nat zero_less_diff add.commute)
    then have mod: "(grouped - (current + cm_segment_size cs)) mod cm_segment_size cs = 0"
      using Suc.prems(3) by (metis diff_diff_left le_diff_conv2 Suc.prems(2) add.commute le_mod_geq)
    obtain r w1 where r: "prune_blocks cs (cm_segment_size cs) grouped current w = (r, w1)" by (meson surj_pair)
    have w1: "objects w1 k = objects w k"
      using prune_blocks_before [OF Suc.prems(1) _ Suc.prems(4), of "cm_segment_size cs" w] le r by simp
    show ?thesis
    proof (cases "\<exists>nxt. r = Ok (Some nxt)")
      case more: True
      then obtain nxt where nxt: "r = Ok (Some nxt)" by blast
      then have "nxt = current + cm_segment_size cs"
        using prune_blocks_reached [of cs "cm_segment_size cs" grouped current w nxt w1] r Suc.prems(1,2) le by simp
      then have "objects (snd (prune_while fuel cs grouped nxt w2)) k = objects w2 k" for w2
        using Suc.IH [of nxt w2, OF Suc.prems(1)] Suc.prems(4) mod le by simp
      moreover obtain p w2 where p: "put_pruned (cm_state cs) (u64_sub nxt 1) w1 = (p, w2)" by (meson surj_pair)
      moreover have "objects w2 = objects w1" using keepsD [OF put_block_at_keeps] p by (simp add: put_pruned_def)
      ultimately show ?thesis using True r nxt w1 by (cases p) (simp_all add: ibind_def ichange_def)
    next
      case False
      then show ?thesis using True r w1 by (cases r) (auto simp: ibind_def split: option.splits)
    qed
  qed simp
qed simp

end

context compaction_env
begin

lemma of_block_key:
  assumes "m < 10 ^ 10" and "cur_number c < 10 ^ 10"
  shows "of_block m (full_key (bs_client (cm_store cs)) (format_block_key hex c)) \<longleftrightarrow> m = cur_number c"
  using block_prefix_iff [OF assms] by (simp add: of_block_def full_key_prefix format_block_key_def)

lemma not_of_block_key:
  "\<not> of_block m (full_key (bs_client (cm_store cs)) (format_segment_key c name))"
  "\<not> of_block m (full_key (bs_client (cm_store cs)) (format_group_key c))"
  by (simp_all add: of_block_def full_key_prefix block_prefix_not_segment block_prefix_not_group)

text \<open>The two reads that start the loop.\<close>

lemma prune_loop_start:
  assumes "get_grouped (cm_state cs) w = (Ok (Some g), w1)"
  shows "(\<exists>p w2. prune_loop fuel cs w = prune_while fuel cs g p w2 \<and> objects w2 = objects w \<and>
      (\<forall>q w3. get_pruned (cm_state cs) w1 = (Ok (Some q), w3) \<longrightarrow> p = q \<and> w2 = w3)) \<or>
    (objects (snd (prune_loop fuel cs w)) = objects w \<and> fst (prune_loop fuel cs w) \<noteq> Ok None \<and> fst (prune_loop fuel cs w) \<noteq> Ok (Some ()))"
proof -
  have w1: "objects w1 = objects w" using keepsD [OF get_block_at_keeps] assms by (simp add: get_grouped_def)
  obtain r w2 where p: "get_pruned (cm_state cs) w1 = (r, w2)" by (meson surj_pair)
  have w2: "objects w2 = objects w" using keepsD [OF get_block_at_keeps] p w1 by (simp add: get_pruned_def)
  show ?thesis
  proof (cases r)
    case (Ok pruned)
    show ?thesis
    proof (cases pruned)
      case (Some q)
      then show ?thesis using assms p Ok w2 by (auto simp: prune_loop_def ibind_def ichange_def)
    next
      case None
      obtain c w3 where g: "with_view cs get_starting_cursor w2 = (c, w3)" by (meson surj_pair)
      have "objects w3 = objects w" using keepsD [OF starting_cursor_keeps g] w2 by simp
      then show ?thesis using assms p Ok None g by (cases c) (auto simp: prune_loop_def ibind_def ichange_def)
    qed
  qed (use assms p w2 in \<open>auto simp: prune_loop_def ibind_def ichange_def\<close>)
qed

lemma prune_while_only:
  assumes "g < 10 ^ 10" and "\<forall>m \<le> g. \<not> of_block m k"
  shows "objects (snd (prune_while fuel cs g p w)) k = objects w k"
proof (cases "p \<le> Suc g")
  case True
  have "Suc g < u64_lim" using assms(1) by (simp add: u64_lim_def)
  then show ?thesis using prune_while_effect [OF _ True] assms(2) by blast
next
  case False
  then show ?thesis by (cases fuel) simp_all
qed

lemma prune_loop_only:
  assumes "get_grouped (cm_state cs) w = (Ok (Some g), w1)" and "g < 10 ^ 10" and "\<forall>m \<le> g. \<not> of_block m k"
  shows "objects (snd (prune_loop fuel cs w)) k = objects w k"
  using prune_loop_start [OF assms(1), of fuel] prune_while_only [OF assms(2,3)] by force

lemma prune_loop_gone:
  assumes "get_grouped (cm_state cs) w = (Ok (Some g), w1)" and "g < 10 ^ 10"
    and "get_pruned (cm_state cs) w1 = (Ok (Some p), w2)" and "prune_loop fuel cs w = (Ok (Some ()), w')"
    and "\<And>w. \<not> cm_cancelled cs w" and "p \<le> m" and "m < g" and "of_block m k"
  shows "objects w' k = None"
proof -
  obtain w3 where "prune_while fuel cs g p w3 = (Ok (Some ()), w')"
    using prune_loop_start [OF assms(1), of fuel] assms(3,4) by auto
  moreover have "Suc g < u64_lim" using assms(2) by (simp add: u64_lim_def)
  ultimately show ?thesis using prune_while_gone [OF assms(5), of g p fuel w3 w' k] assms(6-8) by auto
qed

end

context block_backend
begin

lemma stored_group_read:
  assumes "put_group st first grp w1 = (Ok sv, w2)" and "objects w3 = objects w2" and "get_group st first w3 = (Ok bytes, w4)"
  shows "from_bytes (bs_group_serde st) bytes = Some grp"
proof -
  obtain bs where bs: "to_bytes (bs_group_serde st) grp = Some bs" "holds w2 (format_group_key first) bs"
    using put_group_holds assms(1) by (metis surj_pair)
  then have "holds w3 (format_group_key first) bs" using assms(2) by (simp add: holds_def)
  then have "bytes = bs" using assms(3) by (auto simp: get_group_def outcome_simps dest: read_holds)
  then show ?thesis using group_serde bs(1) by simp
qed

end

section \<open>A reference environment\<close>

text \<open>The services over the reference bucket and the reference etcd.\<close>

definition mem_services ::
  "nat \<Rightarrow> nat \<Rightarrow> mem_world chain_view \<Rightarrow> block list \<Rightarrow> segment_group list \<Rightarrow> segment_serde \<Rightarrow> (mem_world, nat list) compaction" where
  "mem_services sz gsz v blocks groups S = \<lparr>cm_segment_size = sz, cm_group_size = gsz, cm_view = (\<lambda>_. v),
     cm_store = mem_block_store blocks groups, cm_state = mem_state_client, cm_serde = S, cm_roaring = list_roaring,
     cm_hash_order = rev, cm_cancelled = (\<lambda>_. False)\<rparr>"

interpretation memc: compaction_env
  "mem_services sz gsz (mem_view finalized segmented grouped sz gsz start recent) blocks groups (table_segment_serde blocks ix jn hs bd)"
  mw_objects mw_cache
proof -
  let ?cs = "mem_services sz gsz (mem_view finalized segmented grouped sz gsz start recent) blocks groups (table_segment_serde blocks ix jn hs bd)"
  have sel: "cm_store ?cs = mem_block_store blocks groups" "stc_kv (cm_state ?cs) = mem_kv_client"
    "cm_serde ?cs = table_segment_serde blocks ix jn hs bd" "fc_store (cv_canonical (cm_view ?cs w)) = mem_store []" for w
    by (simp_all add: mem_services_def mem_state_client_def mem_view_def chain_view_new_def)
  have "keeps mw_objects (et_get (kvc_client mem_kv_client) k p)" "keeps mw_objects (et_put (kvc_client mem_kv_client) k v)"
    "keeps mw_objects (et_txn (kvc_client mem_kv_client) conds ops)" for k p v conds ops
    by (auto simp: keeps_def mem_kv_client_def mem_etcd_def mem_commit_def mw_objects_def)
  then show "compaction_env ?cs mw_objects mw_cache"
    unfolding compaction_env_def compaction_env_axioms_def sel
    using mem_blocks.block_backend_axioms table_codec.segment_codec_axioms
      mem.reads.chain_reads_axioms by blast
qed

section \<open>Properties\<close>

text \<open>C15: A compacted segment can replace its blocks. When \<open>compact_segment\<close> returns, it has stored the
  fragments of exactly \<open>segment_size\<close> consecutive blocks starting with the given one, before it
  published the number of the last of them; and an access to the segment's files as they are
  then stored reads, at offset \<open>i\<close>, the same index, join, header and body fragments as an access
  to the \<open>i\<close>-th block itself. The chain view may change at any time during the compaction.\<close>

theorem compact_segment_readable:
  assumes "compaction_env cs objects cached"
    and "compact_segment fuel cs first w = (Ok (Some ()), w')" and "blocks_written (cm_store cs) objects B w"
    and "0 < cm_segment_size cs" and "cur_number first + cm_segment_size cs < u64_lim"
    and "fragment_table_ok fns" and "\<And>xs. mset (cm_hash_order cs xs) = mset xs"
    and "\<And>c. \<exists>blk. from_bytes (sd_block (cm_serde cs)) (B c) = Some blk \<and> uniform_fragments fns blk"
  shows "\<exists>cursors w2. map cur_number cursors = [cur_number first..<cur_number first + cm_segment_size cs] \<and> hd cursors = first \<and>
    put_segmented fuel (cm_state cs) (cur_number first + cm_segment_size cs - 1) w2 = (Ok (Some ()), w') \<and>
    (\<forall>sa i fid. (\<forall>(f, name) \<in> set (segment_files fns). \<exists>bytes w3 w4. sa_fragments sa f = Some bytes \<and>
         objects w3 = objects w2 \<and> get_segment (cm_store cs) first name w3 = (Ok bytes, w4)) \<and>
       i < cm_segment_size cs \<and> fid \<in> fst ` set fns \<longrightarrow>
       same_fragments (cm_serde cs) fid (SegmentFA \<lparr>sba_offset = i, sba_segment = sa :: 'c segment_access\<rparr>) (BlockFA (B (cursors ! i))))"
  using compaction_env.compacted_segment_agrees [OF assms] .

text \<open>C16: When \<open>compact_group\<close> returns, the group stored under its first block is the one built from the
  stored index segments of the \<open>group_size\<close> consecutive segments that start there, in order: those of
  the blocks \<open>first\<close>, \<open>first + segment_size\<close>, \<open>first + 2 * segment_size\<close> and so on. The number of
  the last block of the group was published after it was stored.\<close>

theorem compact_group_stored:
  assumes "compaction_env cs objects cached"
    and "compact_group fuel cs first n w = (Ok (Some ()), w')" and "index_written (cm_store cs) objects SB w"
    and "n = cm_group_size cs * cm_segment_size cs" and "0 < n" and "cur_number first + n < u64_lim"
  shows "\<exists>segs grp w2.
    list_all2 (\<lambda>i seg. from_bytes (sd_index (cm_serde cs)) (SB (cur_number first + i * cm_segment_size cs)) = Some seg)
      [0..<cm_group_size cs] segs \<and>
    group_build (cm_roaring cs) (group_of (cm_roaring cs) (cm_segment_size cs) segs) = Ok grp \<and>
    put_grouped fuel (cm_state cs) (cur_number first + n - 1) w2 = (Ok (Some ()), w') \<and>
    (\<forall>bytes w3 w4. objects w3 = objects w2 \<and> get_group (cm_store cs) first w3 = (Ok bytes, w4) \<longrightarrow>
       from_bytes (bs_group_serde (cm_store cs)) bytes = Some grp)"
proof -
  obtain segs grp sv w1 w2 where g: "decodes (cm_serde cs) SB (map (segment_request cs first) [0..<cm_group_size cs]) segs"
    "group_build (cm_roaring cs) (group_of (cm_roaring cs) (cm_segment_size cs) segs) = Ok grp"
    "put_group (cm_store cs) first grp w1 = (Ok sv, w2)"
    "put_grouped fuel (cm_state cs) (u64_sub (u64_add (cur_number first) n) 1) w2 = (Ok (Some ()), w')"
    using compaction_env.compact_group_result [OF assms(1-3)] by blast
  have number: "cur_number (segment_request cs first i) = cur_number first + i * cm_segment_size cs" if "i < cm_group_size cs" for i
    using segment_request_number that assms(4,6) by blast
  have "list_all2 (\<lambda>i seg. from_bytes (sd_index (cm_serde cs)) (SB (cur_number first + i * cm_segment_size cs)) = Some seg)
      [0..<cm_group_size cs] segs"
    using g(1) number by (auto simp: decodes_def list_all2_conv_all_nth)
  moreover have "u64_sub (u64_add (cur_number first) n) 1 = cur_number first + n - 1" using assms(5,6) by (simp add: u64_simps)
  ultimately show ?thesis
    using g block_backend.stored_group_read [OF compaction_env.axioms(1) [OF assms(1)], of first grp w1 sv w2] by metis
qed

text \<open>C14: Pruning deletes only grouped blocks. Whatever the loop returns, when the grouped block read at its
  start is \<open>g\<close>, no block above \<open>g\<close>, no segment and no group has been touched; and when the loop ran to
  its end, every block from the pruned one up to but not including \<open>g\<close> is gone.\<close>

theorem prune_safe:
  assumes "compaction_env cs objects cached" and "get_grouped (cm_state cs) w = (Ok (Some g), w1)"
    and "g < 10 ^ 10" and "prune_loop fuel cs w = (r, w')" and "cur_number c < 10 ^ 10"
  shows "(g < cur_number c \<longrightarrow> objects w' (full_key (bs_client (cm_store cs)) (format_block_key hex c)) =
       objects w (full_key (bs_client (cm_store cs)) (format_block_key hex c))) \<and>
    objects w' (full_key (bs_client (cm_store cs)) (format_segment_key c name)) =
      objects w (full_key (bs_client (cm_store cs)) (format_segment_key c name)) \<and>
    objects w' (full_key (bs_client (cm_store cs)) (format_group_key c)) =
      objects w (full_key (bs_client (cm_store cs)) (format_group_key c)) \<and>
    ((\<forall>w. \<not> cm_cancelled cs w) \<and> r = Ok (Some ()) \<and> get_pruned (cm_state cs) w1 = (Ok (Some p), w2) \<and>
       p \<le> cur_number c \<and> cur_number c < g \<longrightarrow>
       objects w' (full_key (bs_client (cm_store cs)) (format_block_key hex c)) = None)"
proof -
  note env = assms(1) and only = compaction_env.prune_loop_only [OF assms(1-3), of _ fuel]
  have w': "w' = snd (prune_loop fuel cs w)" using assms(4) by simp
  have "\<forall>m \<le> g. \<not> block_backend.of_block (cm_store cs) m (full_key (bs_client (cm_store cs)) (format_block_key hex c))"
    if "g < cur_number c"
    using that compaction_env.of_block_key [OF env _ assms(5)] assms(3) by (metis le_less_trans not_le)
  moreover have "objects w' (full_key (bs_client (cm_store cs)) (format_block_key hex c)) = None"
    if "(\<forall>w. \<not> cm_cancelled cs w) \<and> r = Ok (Some ()) \<and> get_pruned (cm_state cs) w1 = (Ok (Some p), w2) \<and>
       p \<le> cur_number c \<and> cur_number c < g"
    using compaction_env.prune_loop_gone [OF env assms(2,3), of p w2 fuel w' "cur_number c"] that assms(4)
      compaction_env.of_block_key [OF env assms(5,5)] by blast
  ultimately show ?thesis using only compaction_env.not_of_block_key [OF env] unfolding w' by blast
qed

text \<open>C35: The pruning loop ends. With a positive segment size, a number of rounds above the number of the
  grouped block is enough for it to return, however the calls it makes fail.\<close>

theorem prune_terminates:
  assumes "0 < cm_segment_size cs" and "get_grouped (cm_state cs) w = (Ok (Some g), w1)" and "Suc g < u64_lim" and "Suc g < fuel"
  shows "fst (prune_loop fuel cs w) \<noteq> Ok None"
proof -
  have ends: "fst (prune_while fuel cs g p w) \<noteq> Ok None" for p w
  proof (cases "p \<le> Suc g")
    case True
    then show ?thesis using prune_while_fuel [OF assms(1,3), of p fuel w] assms(4) by simp
  next
    case False
    then show ?thesis using assms(4) by (cases fuel) simp_all
  qed
  obtain r w2 where p: "get_pruned (cm_state cs) w1 = (r, w2)" by (meson surj_pair)
  obtain c w3 where c: "with_view cs get_starting_cursor w2 = (c, w3)" by (meson surj_pair)
  show ?thesis
    using ends assms(2) p c by (cases r; cases c) (auto simp: prune_loop_def ibind_def ichange_def split: option.splits)
qed

section \<open>The services on small stores\<close>

lemma mem_etcd_calls:
  "et_get (kvc_client mem_kv_client) k p w = (Ok (case mem_kv w k of None \<Rightarrow> []
     | Some (v, r) \<Rightarrow> [\<lparr>kv_key = string_bytes k, kv_value = v, kv_mod_revision = r\<rparr>]), w)"
  "et_put (kvc_client mem_kv_client) k v w = (Ok (), mem_commit [TxnPut k v] w)"
  "et_txn (kvc_client mem_kv_client) [(k, r)] [TxnPut k v] w =
     (if mem_revision w k = r then (Ok True, mem_commit [TxnPut k v] w) else (Ok False, w))"
  by (simp_all add: mem_kv_client_def mem_etcd_def)

lemma mem_state_kv: "stc_kv mem_state_client = mem_kv_client"
  by (simp add: mem_state_client_def)

lemma mem_state_get_put:
  assumes "n < u64_lim"
  shows "get_block_at mem_state_client key (snd (put_block_at mem_state_client key n w)) =
    (Ok (Some n), snd (put_block_at mem_state_client key n w))"
  using assms by (simp add: get_block_at_def put_block_at_def kv_get_def kv_put_def mem_state_kv mem_etcd_calls mem_kv_put
      ibind_def ichange_def)

definition prune_services :: "(mem_world, nat list) compaction" where
  "prune_services = mem_services 2 2 (mem_view 20 (Some 9) (Some 7) 2 2 4 stored_demo) [] [] (table_segment_serde [] [] [] [] [])"

definition prune_world :: mem_world where
  "prune_world = snd (put_block_at mem_state_client GROUPED_KEY 7 empty_world)"

lemma prune_services_env: "compaction_env prune_services mw_objects mw_cache"
  unfolding prune_services_def by (rule memc.compaction_env_axioms)

lemma prune_world_grouped: "get_grouped (cm_state prune_services) prune_world = (Ok (Some 7), prune_world)"
  using mem_state_get_put [of 7 GROUPED_KEY empty_world]
  by (simp add: get_grouped_def prune_world_def prune_services_def mem_services_def u64_lim_def)

theorem prune_safe_witness:
  "mw_objects (snd (prune_loop 10 prune_services prune_world)) (format_segment_key (mk_cursor 4 (Hash [])) ''index'') =
     mw_objects prune_world (format_segment_key (mk_cursor 4 (Hash [])) ''index'')"
proof -
  have "full_key (bs_client (cm_store prune_services)) k = k" for k
    by (simp add: full_key_def prune_services_def mem_services_def mem_block_store_def object_store_new_def normalize_prefix_def)
  then show ?thesis
    using prune_safe [OF prune_services_env prune_world_grouped _ prod.collapse [symmetric],
        of "mk_cursor 4 (Hash [])" 10 hex_encode "''index''" 0 prune_world]
    by simp
qed

theorem prune_terminates_witness: "fst (prune_loop 10 prune_services prune_world) \<noteq> Ok None"
  using prune_terminates [OF _ prune_world_grouped, of 10]
  by (simp add: prune_services_def mem_services_def u64_lim_def)

text \<open>One block per segment: block 5 of a chain with blocks 5, 6 and 7 is compacted.\<close>

definition single_segment :: "(block \<Rightarrow> 'a) \<Rightarrow> 'a segment" where
  "single_segment f = \<lparr>seg_first_block = demo_cursor 5,
     seg_data = [\<lparr>fd_cursor = demo_cursor 5, fd_data = f (demo_segment_block 1)\<rparr>]\<rparr>"

definition segment_services :: "(mem_world, nat list) compaction" where
  "segment_services = mem_services 1 2 (mem_view 7 None None 1 2 5 (published demo_building)) [demo_segment_block 1] []
     (table_segment_serde [demo_segment_block 1] [single_segment blk_index] [single_segment blk_join]
        [single_segment blk_header] [single_segment (\<lambda>b. blk_body b ! 0)])"

definition segment_world :: mem_world where
  "segment_world = snd (put_block (mem_block_store [demo_segment_block 1] []) (demo_cursor 5) (demo_segment_block 1) empty_world)"

lemma segment_services_next: "next_continue segment_services (demo_cursor 5) w = (Ok (demo_cursor 6), w)"
proof -
  have ok: "building_ok demo_building" using demo_building_ok by simp
  have "reconnect (published demo_building) (demo_cursor 5) = Ok Continue"
    using reconnect_published [OF ok, of "demo_cursor 5"]
    by (simp add: demo_building_def demo_cursor_def is_canonical_def last_number_def first_number_def)
  moreover have "segment_canonical (published demo_building) 6 = Ok (demo_cursor 6)"
    using segment_canonical_published [OF ok, of 6] by (simp add: demo_building_def demo_cursor_def last_number_def first_number_def)
  ultimately have "get_next_cursor (cv_canonical (cm_view segment_services w)) (Some (demo_cursor 5)) w =
      (Ok (NextContinue (demo_cursor 6) False), w)"
    by (simp add: segment_services_def mem_services_def mem_view_def chain_view_new_def get_next_cursor_def
        get_chain_segment_def get_canonical_impl_def ibind_def u64_add_def u64_lim_def)
      (simp add: demo_building_def demo_cursor_def)
  then show ?thesis by (auto simp: next_continue_Ok view_next_cursor_def)
qed

lemma segment_services_sel:
  "cm_segment_size segment_services = 1" "cm_store segment_services = mem_block_store [demo_segment_block 1] []"
  "cm_state segment_services = mem_state_client" "cm_hash_order segment_services = rev"
  "cm_serde segment_services = table_segment_serde [demo_segment_block 1] [single_segment blk_index] [single_segment blk_join]
     [single_segment blk_header] [single_segment (\<lambda>b. blk_body b ! 0)]"
  by (simp_all add: segment_services_def mem_services_def)

lemma segment_world_block:
  "\<exists>v. mw_objects segment_world = [format_block_key hex_encode (demo_cursor 5) \<mapsto> (v, [0] @ put_u32 (crc32 mem_codec [0]))]"
  by (simp add: segment_world_def put_block_def mem_block_store_def object_store_new_def mem_client_def mem_codec_def mem_put_def
        table_serde_def empty_world_def full_key_def ibind_def ichange_def Let_def object_store_put_def put_bytes_def
        normalize_prefix_def mw_objects_def) (rule exI, rule refl)

lemma segment_world_read: "get_block_and_cursor (mem_block_store [demo_segment_block 1] []) (demo_cursor 5) segment_world =
    (Ok (demo_cursor 5, [0]), segment_world)"
  by (simp add: segment_world_def put_block_def get_block_and_cursor_def demo_store_simps)

definition single_builder :: segment_builder where
  "single_builder = \<lparr>sb_expected_fragment_count = Some 1, sb_first_block = Some (demo_cursor 5),
     sb_headers = seg_data (single_segment blk_header), sb_indexes = seg_data (single_segment blk_index),
     sb_joins = seg_data (single_segment blk_join),
     sb_body = [(2, ''transaction'', seg_data (single_segment (\<lambda>b. blk_body b ! 0)))]\<rparr>"

lemma single_builder_built:
  "add_block (cm_serde segment_services) (demo_cursor 5) [0] (default_segment_builder\<lparr>sb_first_block := Some (demo_cursor 5)\<rparr>) = Ok single_builder"
  by (simp add: add_block_def segment_services_sel table_segment_serde_def table_serde_def default_segment_builder_def single_builder_def
      single_segment_def) (simp add: demo_segment_block_def)

definition single_files :: "serialized_segment list" where
  "single_files = map (\<lambda>name. \<lparr>ss_name = name, ss_data = [0]\<rparr>) [INDEX_FRAGMENT_NAME, JOIN_FRAGMENT_NAME, HEADER_FRAGMENT_NAME, ''transaction'']"

lemma single_builder_files:
  "\<exists>b. segment_data (cm_serde segment_services) rev single_builder = Ok (single_files, b)"
proof -
  have seg: "(\<lparr>seg_first_block = demo_cursor 5, seg_data = seg_data (single_segment f)\<rparr> :: 'z segment) = single_segment f" for f
    by (simp add: single_segment_def)
  have len: "length (seg_data (single_segment f)) = 1" for f by (simp add: single_segment_def)
  show ?thesis
    by (simp add: segment_data_def single_builder_def single_files_def serialize_segment_def segment_services_sel
        table_segment_serde_def table_serde_def seg len Let_def)
qed

lemma mem_kv_bucket: "mem_kv (w\<lparr>mw_bucket := b, mw_tick := t\<rparr>) = mem_kv w"
  by (simp add: mem_kv_def fun_eq_iff split: option.split)

lemma mem_put_segment:
  "\<exists>v w'. put_segment (mem_block_store blocks groups) c x w = (Ok v, w') \<and> mem_kv w' = mem_kv w"
  by (simp add: put_segment_def put_bytes_def mem_block_store_def object_store_put_def mem_codec_def object_store_new_def
      mem_client_def mem_put_def Let_def ichange_def mem_kv_bucket)

lemma mem_put_segments: "\<exists>w'. put_segments segment_services c ss w = (Ok (), w') \<and> mem_kv w' = mem_kv w"
proof (induction ss arbitrary: w)
  case (Cons x ss)
  obtain v w1 where "put_segment (cm_store segment_services) c x w = (Ok v, w1)" "mem_kv w1 = mem_kv w"
    using mem_put_segment by (metis segment_services_sel(2))
  then show ?case using Cons [of w1] by (simp add: ibind_def ichange_def)
qed simp

lemma mem_put_segmented:
  "mem_kv w (kv_format_key mem_kv_client SEGMENTED_KEY) = None \<Longrightarrow> \<exists>w'. put_segmented 1 mem_state_client n w = (Ok (Some ()), w')"
  by (simp add: put_segmented_def kv_get_def kv_put_if_mod_revision_def mem_state_kv mem_etcd_calls ibind_def ichange_def Let_def
      mem_revision_def)

lemma single_compaction: "\<exists>w'. compact_segment 1 segment_services (demo_cursor 5) segment_world = (Ok (Some ()), w')"
proof -
  obtain b where files: "segment_data (cm_serde segment_services) rev single_builder = Ok (single_files, b)"
    using single_builder_files by blast
  obtain w1 where w1: "put_segments segment_services (demo_cursor 5) single_files segment_world = (Ok (), w1)"
    "mem_kv w1 = mem_kv segment_world" using mem_put_segments by blast
  have "mem_kv segment_world k = None" for k
    by (simp add: segment_world_def put_block_def demo_store_simps mem_kv_def)
  then obtain w2 where w2: "put_segmented 1 mem_state_client 5 w1 = (Ok (Some ()), w2)" using w1(2) mem_put_segmented by fastforce
  have start: "start_new_segment (demo_cursor 5) default_segment_builder = Ok (default_segment_builder\<lparr>sb_first_block := Some (demo_cursor 5)\<rparr>)"
    by (simp add: start_new_segment_def default_segment_builder_def)
  have "pop_block segment_services [demo_cursor 5] (default_segment_builder\<lparr>sb_first_block := Some (demo_cursor 5)\<rparr>) segment_world =
      (Ok (demo_cursor 5, [], single_builder), segment_world)"
    by (simp add: pop_block_def segment_services_sel(2) segment_world_read single_builder_built ibind_def ichange_def)
  moreover have "block_count single_builder = 1" by (simp add: block_count_def single_builder_def single_segment_def)
  ultimately show ?thesis
    using start files w1(1) w2
    by (simp add: compact_segment_def segment_services_sel(1,3,4) MAX_BUFFERED_BLOCKS_def segment_services_next Let_def
        ibind_def ichange_def demo_cursor_def [of 5, THEN arg_cong [of _ _ cur_number]])
qed

lemma single_blocks_written: "blocks_written (cm_store segment_services) mw_objects (\<lambda>_. [0]) segment_world"
proof -
  obtain v where "mw_objects segment_world = [format_block_key hex_encode (demo_cursor 5) \<mapsto> (v, [0] @ put_u32 (crc32 mem_codec [0]))]"
    using segment_world_block by blast
  then show ?thesis
    by (auto simp: blocks_written_def segment_services_sel(2) mem_block_store_def written_as_def mem_codec_def split: if_splits)
qed

theorem compact_segment_readable_witness:
  "\<exists>w' w2. compact_segment 1 segment_services (demo_cursor 5) segment_world = (Ok (Some ()), w') \<and>
     put_segmented 1 mem_state_client 5 w2 = (Ok (Some ()), w')"
proof -
  obtain w' where run: "compact_segment 1 segment_services (demo_cursor 5) segment_world = (Ok (Some ()), w')"
    using single_compaction by blast
  have env: "compaction_env segment_services mw_objects mw_cache"
    unfolding segment_services_def by (rule memc.compaction_env_axioms)
  have "fragment_table_ok [(2, ''transaction'')]" by (simp add: fragment_table_ok_def fragment_names)
  moreover have "\<exists>blk. from_bytes (sd_block (cm_serde segment_services)) [0] = Some blk \<and> uniform_fragments [(2, ''transaction'')] blk"
    by (simp add: segment_services_sel(5) table_segment_serde_def table_serde_def uniform_fragments_def demo_segment_block_def)
  moreover have "mset (cm_hash_order segment_services xs) = mset xs" for xs by (simp add: segment_services_sel(4))
  ultimately show ?thesis
    using compact_segment_readable [OF env run single_blocks_written, of "[(2, ''transaction'')]"] run
    by (auto simp: segment_services_sel(1,3) u64_lim_def demo_cursor_def)
qed

text \<open>A group of two segments of one block each, of the blocks 5 and 6.\<close>

definition index_segment :: "nat \<Rightarrow> index_group_fragment segment" where
  "index_segment n = \<lparr>seg_first_block = demo_cursor n, seg_data = [\<lparr>fd_cursor = demo_cursor n, fd_data = blk_index (demo_segment_block 1)\<rparr>]\<rparr>"

definition pair_group :: segment_group where
  "pair_group = \<lparr>sg_first_block = demo_cursor 5, sg_index = \<lparr>igf_indexes =
     [\<lparr>ixf_fragment_id = 2, ixf_range_start = 5, ixf_range_len = 2, ixf_indexes = []\<rparr>]\<rparr>\<rparr>"

definition group_services :: "(mem_world, nat list) compaction" where
  "group_services = mem_services 1 2 (mem_view 7 (Some 6) None 1 2 5 (published demo_building)) [] [pair_group]
     (table_segment_serde [] [index_segment 5, index_segment 6] [] [] [])"

definition group_world :: mem_world where
  "group_world = snd (put_segment (mem_block_store [] [pair_group]) (demo_cursor 6) \<lparr>ss_name = ''index'', ss_data = [1]\<rparr>
     (snd (put_segment (mem_block_store [] [pair_group]) (demo_cursor 5) \<lparr>ss_name = ''index'', ss_data = [0]\<rparr> empty_world)))"

lemma group_services_sel:
  "cm_segment_size group_services = 1" "cm_group_size group_services = 2" "cm_store group_services = mem_block_store [] [pair_group]"
  "cm_state group_services = mem_state_client" "cm_roaring group_services = list_roaring"
  "cm_serde group_services = table_segment_serde [] [index_segment 5, index_segment 6] [] [] []"
  by (simp_all add: group_services_def mem_services_def)

lemma pair_group_built: "group_build list_roaring (group_of list_roaring 1 [index_segment 5, index_segment 6]) = Ok pair_group"
  by (simp add: group_build_def group_of_def group_builder_new_def add_segment_def add_block_data_def add_index_fragment_def
      index_segment_def demo_segment_block_def pair_group_def bt_entry_def bt_get_or_def bt_get_def
      u64_add_def u64_sub_def u64_lim_def as_u32_def u32_lim_def demo_cursor_def)

lemma index_key_number:
  "format_segment_key c ''index'' = format_segment_key (demo_cursor n) ''index'' \<longleftrightarrow> cur_number c = n"
  by (simp add: format_segment_key_def demo_cursor_def)

lemma group_world_index:
  "\<exists>u v. mw_objects group_world = [format_segment_key (demo_cursor 5) ''index'' \<mapsto> (u, [0] @ put_u32 (crc32 mem_codec [0])),
     format_segment_key (demo_cursor 6) ''index'' \<mapsto> (v, [1] @ put_u32 (crc32 mem_codec [1]))]"
  by (simp add: group_world_def put_segment_def mem_block_store_def object_store_new_def mem_client_def mem_codec_def mem_put_def
        empty_world_def full_key_def ibind_def ichange_def Let_def object_store_put_def put_bytes_def
        normalize_prefix_def mw_objects_def) blast

lemma group_world_read:
  "get_segment (mem_block_store [] [pair_group]) (new_finalized 5) ''index'' group_world = (Ok [0], group_world)"
  "get_segment (mem_block_store [] [pair_group]) (new_finalized 6) ''index'' group_world = (Ok [1], group_world)"
  by (simp_all add: group_world_def put_segment_def get_segment_def demo_store_simps format_segment_key_def demo_cursor_def new_finalized_def)

lemma pair_group_compaction: "\<exists>w'. compact_group 1 group_services (demo_cursor 5) 2 group_world = (Ok (Some ()), w')"
proof -
  have req: "segment_request group_services (demo_cursor 5) 0 = new_finalized 5" "segment_request group_services (demo_cursor 5) (Suc 0) = new_finalized 6"
    by (simp_all add: segment_request_def group_services_sel(1) demo_cursor_def u64_add_def u64_mul_def u64_lim_def)
  have num: "cur_number (demo_cursor 5) = 5" by (simp add: demo_cursor_def)
  have pop: "pop_segment group_services [new_finalized 5, new_finalized 6] (group_builder_new 1) group_world =
      (Ok ([new_finalized 6], group_of list_roaring 1 [index_segment 5]), group_world)"
    "pop_segment group_services [new_finalized 6] (group_of list_roaring 1 [index_segment 5]) group_world =
      (Ok ([], group_of list_roaring 1 [index_segment 5, index_segment 6]), group_world)"
    using group_world_read by (simp_all add: pop_segment_def get_index_segment_and_cursor_def group_services_sel ibind_def ichange_def
        table_segment_serde_def table_serde_def group_of_def)
  have count: "gb_segment_count (group_of list_roaring 1 [index_segment 5, index_segment 6]) = 2" by (simp add: group_of_count)
  obtain sv w1 where put: "put_group (mem_block_store [] [pair_group]) (demo_cursor 5) pair_group group_world = (Ok sv, w1)"
    and kv: "mem_kv w1 = mem_kv group_world"
    by (simp add: put_group_def put_bytes_def mem_block_store_def object_store_put_def mem_codec_def object_store_new_def
      mem_client_def mem_put_def Let_def ichange_def mem_kv_bucket table_serde_def ibind_def)
  have "mem_kv group_world k = None" for k
    by (simp add: group_world_def put_segment_def demo_store_simps mem_kv_def)
  then have "mem_kv w1 (kv_format_key mem_kv_client GROUPED_KEY) = None" using kv by simp
  then obtain w2 where "put_grouped 1 mem_state_client 6 w1 = (Ok (Some ()), w2)"
    by (simp add: put_grouped_def kv_get_def kv_put_if_mod_revision_def mem_state_kv mem_etcd_calls ibind_def ichange_def Let_def
      mem_revision_def)
  moreover have "[0..<min 2 128] = [0, 1 :: nat]" "drain_segments group_services (min 2 128) = drain_segments group_services (Suc (Suc 0))"
    by (simp_all add: upt_rec numeral_2_eq_2)
  ultimately show ?thesis
    using pop count put pair_group_built
    by (simp add: compact_group_def group_services_sel MAX_BUFFERED_SEGMENTS_def Let_def ibind_def ichange_def req
        u64_sub_def u64_add_def u64_lim_def num)
qed

theorem compact_group_stored_witness:
  "\<exists>w' w2. compact_group 1 group_services (demo_cursor 5) 2 group_world = (Ok (Some ()), w') \<and>
     put_grouped 1 mem_state_client 6 w2 = (Ok (Some ()), w') \<and>
     (\<forall>bytes w3 w4. mw_objects w3 = mw_objects w2 \<and> get_group (mem_block_store [] [pair_group]) (demo_cursor 5) w3 = (Ok bytes, w4) \<longrightarrow>
       from_bytes (bs_group_serde (mem_block_store [] [pair_group])) bytes = Some pair_group)"
proof -
  obtain w' where run: "compact_group 1 group_services (demo_cursor 5) 2 group_world = (Ok (Some ()), w')"
    using pair_group_compaction by blast
  have env: "compaction_env group_services mw_objects mw_cache"
    unfolding group_services_def by (rule memc.compaction_env_axioms)
  obtain u v where "mw_objects group_world = [format_segment_key (demo_cursor 5) ''index'' \<mapsto> (u, [0] @ put_u32 (crc32 mem_codec [0])),
     format_segment_key (demo_cursor 6) ''index'' \<mapsto> (v, [1] @ put_u32 (crc32 mem_codec [1]))]"
    using group_world_index by blast
  then have index: "index_written (cm_store group_services) mw_objects (\<lambda>n. if n = 5 then [0] else [1]) group_world"
    by (auto simp: index_written_def group_services_sel(3) mem_block_store_def written_as_def mem_codec_def full_key_def object_store_new_def
        normalize_prefix_def index_key_number split: if_splits)
  have num: "cur_number (demo_cursor 5) = 5" by (simp add: demo_cursor_def)
  obtain segs grp w2 where r: "list_all2 (\<lambda>i seg. from_bytes (sd_index (cm_serde group_services)) (if 5 + i * 1 = (5 :: nat) then [0] else [1]) = Some seg) [0..<2] segs"
    "group_build list_roaring (group_of list_roaring 1 segs) = Ok grp"
    "put_grouped 1 mem_state_client (5 + 2 - 1) w2 = (Ok (Some ()), w')"
    "\<forall>bytes w3 w4. mw_objects w3 = mw_objects w2 \<and> get_group (mem_block_store [] [pair_group]) (demo_cursor 5) w3 = (Ok bytes, w4) \<longrightarrow>
       from_bytes (bs_group_serde (mem_block_store [] [pair_group])) bytes = Some grp"
    using compact_group_stored [OF env run index] unfolding group_services_sel num by (auto simp: u64_lim_def)
  have "segs = [index_segment 5, index_segment 6]"
    using r(1) by (auto simp: list_all2_Cons1 upt_rec group_services_sel(6) table_segment_serde_def table_serde_def)
  then have "grp = pair_group" using r(2) pair_group_built by simp
  then show ?thesis using run r(3,4) by auto
qed

text \<open>C36: The last grouped block can survive pruning. The outer loop stops when it has reached the grouped
  block, although the inner loop deletes it if it gets there: when the number of blocks between the
  pruned and the grouped one is a multiple of the segment size, the grouped block is not deleted,
  whatever the loop returns.\<close>

theorem prune_keeps_last:
  assumes "compaction_env cs objects cached" and "get_grouped (cm_state cs) w = (Ok (Some g), w1)"
    and "get_pruned (cm_state cs) w1 = (Ok (Some p), w2)" and "g < 10 ^ 10" and "p \<le> g"
    and "(g - p) mod cm_segment_size cs = 0" and "prune_loop fuel cs w = (r, w')" and "cur_number c = g"
  shows "objects w' (full_key (bs_client (cm_store cs)) (format_block_key hex c)) =
    objects w (full_key (bs_client (cm_store cs)) (format_block_key hex c))"
proof -
  let ?k = "full_key (bs_client (cm_store cs)) (format_block_key hex c)"
  have "\<forall>m. p \<le> m \<and> m < g \<longrightarrow> \<not> block_backend.of_block (cm_store cs) m ?k"
    using compaction_env.of_block_key [OF assms(1), of _ c] assms(4,8) by auto
  moreover have "Suc g < u64_lim" using assms(4) by (simp add: u64_lim_def)
  ultimately have "objects (snd (prune_while fuel cs g p w3)) ?k = objects w3 ?k" for w3
    using compaction_env.prune_while_last [OF assms(1) _ assms(5,6)] by blast
  moreover have "w' = snd (prune_loop fuel cs w)" using assms(7) by simp
  ultimately show ?thesis using compaction_env.prune_loop_start [OF assms(1,2), of fuel] assms(3) by auto
qed

definition full_prune_world :: mem_world where
  "full_prune_world = snd (put_block_at mem_state_client PRUNED_KEY 3 prune_world)"

theorem prune_keeps_last_witness:
  "mw_objects (snd (prune_loop 10 prune_services full_prune_world)) (format_block_key hex_encode (demo_cursor 7)) =
     mw_objects full_prune_world (format_block_key hex_encode (demo_cursor 7))"
proof -
  have st: "cm_state prune_services = mem_state_client" by (simp add: prune_services_def mem_services_def)
  have "get_pruned (cm_state prune_services) full_prune_world = (Ok (Some 3), full_prune_world)"
    using mem_state_get_put [of 3 PRUNED_KEY prune_world] by (simp add: get_pruned_def st full_prune_world_def u64_lim_def)
  moreover have "get_grouped (cm_state prune_services) full_prune_world = (Ok (Some 7), full_prune_world)"
    by (simp add: get_grouped_def st full_prune_world_def prune_world_def get_block_at_def put_block_at_def kv_get_def kv_put_def
        mem_state_kv mem_etcd_calls mem_kv_put ibind_def ichange_def)
      (simp add: kv_format_key_def mem_kv_client_def state_keys u64_lim_def)
  moreover have "full_key (bs_client (cm_store prune_services)) k = k" for k
    by (simp add: full_key_def prune_services_def mem_services_def mem_block_store_def object_store_new_def normalize_prefix_def)
  moreover have "(7 - 3) mod cm_segment_size prune_services = (0 :: nat)" by (simp add: prune_services_def mem_services_def)
  ultimately show ?thesis
    using prune_keeps_last [OF prune_services_env _ _ _ _ _ prod.collapse [symmetric],
        of full_prune_world 7 full_prune_world 3 full_prune_world "demo_cursor 7" 10 hex_encode]
    by (simp add: demo_cursor_def)
qed

end
