(* ===== verification/SegmentStream.thy ===== *)
theory SegmentStream
  imports ChainView SegmentGroups "HOL-Library.AList"
begin

text \<open>
  The producer of segments for a client stream: \<open>common/src/data_stream/segment_stream.rs\<close>, with the
  pending fetches of \<open>common/src/data_stream/segment_access.rs\<close>. Groups are filtered by their index and
  only the segments with selected blocks are requested; the segments after the last group are
  requested whole. The channel is the list of what was sent; whether the receiver is gone and
  whether the stream is cancelled are read from the outside state. The main result is that no
  block a filter selects is left out.
\<close>

section \<open>Pending fetches\<close>

datatype data_stream_error = DataStreamError

text \<open>The files of a segment that are to be read, by fragment id.\<close>

record 'b segment_access_fetch =
  saf_first_block :: nat
  saf_blocks :: 'b
  saf_fragments :: "(fragment_id \<times> cursor \<times> string) list"

definition segment_access_fetch_new :: "nat \<Rightarrow> 'b \<Rightarrow> 'b segment_access_fetch" where
  "segment_access_fetch_new first blocks = \<lparr>saf_first_block = first, saf_blocks = blocks, saf_fragments = []\<rparr>"

definition insert_fragment :: "fragment_id \<Rightarrow> cursor \<times> string \<Rightarrow> 'b segment_access_fetch \<Rightarrow> 'b segment_access_fetch" where
  "insert_fragment fid request f =
     f\<lparr>saf_fragments := AList.update fid request (saf_fragments f)\<rparr>"

fun wait_fragments ::
  "'w block_store \<Rightarrow> (fragment_id \<times> cursor \<times> string) list \<Rightarrow> (fragment_id \<rightharpoonup> bytes)
    \<Rightarrow> ('w, fragment_id \<rightharpoonup> bytes, fragment_access_error) io" where
  "wait_fragments st [] files = ireturn files"
| "wait_fragments st ((fid, c, name) # requests) files =
     ibind (ichange (\<lambda>_. FragmentAccessError) (reader_get_segment st c name)) (\<lambda>file.
     wait_fragments st requests (files(fid \<mapsto> file)))"

definition fetch_wait ::
  "'w block_store \<Rightarrow> 'b segment_access_fetch \<Rightarrow> ('w, 'b segment_access, fragment_access_error) io" where
  "fetch_wait st f =
     ibind (wait_fragments st (saf_fragments f) Map.empty) (\<lambda>files.
     ireturn \<lparr>sa_first_block = saf_first_block f, sa_blocks = saf_blocks f, sa_fragments = files\<rparr>)"

section \<open>The stream\<close>

text \<open>\<open>sst_hash_order\<close> is the iteration order of the hash set of fragment ids.\<close>

record ('w, 'b) segment_stream =
  sst_block_filter :: "block_filter list"
  sst_fragment_id_to_name :: "fragment_id \<rightharpoonup> string"
  sst_store :: "'w block_store"
  sst_view :: "'w \<Rightarrow> 'w chain_view"
  sst_roaring :: "'b roaring"
  sst_hash_order :: "fragment_id set \<Rightarrow> fragment_id list"
  sst_closed :: "'w \<Rightarrow> bool"
  sst_cancelled :: "'w \<Rightarrow> bool"

type_synonym ('w, 'b, 'a) stream_io = "('w \<times> 'b segment_access_fetch list, 'a, data_stream_error) io"

text \<open>\<open>tx.send\<close>: \<open>False\<close> when the receiver is gone.\<close>

definition tx_send :: "('w, 'b) segment_stream \<Rightarrow> 'b segment_access_fetch \<Rightarrow> ('w, 'b, bool) stream_io" where
  "tx_send s f = (\<lambda>(w, out). if sst_closed s w then (Ok False, (w, out)) else (Ok True, (w, out @ [f])))"

definition stream_view ::
  "('w, 'b) segment_stream \<Rightarrow> ('w chain_view \<Rightarrow> ('w, 'a, chain_view_error) io) \<Rightarrow> ('w, 'b, 'a) stream_io" where
  "stream_view s f = ichange (\<lambda>_. DataStreamError) (on_world (\<lambda>w. f (sst_view s w) w))"

definition GROUP_QUEUE_SIZE :: nat where "GROUP_QUEUE_SIZE = 4"

text \<open>The inner loop that fills the queue of group requests, which are run when they are awaited.\<close>

fun fill_queue :: "nat \<Rightarrow> nat \<Rightarrow> nat \<Rightarrow> nat \<Rightarrow> nat list \<Rightarrow> nat \<times> nat list" where
  "fill_queue 0 step grouped next_group queue = (next_group, queue)"
| "fill_queue (Suc n) step grouped next_group queue =
     (if next_group \<le> grouped then fill_queue n step grouped (u64_add next_group step) (queue @ [next_group])
      else (next_group, queue))"

definition pop_group ::
  "('w, 'b) segment_stream \<Rightarrow> nat \<Rightarrow> nat \<Rightarrow> nat \<Rightarrow> nat \<Rightarrow> nat list \<Rightarrow> ('w, 'b, nat \<times> nat list \<times> bytes) stream_io" where
  "pop_group s step grouped current next_group queue =
     (case fill_queue (GROUP_QUEUE_SIZE - length queue) step grouped next_group queue of
        (next_group, []) \<Rightarrow> ierr DataStreamError
      | (next_group, fetched # queue) \<Rightarrow>
          ibind (ichange (\<lambda>_. DataStreamError) (on_world (reader_get_group (sst_store s) (new_finalized fetched)))) (\<lambda>bytes.
          if new_finalized current \<noteq> new_finalized fetched then ierr DataStreamError
          else ireturn (next_group, queue, bytes)))"

text \<open>The blocks with data and the fragments that are needed for them.\<close>

fun group_filters ::
  "'b roaring \<Rightarrow> index_fragment \<Rightarrow> fragment_id \<Rightarrow> block_item_filter list \<Rightarrow> 'b \<times> fragment_id set
    \<Rightarrow> ('b \<times> fragment_id set, data_stream_error) outcome" where
  "group_filters R indexes fid [] (data, needed) = Ok (data, needed)"
| "group_filters R indexes fid (flt # flts) (data, needed) =
     obind (map_err (\<lambda>_. DataStreamError) (filter_rows R flt indexes)) (\<lambda>rows.
     if rb_iter R rows = [] then group_filters R indexes fid flts (data, needed)
     else group_filters R indexes fid flts (rb_or R data rows, insert fid needed \<union> set (flt_joins flt)))"

fun group_fragments ::
  "'b roaring \<Rightarrow> index_group_fragment \<Rightarrow> (fragment_id \<times> block_item_filter list) list \<Rightarrow> 'b \<times> fragment_id set
    \<Rightarrow> ('b \<times> fragment_id set, data_stream_error) outcome" where
  "group_fragments R grp [] acc = Ok acc"
| "group_fragments R grp ((fid, flts) # fs) acc =
     obind (map_err (\<lambda>_. DataStreamError) (find_fragment ixf_fragment_id fid (igf_indexes grp))) (\<lambda>indexes.
     obind (group_filters R indexes fid flts acc) (\<lambda>acc. group_fragments R grp fs acc))"

fun group_block_filters ::
  "'b roaring \<Rightarrow> index_group_fragment \<Rightarrow> nat \<Rightarrow> nat \<Rightarrow> block_filter list \<Rightarrow> 'b \<times> fragment_id set
    \<Rightarrow> ('b \<times> fragment_id set, data_stream_error) outcome" where
  "group_block_filters R grp current blocks [] acc = Ok acc"
| "group_block_filters R grp current blocks (bf # bfs) (data, needed) =
     (let data = (if always_include_header bf
                  then rb_or R data (rb_from_range R (as_u32 current) (as_u32 (u64_add current blocks)))
                  else data)
      in obind (group_fragments R grp (blf_filters bf) (data, needed)) (\<lambda>acc.
         group_block_filters R grp current blocks bfs acc))"

definition initial_fragments :: "block_filter list \<Rightarrow> fragment_id set" where
  "initial_fragments bfs = (if bfs = [] then {HEADER_FRAGMENT_ID}
     else {INDEX_FRAGMENT_ID, JOIN_FRAGMENT_ID, HEADER_FRAGMENT_ID})"

fun request_fragments ::
  "('w, 'b) segment_stream \<Rightarrow> cursor \<Rightarrow> fragment_id list \<Rightarrow> 'b segment_access_fetch
    \<Rightarrow> ('b segment_access_fetch, data_stream_error) outcome" where
  "request_fragments s c [] f = Ok f"
| "request_fragments s c (fid # fids) f =
     (case sst_fragment_id_to_name s fid of
        None \<Rightarrow> Err DataStreamError
      | Some name \<Rightarrow> request_fragments s c fids (insert_fragment fid (c, name) f))"

text \<open>The loop over the segments of a group. \<open>True\<close> is a channel that is still open.\<close>

fun send_segments ::
  "('w, 'b) segment_stream \<Rightarrow> nat \<Rightarrow> nat \<Rightarrow> nat list \<Rightarrow> 'b \<Rightarrow> fragment_id set \<Rightarrow> ('w, 'b, bool) stream_io" where
  "send_segments s sz current [] data needed = ireturn True"
| "send_segments s sz current (offset # offsets) data needed =
     (let segment_start = u64_add current (u64_mul offset sz);
          range = rb_and (sst_roaring s)
            (rb_from_range (sst_roaring s) (as_u32 segment_start) (as_u32 (u64_add segment_start sz))) data
      in if rb_iter (sst_roaring s) range = [] then send_segments s sz current offsets data needed
         else
           ibind (ilift (request_fragments s (new_finalized segment_start) (sst_hash_order s needed)
                    (segment_access_fetch_new segment_start range))) (\<lambda>fetch.
           ibind (tx_send s fetch) (\<lambda>sent.
           if sent then send_segments s sz current offsets data needed else ireturn False)))"

definition send_group ::
  "('w, 'b) segment_stream \<Rightarrow> nat \<Rightarrow> nat \<Rightarrow> nat \<Rightarrow> bytes \<Rightarrow> ('w, 'b, bool) stream_io" where
  "send_group s gsz sz current bytes =
     ibind (ilift (map_err (\<lambda>_. DataStreamError) (access_unchecked (bs_group_serde (sst_store s)) bytes))) (\<lambda>grp.
     ibind (ilift (group_block_filters (sst_roaring s) (sg_index grp) current (u64_mul gsz sz) (sst_block_filter s)
              (rb_empty (sst_roaring s), initial_fragments (sst_block_filter s)))) (\<lambda>(data, needed).
     send_segments s sz current [0..<gsz] data needed))"

text \<open>The grouped cursor is read again when it is the next block.\<close>

definition refresh_grouped :: "('w, 'b) segment_stream \<Rightarrow> nat \<Rightarrow> nat \<Rightarrow> ('w, 'b, nat option) stream_io" where
  "refresh_grouped s grouped current =
     (if grouped = current
      then ibind (stream_view s get_grouped_cursor) (\<lambda>c. ireturn (map_option cur_number c))
      else ireturn (Some grouped))"

text \<open>How a loop ends: at its bound, with the first block that is not covered; by the returns on
  cancellation, on a closed channel and on a missing cursor; or out of fuel.\<close>

datatype progress = Reached nat | Stopped | OutOfFuel

fun stream_groups ::
  "nat \<Rightarrow> ('w, 'b) segment_stream \<Rightarrow> nat \<Rightarrow> nat \<Rightarrow> nat \<Rightarrow> nat \<Rightarrow> nat \<Rightarrow> nat list \<Rightarrow> ('w, 'b, progress) stream_io" where
  "stream_groups 0 s gsz sz grouped current next_group queue = ireturn OutOfFuel"
| "stream_groups (Suc fuel) s gsz sz grouped current next_group queue =
     (if current \<le> grouped then (\<lambda>wo.
        if sst_cancelled s (fst wo) then (Ok Stopped, wo)
        else
          ibind (pop_group s (u64_mul gsz sz) grouped current next_group queue) (\<lambda>(next_group, queue, bytes).
          ibind (send_group s gsz sz current bytes) (\<lambda>sent.
          if \<not> sent then ireturn Stopped
          else
            let current = u64_add current (u64_mul sz gsz) in
            ibind (refresh_grouped s grouped current) (\<lambda>new_grouped.
            case new_grouped of
              None \<Rightarrow> ireturn Stopped
            | Some grouped \<Rightarrow> stream_groups fuel s gsz sz grouped current next_group queue))) wo)
      else ireturn (Reached current))"

definition all_needed :: "block_filter list \<Rightarrow> fragment_id set" where
  "all_needed bfs = foldl (\<lambda>ids bf. ids \<union> all_fragment_ids bf)
     {INDEX_FRAGMENT_ID, JOIN_FRAGMENT_ID, HEADER_FRAGMENT_ID} bfs"

fun stream_segments ::
  "nat \<Rightarrow> ('w, 'b) segment_stream \<Rightarrow> nat \<Rightarrow> nat \<Rightarrow> nat \<Rightarrow> ('w, 'b, progress) stream_io" where
  "stream_segments 0 s sz segmented current = ireturn OutOfFuel"
| "stream_segments (Suc fuel) s sz segmented current =
     (if current \<le> segmented then (\<lambda>wo.
        if sst_cancelled s (fst wo) then (Ok Stopped, wo)
        else
          let range = rb_from_range (sst_roaring s) (as_u32 current) (as_u32 (u64_add current sz)) in
          ibind (ilift (request_fragments s (new_finalized current) (sst_hash_order s (all_needed (sst_block_filter s)))
                   (segment_access_fetch_new current range))) (\<lambda>fetch.
          ibind (tx_send s fetch) (\<lambda>sent.
          if sent then stream_segments fuel s sz segmented (u64_add current sz) else ireturn Stopped)) wo)
      else ireturn (Reached current))"

definition segment_stream_start ::
  "nat \<Rightarrow> ('w, 'b) segment_stream \<Rightarrow> cursor \<Rightarrow> ('w, 'b, progress) stream_io" where
  "segment_stream_start fuel s starting_cursor = (\<lambda>wo.
     let gsz = cv_group_size (sst_view s (fst wo)); sz = cv_segment_size (sst_view s (fst wo)) in
     ibind (stream_view s (\<lambda>v. ilift (get_group_start_block v (cur_number starting_cursor)))) (\<lambda>current.
     ibind (stream_view s get_grouped_cursor) (\<lambda>grouped.
     ibind (case grouped of
              None \<Rightarrow> ireturn (Reached current)
            | Some g \<Rightarrow> stream_groups fuel s gsz sz (cur_number g) current current []) (\<lambda>p.
     case p of
       Reached current \<Rightarrow>
         ibind (stream_view s get_segmented_cursor) (\<lambda>segmented.
         case segmented of
           None \<Rightarrow> ireturn (Reached current)
         | Some c \<Rightarrow> stream_segments fuel s sz (cur_number c) current)
     | _ \<Rightarrow> ireturn p))) wo)"

section \<open>Fetches in order\<close>

definition fetched_blocks :: "'b roaring \<Rightarrow> 'b segment_access_fetch list \<Rightarrow> nat list" where
  "fetched_blocks R fs = concat (map (\<lambda>f. rb_iter R (saf_blocks f)) fs)"

text \<open>\<open>fetch_run R sz lo hi fs\<close>: the fetches have blocks of \<open>lo..<hi\<close> in ascending order, each of them
  of one segment.\<close>

definition fetch_run :: "'b roaring \<Rightarrow> nat \<Rightarrow> nat \<Rightarrow> nat \<Rightarrow> 'b segment_access_fetch list \<Rightarrow> bool" where
  "fetch_run R sz lo hi fs \<longleftrightarrow> sorted_wrt (<) (fetched_blocks R fs) \<and> set (fetched_blocks R fs) \<subseteq> {lo..<hi} \<and>
     (\<forall>f \<in> set fs. set (rb_iter R (saf_blocks f)) \<subseteq> {saf_first_block f..<saf_first_block f + sz})"

lemma fetched_blocks_simps [simp]:
  "fetched_blocks R [] = []" "fetched_blocks R (f # fs) = rb_iter R (saf_blocks f) @ fetched_blocks R fs"
  "fetched_blocks R (fs @ gs) = fetched_blocks R fs @ fetched_blocks R gs"
  by (simp_all add: fetched_blocks_def)

lemma fetch_run_Nil [simp]: "fetch_run R sz lo hi []"
  by (simp add: fetch_run_def)

lemma fetch_run_append:
  assumes "fetch_run R sz lo mid fs" and "fetch_run R sz mid hi gs" and "lo \<le> mid" and "mid \<le> hi"
  shows "fetch_run R sz lo hi (fs @ gs)"
proof -
  have "a < b" if "a \<in> set (fetched_blocks R fs)" "b \<in> set (fetched_blocks R gs)" for a b
    using that assms(1,2) by (fastforce simp: fetch_run_def)
  then show ?thesis
    using assms by (fastforce simp: fetch_run_def sorted_wrt_append)
qed

lemma fetch_run_weaken: "fetch_run R sz lo' hi' fs \<Longrightarrow> lo \<le> lo' \<Longrightarrow> hi' \<le> hi \<Longrightarrow> fetch_run R sz lo hi fs"
  by (fastforce simp: fetch_run_def)

lemma fetch_run_single:
  assumes "roaring_bitmap R" and "set (rb_iter R (saf_blocks f)) \<subseteq> {saf_first_block f..<saf_first_block f + sz}"
  shows "fetch_run R sz (saf_first_block f) (saf_first_block f + sz) [f]"
  using assms roaring_bitmap.iter_sorted by (simp add: fetch_run_def)

text \<open>What a fetch asks for: once for each fragment, and the file of each needed fragment, of the fetch's segment.\<close>

definition requests :: "('w, 'b) segment_stream \<Rightarrow> fragment_id set \<Rightarrow> 'b segment_access_fetch \<Rightarrow> bool" where
  "requests s needed f \<longleftrightarrow> distinct (map fst (saf_fragments f)) \<and> (\<forall>fid \<in> needed. \<exists>name. sst_fragment_id_to_name s fid = Some name \<and>
     map_of (saf_fragments f) fid = Some (new_finalized (saf_first_block f), name))"

lemma requests_mono: "requests s needed f \<Longrightarrow> ids \<subseteq> needed \<Longrightarrow> requests s ids f"
  by (auto simp: requests_def)

lemma request_fragments_spec:
  assumes "request_fragments s c fids f = Ok f'"
  shows "saf_first_block f' = saf_first_block f \<and> saf_blocks f' = saf_blocks f \<and>
    (distinct (map fst (saf_fragments f)) \<longrightarrow> distinct (map fst (saf_fragments f'))) \<and>
    (\<forall>fid \<in> set fids. \<exists>name. sst_fragment_id_to_name s fid = Some name \<and> map_of (saf_fragments f') fid = Some (c, name)) \<and>
    (\<forall>fid. fid \<notin> set fids \<longrightarrow> map_of (saf_fragments f') fid = map_of (saf_fragments f) fid)"
  using assms
proof (induction fids arbitrary: f)
  case (Cons fid fids)
  then obtain name where name: "sst_fragment_id_to_name s fid = Some name"
    and rest: "request_fragments s c fids (insert_fragment fid (c, name) f) = Ok f'"
    by (auto split: option.splits)
  show ?case
    using Cons.IH [OF rest] name by (cases "fid \<in> set fids") (auto simp: insert_fragment_def update_conv distinct_update)
qed simp

lemma request_new:
  assumes "request_fragments s (new_finalized first) fids (segment_access_fetch_new first blocks) = Ok f"
  shows "saf_first_block f = first" and "saf_blocks f = blocks" and "requests s (set fids) f"
  using request_fragments_spec [OF assms] by (simp_all add: segment_access_fetch_new_def requests_def del: map_of_eq_Some_iff)

section \<open>What a group selects\<close>

definition rows_of :: "'b roaring \<Rightarrow> block_item_filter \<Rightarrow> index_fragment \<Rightarrow> nat set" where
  "rows_of R flt ixs = (case filter_rows R flt ixs of Ok rows \<Rightarrow> set (rb_iter R rows) | _ \<Rightarrow> {})"

text \<open>The blocks a filter of a fragment selects in a group index.\<close>

definition filter_blocks :: "'b roaring \<Rightarrow> index_group_fragment \<Rightarrow> fragment_id \<Rightarrow> block_item_filter \<Rightarrow> nat set" where
  "filter_blocks R grp fid flt =
     (case find_fragment ixf_fragment_id fid (igf_indexes grp) of Ok ixs \<Rightarrow> rows_of R flt ixs | _ \<Rightarrow> {})"

definition group_selects :: "'b roaring \<Rightarrow> index_group_fragment \<Rightarrow> block_filter list \<Rightarrow> nat \<Rightarrow> bool" where
  "group_selects R grp bfs n \<longleftrightarrow> (\<exists>bf \<in> set bfs. always_include_header bf \<or>
     (\<exists>(fid, flts) \<in> set (blf_filters bf). \<exists>flt \<in> set flts. n \<in> filter_blocks R grp fid flt))"

text \<open>The needed fragments contain those of every filter that selects a block.\<close>

definition needs_of :: "'b roaring \<Rightarrow> index_group_fragment \<Rightarrow> (fragment_id \<times> block_item_filter list) list \<Rightarrow> fragment_id set \<Rightarrow> bool" where
  "needs_of R grp fs needed \<longleftrightarrow> (\<forall>(fid, flts) \<in> set fs. \<forall>flt \<in> set flts.
     filter_blocks R grp fid flt \<noteq> {} \<longrightarrow> insert fid (set (flt_joins flt)) \<subseteq> needed)"

lemma needs_of_Nil [simp]: "needs_of R grp [] needed"
  by (simp add: needs_of_def)

lemma needs_of_Cons: "needs_of R grp ((fid, flts) # fs) needed \<longleftrightarrow> needs_of R grp fs needed \<and>
    (\<forall>flt \<in> set flts. filter_blocks R grp fid flt \<noteq> {} \<longrightarrow> insert fid (set (flt_joins flt)) \<subseteq> needed)"
  by (auto simp: needs_of_def)

lemma needs_of_mono: "needs_of R grp fs needed \<Longrightarrow> needed \<subseteq> needed' \<Longrightarrow> needs_of R grp fs needed'"
  by (fastforce simp: needs_of_def)

context roaring_bitmap
begin

lemma group_filters_spec:
  assumes "group_filters R ixs fid flts (data, needed) = Ok (data', needed')"
  shows "set (rb_iter R data') = set (rb_iter R data) \<union> (\<Union>flt \<in> set flts. rows_of R flt ixs) \<and> needed \<subseteq> needed' \<and>
    (finite needed \<longrightarrow> finite needed') \<and>
    (\<forall>flt \<in> set flts. rows_of R flt ixs \<noteq> {} \<longrightarrow> insert fid (set (flt_joins flt)) \<subseteq> needed')"
  using assms
proof (induction flts arbitrary: data needed)
  case (Cons flt flts)
  then obtain rows where rows: "filter_rows R flt ixs = Ok rows" by (auto simp: outcome_simps)
  then have r: "rows_of R flt ixs = set (rb_iter R rows)" by (simp add: rows_of_def)
  show ?case
  proof (cases "rb_iter R rows = []")
    case True
    then show ?thesis using Cons rows r by auto
  next
    case False
    then have "group_filters R ixs fid flts (rb_or R data rows, insert fid needed \<union> set (flt_joins flt)) = Ok (data', needed')"
      using Cons.prems rows by simp
    from Cons.IH [OF this] show ?thesis using r by (auto simp: iter_or)
  qed
qed simp

lemma group_fragments_spec:
  assumes "group_fragments R grp fs (data, needed) = Ok (data', needed')"
  shows "set (rb_iter R data') = set (rb_iter R data) \<union>
      {n. \<exists>(fid, flts) \<in> set fs. \<exists>flt \<in> set flts. n \<in> filter_blocks R grp fid flt} \<and> needed \<subseteq> needed' \<and>
    (finite needed \<longrightarrow> finite needed') \<and> needs_of R grp fs needed'"
  using assms
proof (induction fs arbitrary: data needed)
  case Nil
  then show ?case by simp
next
  case (Cons x fs)
  obtain fid flts where x: "x = (fid, flts)" by (cases x)
  then obtain ixs d1 n1 where ixs: "find_fragment ixf_fragment_id fid (igf_indexes grp) = Ok ixs"
    and step: "group_filters R ixs fid flts (data, needed) = Ok (d1, n1)"
    and rest: "group_fragments R grp fs (d1, n1) = Ok (data', needed')"
    using Cons.prems by (auto simp: outcome_simps)
  have f: "filter_blocks R grp fid flt = rows_of R flt ixs" for flt using ixs by (simp add: filter_blocks_def)
  note a = group_filters_spec [OF step] and b = Cons.IH [OF rest]
  have "needs_of R grp (x # fs) needed'"
    unfolding x needs_of_Cons using a b by (simp only: f) (metis order_trans)
  moreover have "set (rb_iter R data') = set (rb_iter R data) \<union>
      {n. \<exists>(fid, flts) \<in> set (x # fs). \<exists>flt \<in> set flts. n \<in> filter_blocks R grp fid flt}"
    using a b by (auto simp: x f)
  ultimately show ?case using a b by (metis order_trans)
qed

lemma group_block_filters_spec:
  assumes "group_block_filters R grp first k bfs (data, needed) = Ok (data', needed')" and "first + k < u32_lim"
  shows "set (rb_iter R data') \<inter> {first..<first + k} =
      (set (rb_iter R data) \<union> {n. group_selects R grp bfs n}) \<inter> {first..<first + k} \<and> needed \<subseteq> needed' \<and>
    (finite needed \<longrightarrow> finite needed') \<and> (\<forall>bf \<in> set bfs. needs_of R grp (blf_filters bf) needed')"
  using assms(1)
proof (induction bfs arbitrary: data needed)
  case Nil
  then show ?case by (auto simp: group_selects_def)
next
  case (Cons bf bfs)
  have lim: "first + k < u64_lim" using assms(2) by (simp add: u64_lim_def u32_lim_def)
  then have range: "set (rb_iter R (rb_from_range R (as_u32 first) (as_u32 (u64_add first k)))) = {first..<first + k}"
    using assms(2) by (simp add: iter_from_range u64_simps as_u32_small)
  define d where "d = (if always_include_header bf
    then rb_or R data (rb_from_range R (as_u32 first) (as_u32 (u64_add first k))) else data)"
  have d: "set (rb_iter R d) = set (rb_iter R data) \<union> (if always_include_header bf then {first..<first + k} else {})"
    by (simp add: d_def iter_or range)
  obtain d1 n1 where step: "group_fragments R grp (blf_filters bf) (d, needed) = Ok (d1, n1)"
    and rest: "group_block_filters R grp first k bfs (d1, n1) = Ok (data', needed')"
    using Cons.prems by (auto simp: outcome_simps Let_def d_def)
  note a = group_fragments_spec [OF step] and b = Cons.IH [OF rest]
  have "\<forall>bf \<in> set (bf # bfs). needs_of R grp (blf_filters bf) needed'"
    using a b needs_of_mono by auto
  moreover have "set (rb_iter R data') \<inter> {first..<first + k} =
      (set (rb_iter R data) \<union> {n. group_selects R grp (bf # bfs) n}) \<inter> {first..<first + k}"
  proof -
    have "{n. group_selects R grp (bf # bfs) n} = {n. always_include_header bf} \<union>
        {n. \<exists>(fid, flts) \<in> set (blf_filters bf). \<exists>flt \<in> set flts. n \<in> filter_blocks R grp fid flt} \<union>
        {n. group_selects R grp bfs n}"
      by (auto simp: group_selects_def)
    then show ?thesis
      using conjunct1 [OF a] conjunct1 [OF b] d by (cases "always_include_header bf") (simp_all add: Int_Un_distrib2 Un_assoc)
  qed
  ultimately show ?case using a b by (meson order_trans)
qed

end

section \<open>The loops\<close>

lemma tx_send_sent: "tx_send s f (w, out) = (Ok True, wo') \<longleftrightarrow> \<not> sst_closed s w \<and> wo' = (w, out @ [f])"
  by (auto simp: tx_send_def)

context roaring_bitmap
begin

lemma send_segments_spec:
  assumes "send_segments s sz first [i..<j] data needed (w, out) = (Ok True, wo')" and "sst_roaring s = R"
    and "i \<le> j" and "first + j * sz < u32_lim" and "\<forall>S. finite S \<longrightarrow> set (sst_hash_order s S) = S" and "finite needed"
  shows "\<exists>fs. wo' = (w, out @ fs) \<and> fetch_run R sz (first + i * sz) (first + j * sz) fs \<and>
    set (fetched_blocks R fs) = set (rb_iter R data) \<inter> {first + i * sz..<first + j * sz} \<and> (\<forall>f \<in> set fs. requests s needed f)"
  using assms(1,3)
proof (induction "j - i" arbitrary: i out)
  case 0
  then show ?case by (intro exI [of _ "[]"]) auto
next
  case (Suc d)
  then have ij: "i < j" "[i..<j] = i # [Suc i..<j]" by (auto simp: upt_conv_Cons)
  let ?a = "first + i * sz"
  have "Suc i * sz \<le> j * sz" using ij(1) by (intro mult_le_mono1) simp
  then have lim: "?a + sz < u32_lim" "?a + sz \<le> first + j * sz" using assms(4) by simp_all
  then have a: "u64_add first (u64_mul i sz) = ?a" "u64_add ?a sz = ?a + sz" "as_u32 ?a = ?a" "as_u32 (?a + sz) = ?a + sz"
    by (simp_all add: u64_simps as_u32_small u64_lim_def u32_lim_def)
  define range where "range = rb_and R (rb_from_range R ?a (?a + sz)) data"
  have range: "set (rb_iter R range) = set (rb_iter R data) \<inter> {?a..<?a + sz}"
    by (auto simp: range_def iter_and iter_from_range)
  have split: "{?a..<first + j * sz} = {?a..<?a + sz} \<union> {first + Suc i * sz..<first + j * sz}"
    using lim(2) by auto
  have IH: "\<exists>fs. wo' = (w, out' @ fs) \<and> fetch_run R sz (first + Suc i * sz) (first + j * sz) fs \<and>
      set (fetched_blocks R fs) = set (rb_iter R data) \<inter> {first + Suc i * sz..<first + j * sz} \<and> (\<forall>f \<in> set fs. requests s needed f)"
    if "send_segments s sz first [Suc i..<j] data needed (w, out') = (Ok True, wo')" for out'
    using Suc(1) [of "Suc i" out'] Suc(2) that ij by simp
  show ?case
  proof (cases "rb_iter R range = []")
    case True
    then have "send_segments s sz first [Suc i..<j] data needed (w, out) = (Ok True, wo')"
      using Suc.prems(1) unfolding ij(2) by (simp add: Let_def a assms(2) range_def)
    from IH [OF this] obtain fs where "wo' = (w, out @ fs)" "fetch_run R sz (first + Suc i * sz) (first + j * sz) fs"
      "set (fetched_blocks R fs) = set (rb_iter R data) \<inter> {first + Suc i * sz..<first + j * sz}" "\<forall>f \<in> set fs. requests s needed f"
      by blast
    moreover have "set (rb_iter R data) \<inter> {?a..<?a + sz} = {}" using range True by simp
    ultimately show ?thesis
      unfolding split using fetch_run_weaken [of R sz "first + Suc i * sz" "first + j * sz" fs ?a]
      by (intro exI [of _ fs]) (simp add: Int_Un_distrib)
  next
    case False
    then obtain f wo1 where f: "request_fragments s (new_finalized ?a) (sst_hash_order s needed) (segment_access_fetch_new ?a range) = Ok f"
      and sent: "tx_send s f (w, out) = (Ok True, wo1)" and rest: "send_segments s sz first [Suc i..<j] data needed wo1 = (Ok True, wo')"
      using Suc.prems(1) unfolding ij(2) by (auto simp: Let_def a assms(2) range_def outcome_simps split: if_splits)
    have wo1: "wo1 = (w, out @ [f])" using sent by (simp add: tx_send_sent)
    from IH [OF rest [unfolded wo1]] obtain fs where fs: "wo' = (w, out @ f # fs)" "fetch_run R sz (first + Suc i * sz) (first + j * sz) fs"
      "set (fetched_blocks R fs) = set (rb_iter R data) \<inter> {first + Suc i * sz..<first + j * sz}" "\<forall>f \<in> set fs. requests s needed f"
      by auto
    note new = request_new [OF f]
    have one: "fetch_run R sz ?a (first + Suc i * sz) [f]"
      using fetch_run_single [OF roaring_bitmap_axioms, of f sz] new(1,2) range by (simp add: add.assoc add.commute [of sz])
    have "fetch_run R sz ?a (first + j * sz) ([f] @ fs)"
      using lim(2) by (intro fetch_run_append [OF one fs(2)]) auto
    moreover have "requests s needed f" using new(3) assms(5,6) by simp
    ultimately show ?thesis
      unfolding split using fs new(2) range by (intro exI [of _ "f # fs"]) (simp add: Int_Un_distrib)
  qed
qed

lemma send_group_spec:
  assumes "send_group s gsz sz first bytes (w, out) = (Ok True, wo')" and "sst_roaring s = R"
    and "from_bytes (bs_group_serde (sst_store s)) bytes = Some g"
    and "first + gsz * sz < u32_lim" and "\<forall>S. finite S \<longrightarrow> set (sst_hash_order s S) = S"
  shows "\<exists>fs. wo' = (w, out @ fs) \<and> fetch_run R sz first (first + gsz * sz) fs \<and>
    set (fetched_blocks R fs) = {n. first \<le> n \<and> n < first + gsz * sz \<and> group_selects R (sg_index g) (sst_block_filter s) n} \<and>
    (\<forall>f \<in> set fs. \<exists>needed. requests s needed f \<and> initial_fragments (sst_block_filter s) \<subseteq> needed \<and>
       (\<forall>bf \<in> set (sst_block_filter s). needs_of R (sg_index g) (blf_filters bf) needed))"
proof -
  have k: "u64_mul gsz sz = gsz * sz" using assms(4) by (simp add: u64_simps u64_lim_def u32_lim_def)
  obtain data needed where sel: "group_block_filters R (sg_index g) first (gsz * sz) (sst_block_filter s)
      (rb_empty R, initial_fragments (sst_block_filter s)) = Ok (data, needed)"
    and send: "send_segments s sz first [0..<gsz] data needed (w, out) = (Ok True, wo')"
    using assms(1-3) by (auto simp: send_group_def access_unchecked_def outcome_simps k)
  note spec = group_block_filters_spec [OF sel assms(4)]
  have fin: "finite needed" using spec by (simp add: initial_fragments_def)
  from send_segments_spec [OF send assms(2) _ _ assms(5) fin] assms(4)
  obtain fs where fs: "wo' = (w, out @ fs)" "fetch_run R sz first (first + gsz * sz) fs"
    "set (fetched_blocks R fs) = set (rb_iter R data) \<inter> {first..<first + gsz * sz}" "\<forall>f \<in> set fs. requests s needed f"
    by auto
  have "set (rb_iter R data) \<inter> {first..<first + gsz * sz} =
      {n. first \<le> n \<and> n < first + gsz * sz \<and> group_selects R (sg_index g) (sst_block_filter s) n}"
    using spec by (auto simp: iter_empty)
  moreover have "\<forall>f \<in> set fs. \<exists>needed. requests s needed f \<and> initial_fragments (sst_block_filter s) \<subseteq> needed \<and>
      (\<forall>bf \<in> set (sst_block_filter s). needs_of R (sg_index g) (blf_filters bf) needed)"
    using fs(4) spec by (intro ballI exI [of _ needed]) simp
  ultimately show ?thesis using fs(1-3) by (intro exI [of _ fs]) simp
qed

lemma stream_segments_spec:
  assumes "stream_segments fuel s sz segmented first (w, out) = (Ok (Reached e), wo')" and "sst_roaring s = R"
    and "segmented + sz < u32_lim" and "\<forall>S. finite S \<longrightarrow> set (sst_hash_order s S) = S" and "finite (all_needed (sst_block_filter s))"
  shows "\<exists>fs. wo' = (w, out @ fs) \<and> first \<le> e \<and> segmented < e \<and> (e = first \<or> e \<le> segmented + sz) \<and> fetch_run R sz first e fs \<and>
    set (fetched_blocks R fs) = {first..<e} \<and> (\<forall>f \<in> set fs. requests s (all_needed (sst_block_filter s)) f)"
  using assms(1)
proof (induction fuel arbitrary: first out)
  case (Suc fuel)
  show ?case
  proof (cases "first \<le> segmented")
    case False
    then show ?thesis using Suc.prems by (intro exI [of _ "[]"]) auto
  next
    case True
    then have lim: "first + sz < u32_lim" using assms(3) by simp
    then have a: "u64_add first sz = first + sz" "as_u32 first = first" "as_u32 (first + sz) = first + sz"
      by (simp_all add: u64_simps as_u32_small u64_lim_def u32_lim_def)
    obtain f wo1 where f: "request_fragments s (new_finalized first) (sst_hash_order s (all_needed (sst_block_filter s)))
        (segment_access_fetch_new first (rb_from_range R first (first + sz))) = Ok f"
      and sent: "tx_send s f (w, out) = (Ok True, wo1)" and rest: "stream_segments fuel s sz segmented (first + sz) wo1 = (Ok (Reached e), wo')"
      using Suc.prems True by (auto simp: Let_def a assms(2) outcome_simps split: if_splits)
    have wo1: "wo1 = (w, out @ [f])" using sent by (simp add: tx_send_sent)
    from Suc.IH [OF rest [unfolded wo1]] obtain fs where fs: "wo' = (w, out @ f # fs)" "first + sz \<le> e" "segmented < e"
      "fetch_run R sz (first + sz) e fs" "set (fetched_blocks R fs) = {first + sz..<e}"
      "\<forall>f \<in> set fs. requests s (all_needed (sst_block_filter s)) f"
      and "e = first + sz \<or> e \<le> segmented + sz" by auto
    then have bound: "e \<le> segmented + sz" using True by linarith
    note new = request_new [OF f]
    have one: "fetch_run R sz first (first + sz) [f]"
      using fetch_run_single [OF roaring_bitmap_axioms, of f sz] new(1,2) by (simp add: iter_from_range)
    have "fetch_run R sz first e ([f] @ fs)" using fs(2) by (intro fetch_run_append [OF one fs(4)]) auto
    moreover have "requests s (all_needed (sst_block_filter s)) f" using new(3) assms(4,5) by simp
    moreover have "{first..<e} = {first..<first + sz} \<union> {first + sz..<e}" using fs(2) by auto
    ultimately show ?thesis using fs new(2) bound by (intro exI [of _ "f # fs"]) (simp add: iter_from_range)
  qed
qed simp

end

section \<open>Reading the groups\<close>

text \<open>The files of the streams: groups and fragments of segments.\<close>

definition file_keys :: "string set" where
  "file_keys = range (\<lambda>n. format_group_key (new_finalized n)) \<union> range (\<lambda>(n, name). format_segment_key (new_finalized n) name)"

lemma group_key_in [simp]: "format_group_key (new_finalized n) \<in> file_keys"
  and segment_key_in [simp]: "format_segment_key (new_finalized n) name \<in> file_keys"
  by (auto simp: file_keys_def)

lemma group_key_inject: "format_group_key (new_finalized m) = format_group_key (new_finalized n) \<longleftrightarrow> m = n"
  by (simp add: format_group_key_def new_finalized_def)

definition group_content :: "'w block_store \<Rightarrow> (nat \<rightharpoonup> segment_group) \<Rightarrow> string \<Rightarrow> bytes \<Rightarrow> bool" where
  "group_content st G k bs \<longleftrightarrow> (\<exists>n g. k = format_group_key (new_finalized n) \<and> G n = Some g \<and> to_bytes (bs_group_serde st) g = Some bs)"

text \<open>The group files that exist, in the bucket or in the cache, hold the groups \<open>G\<close>; other files of the streams may
  be known as well.\<close>

definition group_files ::
  "'w block_store \<Rightarrow> ('w \<Rightarrow> string \<rightharpoonup> object_version \<times> bytes) \<Rightarrow> ('w \<Rightarrow> string \<rightharpoonup> bytes) \<Rightarrow> (nat \<rightharpoonup> segment_group) \<Rightarrow> 'w \<Rightarrow> bool" where
  "group_files st objects cached G = files_ok st objects cached (range (\<lambda>n. format_group_key (new_finalized n))) (group_content st G)"

definition knows_groups :: "'w block_store \<Rightarrow> (nat \<rightharpoonup> segment_group) \<Rightarrow> string set \<Rightarrow> (string \<Rightarrow> bytes \<Rightarrow> bool) \<Rightarrow> bool" where
  "knows_groups st G K P \<longleftrightarrow> K \<subseteq> file_keys \<and> (\<forall>n. format_group_key (new_finalized n) \<in> K \<and>
     (\<forall>bs. P (format_group_key (new_finalized n)) bs \<longrightarrow> group_content st G (format_group_key (new_finalized n)) bs))"

lemma knows_groups_only: "knows_groups st G (range (\<lambda>n. format_group_key (new_finalized n))) (group_content st G)"
  by (auto simp: knows_groups_def)

text \<open>Beyond the laws of the store and the caches: reads of the chain touch neither the bucket nor the cached files
  of the streams; hash sets iterate over their elements.\<close>

locale stream_env =
  file_reads "sst_store s" objects cached + bm: roaring_bitmap "sst_roaring s"
  for s :: "('w, 'b) segment_stream" and objects :: "'w \<Rightarrow> string \<rightharpoonup> object_version \<times> bytes"
    and cached :: "'w \<Rightarrow> string \<rightharpoonup> bytes" +
  assumes view_reads: "chain_reads (fc_store (cv_canonical (sst_view s w))) objects"
      "chain_reads (fc_store (cv_canonical (sst_view s w))) (\<lambda>w. cached w |` file_keys)"
    and hash_order: "finite S \<Longrightarrow> set (sst_hash_order s S) = S"
begin

lemma group_read:
  assumes "knows_groups (sst_store s) G K P" and "files_ok (sst_store s) objects cached K P w"
    and "reader_get_group (sst_store s) (new_finalized n) w = (r, w')"
  shows "files_ok (sst_store s) objects cached K P w'"
    and "r = Ok bs \<Longrightarrow> \<exists>g. G n = Some g \<and> from_bytes (bs_group_serde (sst_store s)) bs = Some g"
proof -
  let ?key = "format_group_key (new_finalized n)"
  have key: "?key \<in> K" and P: "\<And>bs. P ?key bs \<Longrightarrow> group_content (sst_store s) G ?key bs"
    using assms(1) unfolding knows_groups_def by blast+
  have hc: "hc_get_or_fetch (bs_index (sst_store s)) ?key (fetch_body (sst_store s) ?key) w = (r, w')"
    using assms(3) by (simp add: reader_get_group_def Let_def)
  note read = file_read [OF assms(2) key _ hc]
  show "files_ok (sst_store s) objects cached K P w'" using read(1) by blast
  show "\<exists>g. G n = Some g \<and> from_bytes (bs_group_serde (sst_store s)) bs = Some g" if "r = Ok bs"
    using P [OF read(2) [OF _ that]] group_serde by (auto simp: group_content_def group_key_inject)
qed

lemma view_read_keeps:
  assumes "on_world (\<lambda>w. f (sst_view s w) w) (w, out) = (r, wo')" and K: "K \<subseteq> file_keys"
    and "\<And>obs :: 'w \<Rightarrow> string \<rightharpoonup> object_version \<times> bytes. chain_reads (fc_store (cv_canonical (sst_view s w))) obs \<Longrightarrow> keeps obs (f (sst_view s w))"
    and "\<And>obs :: 'w \<Rightarrow> string \<rightharpoonup> bytes. chain_reads (fc_store (cv_canonical (sst_view s w))) obs \<Longrightarrow> keeps obs (f (sst_view s w))"
  shows "\<exists>w'. wo' = (w', out) \<and> (files_ok (sst_store s) objects cached K P w \<longrightarrow> files_ok (sst_store s) objects cached K P w')"
proof -
  obtain w' where w': "wo' = (w', out)" "f (sst_view s w) w = (r, w')"
    using assms(1) by (cases wo') (simp add: on_world_eq)
  have "objects w' = objects w" using keepsD [OF assms(3) [OF view_reads(1)] w'(2)] .
  moreover have "cached w' k = cached w k" if "k \<in> K" for k
    using fun_cong [OF keepsD [OF assms(4) [OF view_reads(2)] w'(2)], of k] that K by (simp add: subset_iff)
  ultimately show ?thesis using w'(1) by (simp add: files_ok_def)
qed

end

section \<open>The run of a stream\<close>

text \<open>The sizes of the view do not change, and the blocks up to the end of a group that contains a marker
  fit the \<open>u32\<close> of the bitmaps.\<close>

definition stream_limits :: "('w, 'b) segment_stream \<Rightarrow> nat \<Rightarrow> nat \<Rightarrow> bool" where
  "stream_limits s gsz sz \<longleftrightarrow> 0 < gsz \<and> 0 < sz \<and> (\<forall>w. cv_group_size (sst_view s w) = gsz \<and> cv_segment_size (sst_view s w) = sz \<and>
     (\<forall>n. cv_grouped (sst_view s w) = Some n \<or> cv_segmented (sst_view s w) = Some n \<longrightarrow> n + gsz * sz < u32_lim))"

definition group_start :: "nat \<Rightarrow> nat \<Rightarrow> nat \<Rightarrow> nat" where
  "group_start a k n = a + (n - a) div k * k"

lemma group_start_in:
  assumes "a \<le> first" and "k dvd first - a" and "first \<le> n" and "n < first + k"
  shows "group_start a k n = first"
proof -
  obtain q where q: "first = a + q * k" using assms(1,2) by (metis add_diff_inverse_nat dvd_def linorder_not_less mult.commute)
  have "(n - a) div k = q" using assms(3,4) by (intro div_nat_eqI) (auto simp: q mult.commute)
  then show ?thesis by (simp add: group_start_def q)
qed

text \<open>A fetch asks for the common files and, for every filter that selects one of its blocks in the group,
  for the files of the filter's fragment and of those it is joined with.\<close>

definition carries ::
  "('w, 'b) segment_stream \<Rightarrow> (nat \<Rightarrow> segment_group option) \<Rightarrow> 'b segment_access_fetch \<Rightarrow> bool" where
  "carries s G f \<longleftrightarrow> requests s (initial_fragments (sst_block_filter s)) f \<and>
     (\<forall>n \<in> set (rb_iter (sst_roaring s) (saf_blocks f)). \<forall>g. G n = Some g \<longrightarrow>
        (\<forall>bf \<in> set (sst_block_filter s). \<forall>(fid, flts) \<in> set (blf_filters bf). \<forall>flt \<in> set flts.
           n \<in> filter_blocks (sst_roaring s) (sg_index g) fid flt \<longrightarrow> requests s (insert fid (set (flt_joins flt))) f))"

lemma carriesI:
  assumes "requests s needed f" and "initial_fragments (sst_block_filter s) \<subseteq> needed"
    and "\<forall>bf \<in> set (sst_block_filter s). needs_of (sst_roaring s) (sg_index g) (blf_filters bf) needed"
    and "\<forall>n \<in> set (rb_iter (sst_roaring s) (saf_blocks f)). G n = Some g"
  shows "carries s G f"
  unfolding carries_def
proof (intro conjI ballI allI impI, goal_cases)
  case 1
  then show ?case using requests_mono assms(1,2) by blast
next
  case (2 n g' bf x)
  then show ?case
    using assms(1,3,4) requests_mono by (fastforce simp: needs_of_def)
qed

text \<open>The blocks of \<open>lo..<hi\<close> the groups select.\<close>

definition selected_blocks ::
  "('w, 'b) segment_stream \<Rightarrow> (nat \<Rightarrow> segment_group option) \<Rightarrow> nat \<Rightarrow> nat \<Rightarrow> nat set" where
  "selected_blocks s G lo hi = {n. lo \<le> n \<and> n < hi \<and>
     (\<exists>g. G n = Some g \<and> group_selects (sst_roaring s) (sg_index g) (sst_block_filter s) n)}"

lemma selected_blocks_split:
  "lo \<le> mid \<Longrightarrow> mid \<le> hi \<Longrightarrow> selected_blocks s G lo hi = selected_blocks s G lo mid \<union> selected_blocks s G mid hi"
  by (auto simp: selected_blocks_def)

context stream_env
begin

lemma grouped_read:
  assumes "on_world (\<lambda>w. get_grouped_cursor (sst_view s w) w) (w, out) = (r, wo')" and "K \<subseteq> file_keys"
  shows "\<exists>w'. wo' = (w', out) \<and> (files_ok (sst_store s) objects cached K P w \<longrightarrow> files_ok (sst_store s) objects cached K P w')"
  by (rule view_read_keeps [where f = get_grouped_cursor, OF assms]) (rule chain_reads.grouped_cursor_keeps, assumption, rule refl)+

lemma segmented_read:
  assumes "on_world (\<lambda>w. get_segmented_cursor (sst_view s w) w) (w, out) = (r, wo')" and "K \<subseteq> file_keys"
  shows "\<exists>w'. wo' = (w', out) \<and> (files_ok (sst_store s) objects cached K P w \<longrightarrow> files_ok (sst_store s) objects cached K P w')"
  by (rule view_read_keeps [where f = get_segmented_cursor, OF assms]) (rule chain_reads.segmented_cursor_keeps, assumption, rule refl)+

lemma refresh_grouped_spec:
  assumes "refresh_grouped s grouped current (w, out) = (Ok (Some grouped'), wo')" and "stream_limits s gsz sz"
    and "grouped + gsz * sz < u32_lim" and K: "K \<subseteq> file_keys"
  shows "\<exists>w'. wo' = (w', out) \<and> (files_ok (sst_store s) objects cached K P w \<longrightarrow> files_ok (sst_store s) objects cached K P w') \<and>
    grouped' + gsz * sz < u32_lim \<and> (grouped' = grouped \<or> (\<exists>w. cv_grouped (sst_view s w) = Some grouped'))"
proof (cases "grouped = current")
  case True
  then obtain c wo1 where view: "on_world (\<lambda>w. get_grouped_cursor (sst_view s w) w) (w, out) = (Ok c, wo1)"
    and c: "map_option cur_number c = Some grouped'" "wo1 = wo'"
    using assms(1) by (auto simp: refresh_grouped_def stream_view_def outcome_simps)
  from view have "get_grouped_cursor (sst_view s w) w = (Ok c, fst wo1)" by (simp add: on_world_eq)
  then have g: "cv_grouped (sst_view s w) = Some grouped'" using grouped_cursor_number c(1) by metis
  then have lim: "grouped' + gsz * sz < u32_lim" using assms(2) by (auto simp: stream_limits_def)
  show ?thesis
    using grouped_read [OF view K] c(2) lim g by blast
qed (use assms in \<open>auto simp: refresh_grouped_def\<close>)

text \<open>The last block of a group is never the first block of another.\<close>

lemma refresh_skipped:
  assumes "b \<le> current" and "b \<le> grouped" and "k dvd current - b" and "k dvd grouped + 1 - b" and "1 < k"
  shows "refresh_grouped s grouped current = ireturn (Some grouped)"
proof -
  have "k dvd 1" if "grouped = current"
    using that assms(1,3,4) by (metis Nat.add_diff_assoc2 dvd_add_right_iff)
  then have "grouped \<noteq> current" using assms(5) by auto
  then show ?thesis by (simp add: refresh_grouped_def)
qed

lemma pop_group_spec:
  assumes "pop_group s step grouped first nxt queue (w, out) = (Ok (nxt', queue', bytes), wo')"
    and "files_ok (sst_store s) objects cached K P w" and "knows_groups (sst_store s) G K P"
  shows "\<exists>w' g. wo' = (w', out) \<and> files_ok (sst_store s) objects cached K P w' \<and> G first = Some g \<and>
    from_bytes (bs_group_serde (sst_store s)) bytes = Some g"
proof -
  obtain m q where q: "fill_queue (GROUP_QUEUE_SIZE - length queue) step grouped nxt queue = (m, q)" by fastforce
  then obtain fetched q' where "q = fetched # q'" using assms(1) by (cases q) (auto simp: pop_group_def)
  then have "on_world (reader_get_group (sst_store s) (new_finalized fetched)) (w, out) = (Ok bytes, wo')" "fetched = first"
    using assms(1) q by (auto simp: pop_group_def outcome_simps new_finalized_def split: if_splits)
  then have "reader_get_group (sst_store s) (new_finalized first) w = (Ok bytes, fst wo')" "snd wo' = out"
    by (simp_all add: on_world_eq)
  then show ?thesis using group_read [OF assms(3,2)] by (cases wo') auto
qed

lemma stream_groups_spec:
  assumes "stream_groups fuel s gsz sz grouped first nxt queue (w, out) = (Ok (Reached e), wo')"
    and "files_ok (sst_store s) objects cached K P w" and "stream_limits s gsz sz" and "grouped + gsz * sz < u32_lim"
    and "a \<le> first" and "gsz * sz dvd first - a" and known: "knows_groups (sst_store s) G K P" and "\<exists>w. cv_grouped (sst_view s w) = Some grouped"
  shows "\<exists>w' fs. wo' = (w', out @ fs) \<and> files_ok (sst_store s) objects cached K P w' \<and> first \<le> e \<and> gsz * sz dvd e - a \<and>
    (e = first \<or> (\<exists>w g. cv_grouped (sst_view s w) = Some g \<and> e \<le> g + gsz * sz)) \<and> fetch_run (sst_roaring s) sz first e fs \<and>
    (\<forall>n. first \<le> n \<and> n < e \<longrightarrow> G (group_start a (gsz * sz) n) \<noteq> None) \<and>
    set (fetched_blocks (sst_roaring s) fs) = selected_blocks s (\<lambda>n. G (group_start a (gsz * sz) n)) first e \<and>
    (\<forall>f \<in> set fs. carries s (\<lambda>n. G (group_start a (gsz * sz) n)) f)"
  using assms(1,2,4-6,8)
proof (induction fuel arbitrary: grouped first nxt queue w out)
  case (Suc fuel)
  let ?k = "gsz * sz" let ?G = "\<lambda>n. G (group_start a (gsz * sz) n)"
  have K: "K \<subseteq> file_keys" using known by (simp add: knows_groups_def)
  show ?case
  proof (cases "first \<le> grouped")
    case False
    then show ?thesis using Suc.prems by (intro exI [of _ w] exI [of _ "[]"]) (auto simp: selected_blocks_def)
  next
    case True
    then have lim: "first + ?k < u32_lim" using Suc.prems(3) by simp
    then have a: "u64_add first (u64_mul sz gsz) = first + ?k" "u64_mul gsz sz = ?k"
      by (simp_all add: u64_simps u64_lim_def u32_lim_def mult.commute)
    obtain nxt' queue' bytes wo1 wo2 wo3 grouped' where
      pop: "pop_group s ?k grouped first nxt queue (w, out) = (Ok (nxt', queue', bytes), wo1)"
      and send: "send_group s gsz sz first bytes wo1 = (Ok True, wo2)"
      and fresh: "refresh_grouped s grouped (first + ?k) wo2 = (Ok (Some grouped'), wo3)"
      and rest: "stream_groups fuel s gsz sz grouped' (first + ?k) nxt' queue' wo3 = (Ok (Reached e), wo')"
      using Suc.prems(1) True by (auto simp: Let_def a outcome_simps split: if_splits option.splits)
    from pop_group_spec [OF pop Suc.prems(2) known] obtain w1 g where g: "wo1 = (w1, out)"
      "files_ok (sst_store s) objects cached K P w1" "G first = Some g" "from_bytes (bs_group_serde (sst_store s)) bytes = Some g"
      by blast
    from bm.send_group_spec [OF send [unfolded g(1)] refl g(4) lim] hash_order obtain fs where
      fs: "wo2 = (w1, out @ fs)" "fetch_run (sst_roaring s) sz first (first + ?k) fs"
      "set (fetched_blocks (sst_roaring s) fs) = {n. first \<le> n \<and> n < first + ?k \<and> group_selects (sst_roaring s) (sg_index g) (sst_block_filter s) n}"
      and carry: "\<forall>f \<in> set fs. \<exists>needed. requests s needed f \<and> initial_fragments (sst_block_filter s) \<subseteq> needed \<and>
       (\<forall>bf \<in> set (sst_block_filter s). needs_of (sst_roaring s) (sg_index g) (blf_filters bf) needed)"
      by blast
    from refresh_grouped_spec [OF fresh [unfolded fs(1)] assms(3) Suc.prems(3) K] g(2) Suc.prems(6) obtain w2 where
      w2: "wo3 = (w2, out @ fs)" "files_ok (sst_store s) objects cached K P w2" "grouped' + ?k < u32_lim"
      "\<exists>w. cv_grouped (sst_view s w) = Some grouped'" by blast
    have "?k dvd first + ?k - a" using Suc.prems(4,5) by (metis Nat.add_diff_assoc2 dvd_add dvd_refl)
    with Suc.IH [OF rest [unfolded w2(1)] w2(2,3) _ _ w2(4)] Suc.prems(4) obtain w' gs where
      w': "files_ok (sst_store s) objects cached K P w'" "?k dvd e - a" "e = first + ?k \<or> (\<exists>w g. cv_grouped (sst_view s w) = Some g \<and> e \<le> g + ?k)" and
      gs: "wo' = (w', (out @ fs) @ gs)" "first + ?k \<le> e" "fetch_run (sst_roaring s) sz (first + ?k) e gs"
      "\<forall>n. first + ?k \<le> n \<and> n < e \<longrightarrow> ?G n \<noteq> None"
      "set (fetched_blocks (sst_roaring s) gs) = selected_blocks s ?G (first + ?k) e" "\<forall>f \<in> set gs. carries s ?G f"
      by auto
    have bound: "\<exists>w g. cv_grouped (sst_view s w) = Some g \<and> e \<le> g + ?k" using w'(3)
    proof
      assume "e = first + ?k"
      then show ?thesis using Suc.prems(6) True by fastforce
    qed
    have here: "?G n = Some g" if "first \<le> n" "n < first + ?k" for n
      using group_start_in [OF Suc.prems(4,5) that] g(3) by simp
    have sel: "selected_blocks s ?G first (first + ?k) = set (fetched_blocks (sst_roaring s) fs)"
      unfolding fs(3) selected_blocks_def using here by auto
    have "carries s ?G f" if f: "f \<in> set fs" for f
    proof -
      have "set (rb_iter (sst_roaring s) (saf_blocks f)) \<subseteq> {first..<first + ?k}"
        using fs(2) f by (auto simp: fetch_run_def fetched_blocks_def)
      then show ?thesis using carry f here carriesI [of s _ f g ?G] by (meson atLeastLessThan_iff subsetD)
    qed
    moreover have "?G n \<noteq> None" if "first \<le> n \<and> n < e" for n
      using here [of n] gs(4) that by (cases "n < first + ?k") auto
    moreover have "fetch_run (sst_roaring s) sz first e (fs @ gs)"
      using fetch_run_append [OF fs(2) gs(3)] gs(2) by simp
    ultimately show ?thesis
      using gs(1,2,5,6) w'(1,2) bound sel selected_blocks_split [of first "first + ?k" e s ?G] by (intro exI [of _ w'] exI [of _ "fs @ gs"]) auto
  qed
qed simp

end

lemma all_needed_eq: "all_needed bfs = {INDEX_FRAGMENT_ID, JOIN_FRAGMENT_ID, HEADER_FRAGMENT_ID} \<union> (\<Union>bf \<in> set bfs. all_fragment_ids bf)"
proof -
  have "foldl (\<lambda>ids bf. ids \<union> all_fragment_ids bf) ids bfs = ids \<union> (\<Union>bf \<in> set bfs. all_fragment_ids bf)" for ids
    by (induction bfs arbitrary: ids) auto
  then show ?thesis by (simp add: all_needed_def)
qed

lemma finite_all_needed: "finite (all_needed bfs)"
  by (simp add: all_needed_eq all_fragment_ids_def all_fragment_ids_loop)

lemma all_needed_carries:
  assumes "requests s (all_needed (sst_block_filter s)) f"
  shows "carries s G f"
  unfolding carries_def
proof (intro conjI ballI allI impI, goal_cases)
  case 1
  then show ?case using assms by (rule requests_mono) (auto simp: all_needed_eq initial_fragments_def)
next
  case (2 n g bf x)
  obtain fid flts where x: "x = (fid, flts)" by (cases x)
  have "insert fid (set (flt_joins flt)) \<subseteq> all_fragment_ids bf" if "flt \<in> set flts" for flt
    using 2(4) that unfolding x all_fragment_ids_def all_fragment_ids_loop by force
  then have "insert fid (set (flt_joins flt)) \<subseteq> all_needed (sst_block_filter s)" if "flt \<in> set flts" for flt
    using 2(3) that unfolding all_needed_eq by blast
  then show ?case unfolding x by (auto intro!: requests_mono [OF assms])
qed

text \<open>The three stages of a run that reaches the end.\<close>

lemma start_stages:
  assumes "segment_stream_start fuel s c (w, out) = (Ok (Reached e), wo')" and "stream_limits s gsz sz"
  obtains first m wo1 wo2 wo3 grouped segmented where
    "get_group_start_block (sst_view s w) (cur_number c) = Ok first"
    "on_world (\<lambda>w. get_grouped_cursor (sst_view s w) w) (w, out) = (Ok grouped, wo1)"
    "case grouped of None \<Rightarrow> m = first \<and> wo2 = wo1
      | Some g \<Rightarrow> stream_groups fuel s gsz sz (cur_number g) first first [] wo1 = (Ok (Reached m), wo2)"
    "on_world (\<lambda>w. get_segmented_cursor (sst_view s w) w) wo2 = (Ok segmented, wo3)"
    "case segmented of None \<Rightarrow> e = m \<and> wo' = wo3
      | Some g \<Rightarrow> stream_segments fuel s sz (cur_number g) m wo3 = (Ok (Reached e), wo')"
proof -
  have sizes: "cv_group_size (sst_view s w) = gsz" "cv_segment_size (sst_view s w) = sz" for w
    using assms(2) by (simp_all add: stream_limits_def)
  obtain first grouped wo1 p wo2 where
    1: "get_group_start_block (sst_view s w) (cur_number c) = Ok first"
    and 2: "on_world (\<lambda>w. get_grouped_cursor (sst_view s w) w) (w, out) = (Ok grouped, wo1)"
    and 3: "(case grouped of None \<Rightarrow> ireturn (Reached first)
      | Some g \<Rightarrow> stream_groups fuel s gsz sz (cur_number g) first first []) wo1 = (Ok p, wo2)"
    and 4: "(case p of Reached current \<Rightarrow>
         ibind (stream_view s get_segmented_cursor) (\<lambda>segmented.
         case segmented of
           None \<Rightarrow> ireturn (Reached current)
         | Some c \<Rightarrow> stream_segments fuel s sz (cur_number c) current)
     | _ \<Rightarrow> ireturn p) wo2 = (Ok (Reached e), wo')"
    using assms(1) unfolding segment_stream_start_def stream_view_def fst_conv sizes Let_def ibind_eq_Ok ichange_eq_Ok
    by (fastforce simp: on_world_def)
  obtain m where p: "p = Reached m" using 4 by (cases p) simp_all
  then obtain segmented wo3 where
    5: "on_world (\<lambda>w. get_segmented_cursor (sst_view s w) w) wo2 = (Ok segmented, wo3)"
    and 6: "(case segmented of None \<Rightarrow> ireturn (Reached m)
         | Some c \<Rightarrow> stream_segments fuel s sz (cur_number c) m) wo3 = (Ok (Reached e), wo')"
    using 4 by (auto simp: stream_view_def outcome_simps)
  show ?thesis
    using that [OF 1 2 _ 5, of m] 3 6 p by (cases grouped; cases segmented) auto
qed

context stream_env
begin

lemma start_spec:
  assumes "segment_stream_start fuel s c (w, out) = (Ok (Reached e), wo')"
    and "files_ok (sst_store s) objects cached K P w" and known: "knows_groups (sst_store s) G K P" and lim: "stream_limits s gsz sz"
    and ok: "sizes_ok (sst_view s w) (cur_number c)"
  defines "b \<equiv> fc_starting_block (cv_canonical (sst_view s w))"
  defines "first \<equiv> group_start b (gsz * sz) (cur_number c)"
  shows "\<exists>w' w1 fs m. wo' = (w', out @ fs) \<and> files_ok (sst_store s) objects cached K P w' \<and> gsz * sz dvd m - b \<and>
    (m = first \<or> (\<exists>w g. cv_grouped (sst_view s w) = Some g \<and> m \<le> g + gsz * sz)) \<and> (e = m \<or> e < u32_lim) \<and> first \<le> m \<and> m \<le> e \<and> fetch_run (sst_roaring s) sz first e fs \<and>
    set (fetched_blocks (sst_roaring s) fs) = selected_blocks s (\<lambda>n. G (group_start b (gsz * sz) n)) first m \<union> {m..<e} \<and>
    (\<forall>n. first \<le> n \<and> n < m \<longrightarrow> G (group_start b (gsz * sz) n) \<noteq> None) \<and>
    (\<forall>f \<in> set fs. carries s (\<lambda>n. G (group_start b (gsz * sz) n)) f \<and>
       (\<forall>n \<in> set (rb_iter (sst_roaring s) (saf_blocks f)). m \<le> n \<longrightarrow> requests s (all_needed (sst_block_filter s)) f)) \<and>
    (\<forall>g. cv_segmented (sst_view s w1) = Some g \<longrightarrow> g < e)"
proof -
  let ?k = "gsz * sz" let ?G = "\<lambda>n. G (group_start b (gsz * sz) n)"
  have sizes: "cv_group_size (sst_view s v) = gsz" "cv_segment_size (sst_view s v) = sz" for v
    using lim by (simp_all add: stream_limits_def)
  obtain fst_block m wo1 wo2 wo3 grouped segmented where
    1: "get_group_start_block (sst_view s w) (cur_number c) = Ok fst_block"
    and 2: "on_world (\<lambda>w. get_grouped_cursor (sst_view s w) w) (w, out) = (Ok grouped, wo1)"
    and 3: "case grouped of None \<Rightarrow> m = fst_block \<and> wo2 = wo1
      | Some g \<Rightarrow> stream_groups fuel s gsz sz (cur_number g) fst_block fst_block [] wo1 = (Ok (Reached m), wo2)"
    and 4: "on_world (\<lambda>w. get_segmented_cursor (sst_view s w) w) wo2 = (Ok segmented, wo3)"
    and 5: "case segmented of None \<Rightarrow> e = m \<and> wo' = wo3
      | Some g \<Rightarrow> stream_segments fuel s sz (cur_number g) m wo3 = (Ok (Reached e), wo')"
    by (rule start_stages [OF assms(1) lim])
  have first: "fst_block = first" using 1 group_arith(1) [OF ok] by (simp add: first_def group_start_def b_def sizes)
  have aligned: "b \<le> first" "?k dvd first - b" by (simp_all add: first_def group_start_def)
  have K: "K \<subseteq> file_keys" using known by (simp add: knows_groups_def)
  from grouped_read [OF 2 K] assms(2) obtain w1 where w1: "wo1 = (w1, out)" "files_ok (sst_store s) objects cached K P w1" by blast
  have "\<exists>w2 fs. wo2 = (w2, out @ fs) \<and> files_ok (sst_store s) objects cached K P w2 \<and> first \<le> m \<and> ?k dvd m - b \<and>
    (m = first \<or> (\<exists>w g. cv_grouped (sst_view s w) = Some g \<and> m \<le> g + ?k)) \<and> fetch_run (sst_roaring s) sz first m fs \<and>
    (\<forall>n. first \<le> n \<and> n < m \<longrightarrow> ?G n \<noteq> None) \<and>
    set (fetched_blocks (sst_roaring s) fs) = selected_blocks s ?G first m \<and> (\<forall>f \<in> set fs. carries s ?G f)"
  proof (cases grouped)
    case None
    then show ?thesis using 3 w1 first aligned by (intro exI [of _ w1] exI [of _ "[]"]) (auto simp: selected_blocks_def)
  next
    case (Some g)
    have "get_grouped_cursor (sst_view s w) w = (Ok grouped, w1)" using 2 w1(1) by (simp add: on_world_eq)
    from grouped_cursor_number [OF this] have gr: "cv_grouped (sst_view s w) = Some (cur_number g)" using Some by simp
    then have g: "cur_number g + ?k < u32_lim" using lim by (simp add: stream_limits_def)
    have "stream_groups fuel s gsz sz (cur_number g) first first [] (w1, out) = (Ok (Reached m), wo2)"
      using 3 Some first w1(1) by simp
    from stream_groups_spec [OF this w1(2) lim g aligned known] gr show ?thesis by blast
  qed
  then obtain w2 fs where w2: "files_ok (sst_store s) objects cached K P w2" "?k dvd m - b" "m = first \<or> (\<exists>w g. cv_grouped (sst_view s w) = Some g \<and> m \<le> g + ?k)"
    and fs: "wo2 = (w2, out @ fs)" "first \<le> m" "fetch_run (sst_roaring s) sz first m fs"
    "\<forall>n. first \<le> n \<and> n < m \<longrightarrow> ?G n \<noteq> None" "set (fetched_blocks (sst_roaring s) fs) = selected_blocks s ?G first m"
    "\<forall>f \<in> set fs. carries s ?G f" by blast
  from segmented_read [OF 4 [unfolded fs(1)] K] w2(1) obtain w3 where w3: "wo3 = (w3, out @ fs)" and ok3: "files_ok (sst_store s) objects cached K P w3" by blast
  have "get_segmented_cursor (sst_view s w2) w2 = (Ok segmented, w3)" using 4 w3 fs(1) by (simp add: on_world_eq)
  note seg = segmented_cursor_number [OF this]
  have "\<exists>w' gs. wo' = (w', out @ fs @ gs) \<and> files_ok (sst_store s) objects cached K P w' \<and> m \<le> e \<and> (e = m \<or> e < u32_lim) \<and> (\<forall>g. segmented = Some g \<longrightarrow> cur_number g < e) \<and> fetch_run (sst_roaring s) sz m e gs \<and>
    set (fetched_blocks (sst_roaring s) gs) = {m..<e} \<and> (\<forall>f \<in> set gs. requests s (all_needed (sst_block_filter s)) f)"
  proof (cases segmented)
    case None
    then show ?thesis using 5 w3 ok3 by (intro exI [of _ w3] exI [of _ "[]"]) auto
  next
    case (Some g)
    then have "cur_number g + ?k < u32_lim" using lim seg by (simp add: stream_limits_def)
    moreover have "1 * sz \<le> ?k" using lim by (intro mult_le_mono1) (simp add: stream_limits_def)
    ultimately have "cur_number g + sz < u32_lim" by linarith
    moreover have "stream_segments fuel s sz (cur_number g) m (w3, out @ fs) = (Ok (Reached e), wo')" using 5 Some w3 by simp
    ultimately obtain gs where "wo' = (w3, (out @ fs) @ gs)" "m \<le> e" "cur_number g < e" and bound: "e = m \<or> e \<le> cur_number g + sz" and "fetch_run (sst_roaring s) sz m e gs"
      "set (fetched_blocks (sst_roaring s) gs) = {m..<e}" "\<forall>f \<in> set gs. requests s (all_needed (sst_block_filter s)) f"
      using bm.stream_segments_spec [OF _ refl _ _ finite_all_needed] hash_order by metis
    moreover have "e = m \<or> e < u32_lim" using bound \<open>cur_number g + sz < u32_lim\<close> by linarith
    ultimately show ?thesis using Some ok3 by (intro exI [of _ w3] exI [of _ gs]) simp
  qed
  then obtain w' gs where ok': "files_ok (sst_store s) objects cached K P w'" and top: "e = m \<or> e < u32_lim" and gs: "wo' = (w', out @ fs @ gs)" "m \<le> e" "\<forall>g. segmented = Some g \<longrightarrow> cur_number g < e"
    "fetch_run (sst_roaring s) sz m e gs" "set (fetched_blocks (sst_roaring s) gs) = {m..<e}"
    "\<forall>f \<in> set gs. requests s (all_needed (sst_block_filter s)) f" by blast
  have low: "n < m" if "f \<in> set fs" "n \<in> set (rb_iter (sst_roaring s) (saf_blocks f))" for f n
    using that fs(3) by (fastforce simp: fetch_run_def fetched_blocks_def)
  have "carries s ?G f \<and> (\<forall>n \<in> set (rb_iter (sst_roaring s) (saf_blocks f)). m \<le> n \<longrightarrow> requests s (all_needed (sst_block_filter s)) f)"
    if "f \<in> set (fs @ gs)" for f
    using that fs(6) gs(6) low all_needed_carries [of s f ?G] by fastforce
  then show ?thesis
    using ok' top w2 gs fs fetch_run_append [OF fs(3) gs(4) fs(2) gs(2)] seg
    by (intro exI [of _ w'] exI [of _ w2] exI [of _ "fs @ gs"] exI [of _ m]) auto
qed

end

section \<open>Termination\<close>

lemma stream_groups_fuel:
  assumes "stream_limits s gsz sz" and "grouped + gsz * sz < u32_lim" and "u32_lim < fuel + first" and "0 < fuel"
  shows "fst (stream_groups fuel s gsz sz grouped first nxt queue wo) \<noteq> Ok OutOfFuel"
  using assms(2-)
proof (induction fuel arbitrary: grouped first nxt queue wo)
  case 0
  then show ?case by simp
next
  case (Suc fuel)
  let ?k = "gsz * sz"
  have pos: "0 < ?k" using assms(1) by (simp add: stream_limits_def)
  show ?case
  proof
    assume out: "fst (stream_groups (Suc fuel) s gsz sz grouped first nxt queue wo) = Ok OutOfFuel"
    then have le: "first \<le> grouped" by (auto split: if_splits)
    then have lim: "first + ?k < u32_lim" using Suc.prems(1) by simp
    then have a: "u64_add first (u64_mul sz gsz) = first + ?k" "u64_mul gsz sz = ?k"
      by (simp_all add: u64_simps u64_lim_def u32_lim_def mult.commute)
    obtain wo' where "stream_groups (Suc fuel) s gsz sz grouped first nxt queue wo = (Ok OutOfFuel, wo')"
      using out by (metis prod.collapse)
    then obtain nxt' queue' wo2 wo3 grouped' where
      fresh: "refresh_grouped s grouped (first + ?k) wo2 = (Ok (Some grouped'), wo3)"
      and rest: "stream_groups fuel s gsz sz grouped' (first + ?k) nxt' queue' wo3 = (Ok OutOfFuel, wo')"
      using le by (auto simp: Let_def a outcome_simps split: if_splits option.splits)
    have "grouped' + ?k < u32_lim"
    proof (cases "grouped = first + ?k")
      case True
      then obtain c where "get_grouped_cursor (sst_view s (fst wo2)) (fst wo2) = (Ok c, fst wo3)" "map_option cur_number c = Some grouped'"
        using fresh by (auto simp: refresh_grouped_def stream_view_def outcome_simps on_world_eq)
      then have "cv_grouped (sst_view s (fst wo2)) = Some grouped'" using grouped_cursor_number by metis
      then show ?thesis using assms(1) by (simp add: stream_limits_def)
    qed (use fresh Suc.prems(1) in \<open>simp add: refresh_grouped_def\<close>)
    moreover have "u32_lim < fuel + (first + ?k)" "0 < fuel" using Suc.prems(2) pos lim by linarith+
    ultimately show False using Suc.IH [of grouped' "first + ?k" nxt' queue' wo3] rest by simp
  qed
qed

lemma stream_segments_fuel:
  assumes "0 < sz" and "segmented + sz < u32_lim" and "u32_lim < fuel + first" and "0 < fuel"
  shows "fst (stream_segments fuel s sz segmented first wo) \<noteq> Ok OutOfFuel"
  using assms(3,4)
proof (induction fuel arbitrary: first wo)
  case 0
  then show ?case by simp
next
  case (Suc fuel)
  show ?case
  proof
    assume out: "fst (stream_segments (Suc fuel) s sz segmented first wo) = Ok OutOfFuel"
    then have le: "first \<le> segmented" by (auto split: if_splits)
    then have a: "u64_add first sz = first + sz" using assms(2) by (simp add: u64_simps u64_lim_def u32_lim_def)
    obtain wo' where "stream_segments (Suc fuel) s sz segmented first wo = (Ok OutOfFuel, wo')"
      using out by (metis prod.collapse)
    then obtain wo1 where "stream_segments fuel s sz segmented (first + sz) wo1 = (Ok OutOfFuel, wo')"
      using le by (auto simp: Let_def a outcome_simps split: if_splits)
    moreover have "u32_lim < fuel + (first + sz)" "0 < fuel" using Suc.prems(1) assms(1,2) le by linarith+
    ultimately show False using Suc.IH [of "first + sz" wo1] by simp
  qed
qed

section \<open>Properties\<close>

text \<open>C37: A segment stream that runs to its end has sent, in ascending order and each block at most once, exactly
  the blocks from the group of the starting cursor on which the groups select for the client's
  filters, followed by all blocks from the end of the groups to beyond the last segmented block. A sent segment
  asks for the files of every fragment that a filter selecting one of its blocks refers to.\<close>

theorem segment_stream_exact:
  assumes "stream_env s objects cached" and "stream_limits s gsz sz" and "group_files (sst_store s) objects cached G w"
    and "sizes_ok (sst_view s w) (cur_number c)" and "\<And>w. \<exists>g. cv_segmented (sst_view s w) = Some g \<and> L \<le> g"
    and "segment_stream_start fuel s c (w, out) = (Ok (Reached e), (w', out'))"
  shows "\<exists>fs m. let b = fc_starting_block (cv_canonical (sst_view s w)); G = (\<lambda>n. G (group_start b (gsz * sz) n));
      first = group_start b (gsz * sz) (cur_number c) in
    out' = out @ fs \<and> first \<le> m \<and> m \<le> e \<and> L < e \<and> sorted_wrt (<) (fetched_blocks (sst_roaring s) fs) \<and>
    set (fetched_blocks (sst_roaring s) fs) = selected_blocks s G first m \<union> {m..<e} \<and>
    (\<forall>n. first \<le> n \<and> n < m \<longrightarrow> G n \<noteq> None) \<and> (\<forall>f \<in> set fs. carries s G f)"
proof -
  obtain w1 fs m where out: "out' = out @ fs" and seg: "\<And>g. cv_segmented (sst_view s w1) = Some g \<Longrightarrow> g < e" and
    spec: "let b = fc_starting_block (cv_canonical (sst_view s w)); G = (\<lambda>n. G (group_start b (gsz * sz) n));
      first = group_start b (gsz * sz) (cur_number c) in
    first \<le> m \<and> m \<le> e \<and> fetch_run (sst_roaring s) sz first e fs \<and>
    set (fetched_blocks (sst_roaring s) fs) = selected_blocks s G first m \<union> {m..<e} \<and>
    (\<forall>n. first \<le> n \<and> n < m \<longrightarrow> G n \<noteq> None) \<and> (\<forall>f \<in> set fs. carries s G f)"
    using stream_env.start_spec [OF assms(1,6) assms(3) [unfolded group_files_def] knows_groups_only assms(2,4)] unfolding Let_def prod.inject by blast
  obtain g where "cv_segmented (sst_view s w1) = Some g" "L \<le> g" using assms(5) by blast
  then have "L < e" using seg by fastforce
  then show ?thesis
    using out spec unfolding Let_def fetch_run_def
    by (intro exI [of _ fs] exI [of _ m]) simp
qed

text \<open>\<open>compacted_from\<close>: the group of \<open>k\<close> blocks from \<open>first\<close> on was built from segments that hold the indexes of
  those blocks, under their numbers.\<close>

definition compacted_from ::
  "'b roaring \<Rightarrow> (fragment_id \<Rightarrow> index_id \<Rightarrow> nat) \<Rightarrow> nat \<Rightarrow> nat \<Rightarrow> (nat \<Rightarrow> index_group_fragment) \<Rightarrow> nat \<Rightarrow> segment_group \<Rightarrow> bool" where
  "compacted_from R kind sz k indexes first g \<longleftrightarrow> (\<exists>segments. group_range_ok sz segments \<and>
     fragments_ok kind (concat (map segment_fragments segments)) \<and> group_build R (group_of R sz segments) = Ok g \<and>
     cur_number (seg_first_block (hd segments)) = first \<and> cur_number (seg_first_block (last segments)) + sz = first + k \<and>
     (\<forall>n. first \<le> n \<and> n < first + k \<longrightarrow>
        (\<exists>sg \<in> set segments. \<exists>d \<in> set (seg_data sg). cur_number (fd_cursor d) = n \<and> fd_data d = indexes n)))"

lemma group_start_bounds:
  assumes "0 < k" and "a \<le> n"
  shows "group_start a k n \<le> n" and "n < group_start a k n + k"
proof -
  have "(n - a) div k * k \<le> n - a" "n - a < (n - a) div k * k + k"
    using div_times_less_eq_dividend [of "n - a" k] dividend_less_div_times [OF assms(1), of "n - a"] by simp_all
  then show "group_start a k n \<le> n" "n < group_start a k n + k" using assms(2) unfolding group_start_def by linarith+
qed

lemma compacted_selects:
  assumes R: "roaring_bitmap R" and built: "compacted_from R kind sz k indexes first g" and n: "first \<le> n" "n < first + k"
    and fr: "fr \<in> set (igf_indexes (indexes n))" "ixf_fragment_id fr = flt_fragment_id flt"
      "\<forall>e \<in> set (ixf_indexes fr). ie_index e \<noteq> EmptyI"
    and rows: "filter_rows R flt fr = Ok rows" "rb_iter R rows \<noteq> []"
  shows "n \<in> filter_blocks R (sg_index g) (flt_fragment_id flt) flt"
proof -
  obtain segments sg d where seg: "group_range_ok sz segments" "fragments_ok kind (concat (map segment_fragments segments))"
    "group_build R (group_of R sz segments) = Ok g" "sg \<in> set segments" "d \<in> set (seg_data sg)"
    and bounds: "cur_number (seg_first_block (hd segments)) = first" "cur_number (seg_first_block (last segments)) + sz = first + k"
    and d: "cur_number (fd_cursor d) = n" "fd_data d = indexes n"
    using built n unfolding compacted_from_def by blast
  obtain row where row: "row \<in> set (rb_iter R rows)" using rows(2) by (meson last_in_set)
  have "\<exists>gfr gb. find_fragment ixf_fragment_id (flt_fragment_id flt) (igf_indexes (sg_index g)) = Ok gfr \<and>
      filter_rows R flt gfr = Ok gb \<and> n \<in> set (rb_iter R gb)"
    using group_block_found [OF R seg _ _ _ fr(2,3) rows(1) row] bounds d n fr(1) by simp
  then show ?thesis by (auto simp: filter_blocks_def rows_of_def)
qed

text \<open>C6: No data is lost: when the groups were compacted from the indexes of the blocks, a segment stream that
  runs to its end has sent every block, from the starting cursor to the last segmented one, in
  which any filter of the client selects a row by the block's own index, and every block
  at all if a filter always asks for headers.\<close>

theorem segment_stream_no_loss:
  assumes "stream_env s objects cached" and "stream_limits s gsz sz" and "group_files (sst_store s) objects cached G w"
    and "sizes_ok (sst_view s w) (cur_number c)" and "\<And>w. \<exists>g. cv_segmented (sst_view s w) = Some g \<and> L \<le> g"
    and "segment_stream_start fuel s c (w, out) = (Ok (Reached e), (w', out'))"
    and "\<And>first g. G first = Some g \<Longrightarrow> compacted_from (sst_roaring s) kind sz (gsz * sz) indexes first g"
    and "cur_number c \<le> n" and "n \<le> L" and "bf \<in> set (sst_block_filter s)"
    and "always_include_header bf \<or>
      (\<exists>(fid, flts) \<in> set (blf_filters bf). \<exists>flt \<in> set flts. flt_fragment_id flt = fid \<and>
         (\<exists>fr \<in> set (igf_indexes (indexes n)). ixf_fragment_id fr = fid \<and> (\<forall>e \<in> set (ixf_indexes fr). ie_index e \<noteq> EmptyI) \<and>
            (\<exists>rows. filter_rows (sst_roaring s) flt fr = Ok rows \<and> rb_iter (sst_roaring s) rows \<noteq> [])))"
  shows "n \<in> set (fetched_blocks (sst_roaring s) (drop (length out) out'))"
proof -
  let ?k = "gsz * sz" and ?b = "fc_starting_block (cv_canonical (sst_view s w))"
  let ?G = "\<lambda>n. G (group_start ?b ?k n)" and ?first = "group_start ?b ?k (cur_number c)"
  obtain w1 fs m where fs: "out' = out @ fs" and "?first \<le> m" "m \<le> e"
    and blocks: "set (fetched_blocks (sst_roaring s) fs) = selected_blocks s ?G ?first m \<union> {m..<e}"
    and stored: "\<forall>n. ?first \<le> n \<and> n < m \<longrightarrow> ?G n \<noteq> None"
    and seg: "\<forall>g. cv_segmented (sst_view s w1) = Some g \<longrightarrow> g < e"
    using stream_env.start_spec [OF assms(1,6) assms(3) [unfolded group_files_def] knows_groups_only assms(2,4)] unfolding prod.inject by blast
  have k: "0 < ?k" using assms(2) by (simp add: stream_limits_def)
  have b: "?b \<le> cur_number c" using assms(4) by (simp add: sizes_ok_def)
  have n: "?first \<le> n" "?b \<le> n" using group_start_bounds(1) [OF k b] assms(8) b by linarith+
  have e: "n < e" using assms(5) [of w1] seg assms(9) by fastforce
  have "n \<in> selected_blocks s ?G ?first m" if m: "n < m"
  proof -
    obtain g where g: "?G n = Some g" using stored n(1) m by blast
    have R: "roaring_bitmap (sst_roaring s)" using assms(1) by (simp add: stream_env_def)
    note found = compacted_selects [OF R assms(7) [OF g] group_start_bounds [OF k n(2)]]
    have "group_selects (sst_roaring s) (sg_index g) (sst_block_filter s) n"
      using assms(11)
    proof (elim disjE bexE case_prodE conjE exE, goal_cases)
      case 1
      then show ?case using assms(10) by (auto simp: group_selects_def)
    next
      case (2 x fid flts flt fr rows)
      then show ?case using assms(10) found [of fr flt rows] unfolding group_selects_def by fastforce
    qed
    then show ?thesis using n(1) m g by (simp add: selected_blocks_def)
  qed
  then show ?thesis using fs blocks e by (cases "n < m") auto
qed

text \<open>C38: A segment stream always ends: the loops over groups and segments advance at least one block in each
  round and stay below the markers, whatever the view holds at each read, so with more rounds
  than there are \<open>u32\<close> block numbers they never run out of fuel.\<close>

theorem segment_stream_terminates:
  assumes "stream_limits s gsz sz" and "u32_lim < fuel"
  shows "fst (segment_stream_start fuel s c wo) \<noteq> Ok OutOfFuel"
proof
  assume "fst (segment_stream_start fuel s c wo) = Ok OutOfFuel"
  then obtain wo' where run: "segment_stream_start fuel s c wo = (Ok OutOfFuel, wo')" by (metis prod.collapse)
  have sizes: "cv_group_size (sst_view s w) = gsz" "cv_segment_size (sst_view s w) = sz" for w
    using assms(1) by (simp_all add: stream_limits_def)
  obtain first grouped wo1 wo2 p wo3 where
    1: "on_world (\<lambda>w. get_grouped_cursor (sst_view s w) w) wo1 = (Ok grouped, wo2)"
    and 2: "(case grouped of None \<Rightarrow> ireturn (Reached first)
      | Some g \<Rightarrow> stream_groups fuel s gsz sz (cur_number g) first first []) wo2 = (Ok p, wo3)"
    and 3: "(case p of Reached current \<Rightarrow>
         ibind (stream_view s get_segmented_cursor) (\<lambda>segmented.
         case segmented of
           None \<Rightarrow> ireturn (Reached current)
         | Some c \<Rightarrow> stream_segments fuel s sz (cur_number c) current)
     | _ \<Rightarrow> ireturn p) wo3 = (Ok OutOfFuel, wo')"
    using run unfolding segment_stream_start_def stream_view_def sizes Let_def ibind_eq_Ok ichange_eq_Ok by blast
  have grouped: "cur_number g + gsz * sz < u32_lim" if "grouped = Some g" for g
    using grouped_cursor_number [of "sst_view s (fst wo1)" "fst wo1" grouped] 1 that assms(1)
    by (auto simp: on_world_eq stream_limits_def)
  have "p \<noteq> OutOfFuel"
    using 2 stream_groups_fuel [OF assms(1) grouped, of _ fuel first first "[]" wo2] assms(2) by (cases grouped) auto
  then obtain m where "p = Reached m" using 3 by (cases p) auto
  then obtain g wo4 where seg: "get_segmented_cursor (sst_view s (fst wo3)) (fst wo3) = (Ok (Some g), fst wo4)"
    and "stream_segments fuel s sz (cur_number g) m wo4 = (Ok OutOfFuel, wo')"
    using 3 by (auto simp: stream_view_def outcome_simps on_world_eq split: option.splits)
  moreover have "cur_number g + gsz * sz < u32_lim"
    using segmented_cursor_number [OF seg] assms(1) by (simp add: stream_limits_def)
  moreover have "0 < sz" using assms(1) by (simp add: stream_limits_def)
  moreover have "1 * sz \<le> gsz * sz" using assms(1) by (intro mult_le_mono1) (simp add: stream_limits_def)
  ultimately have "0 < sz" "cur_number g + sz < u32_lim" "stream_segments fuel s sz (cur_number g) m wo4 = (Ok OutOfFuel, wo')"
    by (assumption | linarith)+
  then show False
    using stream_segments_fuel [of sz "cur_number g" fuel m s wo4] assms(2) by simp
qed

section \<open>A reference stream\<close>

definition mem_segment_stream ::
  "block_filter list \<Rightarrow> (fragment_id \<rightharpoonup> string) \<Rightarrow> mem_world chain_view \<Rightarrow> segment_group list \<Rightarrow> (mem_world, nat list) segment_stream" where
  "mem_segment_stream bfs names v groups = \<lparr>sst_block_filter = bfs, sst_fragment_id_to_name = names,
     sst_store = mem_block_store [] groups, sst_view = (\<lambda>_. v), sst_roaring = list_roaring,
     sst_hash_order = sorted_list_of_set, sst_closed = (\<lambda>_. False), sst_cancelled = (\<lambda>_. False)\<rparr>"

interpretation mem_stream: stream_env
  "mem_segment_stream bfs names (mem_view finalized segmented grouped sz gsz start recent) groups" mw_objects mw_cache
proof -
  let ?s = "mem_segment_stream bfs names (mem_view finalized segmented grouped sz gsz start recent) groups"
  have sel: "sst_store ?s = mem_block_store [] groups" "sst_roaring ?s = list_roaring" "sst_hash_order ?s = sorted_list_of_set"
    "fc_store (cv_canonical (sst_view ?s w)) = mem_store []" "bs_index (mem_block_store [] groups) = mem_hybrid_cache" for w
    by (simp_all add: mem_segment_stream_def mem_view_def chain_view_new_def mem_block_store_def)
  have keys: "canon_key name \<notin> file_keys" for name
    by (auto simp: file_keys_def canon_key_def format_group_key_def format_segment_key_def)
  have cache: "chain_reads (mem_store []) (\<lambda>w. mw_cache w |` file_keys)"
    by unfold_locales (auto simp: mem_store_def object_store_new_def mem_client_def mem_get_def keeps_def keys fun_eq_iff restrict_map_def
        split: option.splits)
  show "stream_env ?s mw_objects mw_cache"
    unfolding stream_env_def stream_env_axioms_def sel
    by (intro conjI allI impI mem_files.file_reads_axioms listbm.roaring_bitmap_axioms mem.reads.chain_reads_axioms cache) simp
qed

text \<open>Blocks 100 to 102 in segments of one block and groups of two; block 100 and the first group are stored.\<close>

definition stream_filters :: "block_filter list" where
  "stream_filters = [\<lparr>blf_header_filter = OnData, blf_filters = [(4, [demo_filter])]\<rparr>]"

definition stream_names :: "fragment_id \<rightharpoonup> string" where
  "stream_names = [INDEX_FRAGMENT_ID \<mapsto> INDEX_FRAGMENT_NAME, JOIN_FRAGMENT_ID \<mapsto> JOIN_FRAGMENT_NAME,
     HEADER_FRAGMENT_ID \<mapsto> HEADER_FRAGMENT_NAME, 4 \<mapsto> ''event'']"

definition demo_stream :: "(mem_world, nat list) segment_stream" where
  "demo_stream = mem_segment_stream stream_filters stream_names (mem_view 102 (Some 102) (Some 101) 1 2 100 stored_demo) [demo_built]"

definition stream_world :: mem_world where
  "stream_world = empty_world\<lparr>mw_bucket := [(format_group_key (new_finalized 100), [], [0] @ put_u32 (crc32 mem_codec [0]))]\<rparr>"

definition stream_groups_of :: "nat \<rightharpoonup> segment_group" where
  "stream_groups_of = [100 \<mapsto> demo_built]"

lemma demo_stream_ok:
  "stream_limits demo_stream 2 1" "sizes_ok (sst_view demo_stream w) 100" "cv_segmented (sst_view demo_stream w) = Some 102"
  by (simp_all add: stream_limits_def sizes_ok_def demo_stream_def mem_segment_stream_def mem_view_def chain_view_new_def u32_lim_def u64_lim_def)

lemma demo_stream_files: "group_files (sst_store demo_stream) mw_objects mw_cache stream_groups_of stream_world"
proof -
  have "full_key (bs_client (sst_store demo_stream)) k = k" for k
    by (simp add: demo_stream_def mem_segment_stream_def mem_block_store_def object_store_new_def full_key_def normalize_prefix_def)
  then show ?thesis
    by (auto simp: group_files_def files_ok_def group_content_def stream_world_def mw_objects_def empty_world_def stream_groups_of_def group_key_inject
        demo_stream_def mem_segment_stream_def mem_block_store_def table_serde_def written_as_def mem_codec_def split: if_splits)
qed

lemma demo_stream_view:
  "get_group_start_block (sst_view demo_stream w) 100 = Ok 100"
  "get_grouped_cursor (sst_view demo_stream w) w' = (Ok (Some (new_finalized 101)), w')"
  "get_segmented_cursor (sst_view demo_stream w) w' = (Ok (Some (new_finalized 102)), w')"
  "cv_group_size (sst_view demo_stream w) = 2" "cv_segment_size (sst_view demo_stream w) = 1"
  by (simp_all add: demo_stream_def mem_segment_stream_def mem_view_def chain_view_new_def get_group_start_block_def
      get_grouped_cursor_def get_segmented_cursor_def cursor_or_finalized_def get_canonical_def stored_demo_def
      u64_simps u64_lim_def Let_def u64_div_def ibind_def)

lemma demo_stream_sel:
  "sst_block_filter demo_stream = stream_filters" "sst_fragment_id_to_name demo_stream = stream_names"
  "sst_roaring demo_stream = list_roaring" "sst_hash_order demo_stream = sorted_list_of_set"
  "sst_closed demo_stream = (\<lambda>_. False)" "sst_cancelled demo_stream = (\<lambda>_. False)" "sst_store demo_stream = mem_block_store [] [demo_built]"
  by (simp_all add: demo_stream_def mem_segment_stream_def)

lemma demo_stream_group:
  "\<exists>w'. reader_get_group (sst_store demo_stream) (new_finalized 100) stream_world = (Ok [0], w')"
  by (simp add: reader_get_group_def demo_stream_sel mem_block_store_def mem_hybrid_cache_def stream_world_def empty_world_def
      fetch_body_def object_store_get_def object_store_new_def mem_client_def mem_get_def mw_objects_def full_key_def
      normalize_prefix_def mem_codec_def put_u32_def get_u32_def ibind_def ichange_def Let_def)

lemma demo_stream_filter:
  "group_block_filters list_roaring (sg_index demo_built) 100 2 stream_filters ([], {0, 255, 1}) =
     Ok ([100], {4, 0, 255, 1})"
  by (simp add: stream_filters_def demo_built_def demo_filter_def find_fragment_def filter_rows_def always_include_header_def
      as_u32_def u32_lim_def Let_def bitmap_index_get_def binary_search_by_def list_roaring_def put_u32_def get_u32_def
      fragment_names upt_rec list_iter_def search_loop.simps cmp_def)

definition demo_fetch :: "nat \<Rightarrow> nat list \<Rightarrow> nat list segment_access_fetch" where
  "demo_fetch first blocks = \<lparr>saf_first_block = first, saf_blocks = blocks,
     saf_fragments = [(0, new_finalized first, the (stream_names 0)), (1, new_finalized first, the (stream_names 1)),
       (4, new_finalized first, ''event''), (255, new_finalized first, the (stream_names 255))]\<rparr>"

lemma demo_stream_request:
  "request_fragments demo_stream (new_finalized first) (sorted_list_of_set {4, 0, 255, 1}) (segment_access_fetch_new first blocks) =
     Ok (demo_fetch first blocks)"
proof -
  have "{4, 0, 255, 1} = set [0, 1, 4, 255 :: nat]" by auto
  then have "sorted_list_of_set {4, 0, 255, 1} = [0, 1, 4, 255 :: nat]" by (simp only: sorted_list_of_set_sort_remdups) simp
  then show ?thesis
    by (simp add: demo_fetch_def segment_access_fetch_new_def insert_fragment_def demo_stream_sel stream_names_def fragment_names)
qed

lemma demo_stream_tx: "tx_send demo_stream f (w, out) = (Ok True, (w, out @ [f]))"
  by (simp add: tx_send_def demo_stream_sel)

lemma demo_stream_send: "send_group demo_stream 2 1 100 [0] (w, out) = (Ok True, (w, out @ [demo_fetch 100 [100]]))"
proof -
  have acc: "access_unchecked (bs_group_serde (sst_store demo_stream)) [0] = Ok demo_built"
    by (simp add: access_unchecked_def demo_stream_sel mem_block_store_def table_serde_def)
  have range: "rb_and list_roaring (rb_from_range list_roaring 100 101) [100] = [100]"
    "rb_iter list_roaring [100] = [100]" "rb_iter list_roaring (rb_and list_roaring (rb_from_range list_roaring 101 102) [100]) = []"
    by (simp_all add: list_roaring_def list_iter_def upt_rec)
  have init: "initial_fragments stream_filters = {0, 255, 1}" "rb_empty list_roaring = []"
    by (simp_all add: initial_fragments_def stream_filters_def list_roaring_def fragment_names)
  have "[0..<2] = [0, 1::nat]" by (simp add: upt_rec)
  moreover have "u64_mul 2 1 = 2" "u64_mul 1 1 = 1" "u64_mul 0 1 = 0" "u64_add 100 0 = 100" "u64_add 100 1 = 101" "u64_add 101 1 = 102"
    "as_u32 100 = 100" "as_u32 101 = 101" "as_u32 102 = 102"
    by (simp_all add: u64_mul_def u64_add_def u64_lim_def as_u32_def u32_lim_def)
  ultimately show ?thesis
    unfolding send_group_def acc
    using demo_stream_request [of 100 "[100]"]
    by (simp add: demo_stream_filter [unfolded One_nat_def] demo_stream_sel init send_segments.simps Let_def range ibind_def demo_stream_tx)
qed

lemma demo_stream_steps:
  assumes grp: "reader_get_group (sst_store demo_stream) (new_finalized 100) w = (Ok [0], w1)"
  shows "segment_stream_start (Suc (Suc 0)) demo_stream (new_finalized 100) (w, []) =
    (Ok (Reached 103), (w1, [demo_fetch 100 [100], demo_fetch 102 (rb_from_range list_roaring 102 103)]))"
proof -
  have "all_needed stream_filters = {4, 0, 255, 1}"
    by (auto simp: all_needed_def stream_filters_def all_fragment_ids_def demo_filter_def fragment_names)
  then have f: "request_fragments demo_stream (new_finalized 102) (sorted_list_of_set (all_needed stream_filters))
      (segment_access_fetch_new 102 (rb_from_range list_roaring 102 103)) = Ok (demo_fetch 102 (rb_from_range list_roaring 102 103))"
    using demo_stream_request by simp
  note send = demo_stream_send [of w1 "[]"]
  have arith: "u64_mul 2 1 = 2" "u64_mul 1 2 = 2" "u64_add 100 2 = 102" "u64_add 102 2 = 104" "u64_add 102 1 = 103" "as_u32 102 = 102" "as_u32 103 = 103"
    by (simp_all add: u64_mul_def u64_add_def u64_lim_def as_u32_def u32_lim_def)
  have pop: "pop_group demo_stream 2 101 100 100 [] (w, []) = (Ok (102, [], [0]), (w1, []))"
  proof -
    have "GROUP_QUEUE_SIZE = Suc (Suc 2)" by (simp add: GROUP_QUEUE_SIZE_def)
    moreover have "fill_queue (Suc (Suc n)) 2 101 100 [] = (102, [100])" for n by (simp add: arith)
    ultimately have "fill_queue GROUP_QUEUE_SIZE 2 101 100 [] = (102, [100])" by metis
    then show ?thesis by (simp add: pop_group_def ibind_def ichange_def on_world_def grp)
  qed
  have num: "cur_number (new_finalized n) = n" for n by (simp add: new_finalized_def)
  have groups: "stream_groups (Suc (Suc 0)) demo_stream 2 1 101 100 100 [] (w, []) = (Ok (Reached 102), (w1, [demo_fetch 100 [100]]))"
    by (simp add: demo_stream_sel arith [unfolded One_nat_def] pop send [unfolded One_nat_def] ibind_def refresh_grouped_def)
  have segments: "stream_segments (Suc (Suc 0)) demo_stream 1 102 102 (w1, [demo_fetch 100 [100]]) =
      (Ok (Reached 103), (w1, [demo_fetch 100 [100], demo_fetch 102 (rb_from_range list_roaring 102 103)]))"
    by (simp add: demo_stream_sel arith [unfolded One_nat_def] f ibind_def demo_stream_tx Let_def)
  show ?thesis
    by (simp add: segment_stream_start_def demo_stream_view stream_view_def ibind_def ichange_def on_world_def num groups [unfolded One_nat_def]
        segments [unfolded One_nat_def] del: stream_groups.simps stream_segments.simps)
qed

lemma demo_stream_run:
  "\<exists>w' out'. segment_stream_start (Suc (Suc 0)) demo_stream (new_finalized 100) (stream_world, []) = (Ok (Reached 103), (w', out'))"
  using demo_stream_steps demo_stream_group by blast

theorem segment_stream_exact_witness:
  "\<exists>e w' fs. segment_stream_start (Suc (Suc 0)) demo_stream (new_finalized 100) (stream_world, []) = (Ok (Reached e), (w', fs)) \<and>
     102 < e \<and> sorted_wrt (<) (fetched_blocks list_roaring fs) \<and> (\<exists>m. {m..<e} \<subseteq> set (fetched_blocks list_roaring fs))"
proof -
  obtain w' out' where run: "segment_stream_start (Suc (Suc 0)) demo_stream (new_finalized 100) (stream_world, []) = (Ok (Reached 103), (w', out'))"
    using demo_stream_run by blast
  have env: "stream_env demo_stream mw_objects mw_cache"
    unfolding demo_stream_def by (rule mem_stream.stream_env_axioms)
  have ok: "sizes_ok (sst_view demo_stream stream_world) (cur_number (new_finalized 100))"
    using demo_stream_ok(2) by (simp add: new_finalized_def)
  have seg: "\<exists>g. cv_segmented (sst_view demo_stream w) = Some g \<and> 102 \<le> g" for w
    using demo_stream_ok(3) by simp
  show ?thesis
    using segment_stream_exact [OF env demo_stream_ok(1) demo_stream_files ok seg run] run
    by (auto simp: Let_def demo_stream_sel)
qed

text \<open>The blocks of the stored group.\<close>

lemma demo_compacted:
  assumes "stream_groups_of first = Some g"
  shows "compacted_from list_roaring (\<lambda>_ _. 3) 1 (2 * 1) (\<lambda>n. \<lparr>igf_indexes = [demo_block_fragment (if n = 100 then 3 else 7)]\<rparr>) first g"
  unfolding compacted_from_def
proof (intro exI [of _ demo_group] conjI allI impI demo_group_ok)
  have first: "first = 100" "g = demo_built" using assms by (auto simp: stream_groups_of_def split: if_splits)
  show "group_build list_roaring (group_of list_roaring 1 demo_group) = Ok g" using demo_group_built first by simp
  show "cur_number (seg_first_block (hd demo_group)) = first" "cur_number (seg_first_block (last demo_group)) + 1 = first + 2 * 1"
    by (simp_all add: first demo_group_def demo_group_defs)
  fix n
  assume "first \<le> n \<and> n < first + 2 * 1"
  then have "n = 100 \<or> n = 101" using first by auto
  then show "\<exists>sg \<in> set demo_group. \<exists>d \<in> set (seg_data sg). cur_number (fd_cursor d) = n \<and>
      fd_data d = \<lparr>igf_indexes = [demo_block_fragment (if n = 100 then 3 else 7)]\<rparr>"
    by (elim disjE) (simp_all add: demo_group_def demo_segment_def group_cursor_def mk_cursor_def)
qed

theorem segment_stream_no_loss_witness:
  "\<exists>e w' fs. segment_stream_start (Suc (Suc 0)) demo_stream (new_finalized 100) (stream_world, []) = (Ok (Reached e), (w', fs)) \<and>
     100 \<in> set (fetched_blocks list_roaring fs)"
proof -
  obtain w' out' where run: "segment_stream_start (Suc (Suc 0)) demo_stream (new_finalized 100) (stream_world, []) = (Ok (Reached 103), (w', out'))"
    using demo_stream_run by blast
  have env: "stream_env demo_stream mw_objects mw_cache"
    unfolding demo_stream_def by (rule mem_stream.stream_env_axioms)
  have ok: "sizes_ok (sst_view demo_stream stream_world) (cur_number (new_finalized 100))"
    using demo_stream_ok(2) by (simp add: new_finalized_def)
  have seg: "\<exists>g. cv_segmented (sst_view demo_stream w) = Some g \<and> 102 \<le> g" for w
    using demo_stream_ok(3) by simp
  have rows: "\<exists>rows. filter_rows list_roaring demo_filter (demo_block_fragment 3) = Ok rows \<and> rb_iter list_roaring rows \<noteq> []"
    by (simp add: demo_rows) (simp add: list_roaring_def list_iter_def)
  have frag: "ixf_fragment_id (demo_block_fragment 3) = 4" "flt_fragment_id demo_filter = 4"
    "\<forall>e \<in> set (ixf_indexes (demo_block_fragment 3)). ie_index e \<noteq> EmptyI"
    by (simp_all add: demo_block_fragment_def demo_filter_def)
  have "100 \<in> set (fetched_blocks (sst_roaring demo_stream) (drop (length []) out'))"
    using segment_stream_no_loss [OF env demo_stream_ok(1) demo_stream_files ok seg run, of "\<lambda>_ _. 3"
        "\<lambda>n. \<lparr>igf_indexes = [demo_block_fragment (if n = 100 then 3 else 7)]\<rparr>" 100 "hd stream_filters"]
      demo_compacted rows frag
    by (simp add: demo_stream_sel stream_filters_def new_finalized_def)
  then show ?thesis using run by (auto simp: demo_stream_sel)
qed

theorem segment_stream_terminates_witness:
  "fst (segment_stream_start (Suc u32_lim) demo_stream (new_finalized 100) (stream_world, [])) \<noteq> Ok OutOfFuel"
  by (rule segment_stream_terminates [OF demo_stream_ok(1)]) simp

end
