(* ===== verification/Encoding.thy ===== *)
theory Encoding
  imports SegmentStream
begin

text \<open>
  The wire encoding of filtered blocks: the helpers of \<open>common/src/data_stream/stream.rs\<close> that compute
  the size of a block's protobuf message and write it. The varints and keys of the prost crate are a
  parameter; the laws are its documented sizes and that a reader finds what was written. The main
  result is that a message has the announced size and decodes to what was encoded.
\<close>

section \<open>The encoder\<close>

text \<open>\<open>prost::encoding\<close>: \<open>pb_encode_key\<close> is the key of a length-delimited field.\<close>

record prost =
  pb_key_len :: "nat \<Rightarrow> nat"
  pb_encoded_len_varint :: "nat \<Rightarrow> nat"
  pb_encode_key :: "nat \<Rightarrow> bytes"
  pb_encode_varint :: "nat \<Rightarrow> bytes"

definition FILTER_IDS_TAG :: nat where "FILTER_IDS_TAG = 1"

definition checked_add :: "nat \<Rightarrow> nat \<Rightarrow> (nat, data_stream_error) outcome" where
  "checked_add a b = (if a + b < u64_lim then Ok (a + b) else Err DataStreamError)"

definition encoded_length_delimited_field_len :: "prost \<Rightarrow> nat \<Rightarrow> nat \<Rightarrow> (nat, data_stream_error) outcome" where
  "encoded_length_delimited_field_len P tag payload_len =
     obind (checked_add (pb_key_len P tag) (pb_encoded_len_varint P payload_len)) (\<lambda>len. checked_add len payload_len)"

definition encoded_header_len :: "prost \<Rightarrow> nat \<Rightarrow> nat \<Rightarrow> (nat, data_stream_error) outcome" where
  "encoded_header_len P fid data_len = encoded_length_delimited_field_len P fid data_len"

definition encoded_body_item_len_from_parts :: "prost \<Rightarrow> nat \<Rightarrow> nat \<Rightarrow> nat \<Rightarrow> (nat, data_stream_error) outcome" where
  "encoded_body_item_len_from_parts P fid filter_ids_len message_len =
     obind (checked_add filter_ids_len message_len) (\<lambda>payload_len. encoded_length_delimited_field_len P fid payload_len)"

fun packed_payload_loop :: "prost \<Rightarrow> nat \<Rightarrow> filter_id list \<Rightarrow> (nat, data_stream_error) outcome" where
  "packed_payload_loop P len [] = Ok len"
| "packed_payload_loop P len (filter_id # filter_ids) =
     obind (checked_add len (pb_encoded_len_varint P filter_id)) (\<lambda>len. packed_payload_loop P len filter_ids)"

definition packed_filter_ids_payload_len :: "prost \<Rightarrow> filter_id list \<Rightarrow> (nat, data_stream_error) outcome" where
  "packed_filter_ids_payload_len P filter_ids = packed_payload_loop P 0 filter_ids"

definition encoded_filter_ids_len :: "prost \<Rightarrow> filter_id list \<Rightarrow> (nat, data_stream_error) outcome" where
  "encoded_filter_ids_len P filter_ids =
     obind (packed_filter_ids_payload_len P filter_ids) (\<lambda>payload_len.
     if payload_len = 0 then Ok 0 else encoded_length_delimited_field_len P FILTER_IDS_TAG payload_len)"

definition encoded_body_item_len :: "prost \<Rightarrow> nat \<Rightarrow> filter_id list \<Rightarrow> nat \<Rightarrow> (nat, data_stream_error) outcome" where
  "encoded_body_item_len P fid filter_ids message_len =
     obind (encoded_filter_ids_len P filter_ids) (\<lambda>len. encoded_body_item_len_from_parts P fid len message_len)"

definition encode_filter_ids :: "prost \<Rightarrow> filter_id list \<Rightarrow> nat \<Rightarrow> bytes \<Rightarrow> bytes" where
  "encode_filter_ids P filter_ids payload_len output =
     (if payload_len = 0 then output
      else foldl (\<lambda>output filter_id. output @ pb_encode_varint P filter_id)
             (output @ pb_encode_key P FILTER_IDS_TAG @ pb_encode_varint P payload_len) filter_ids)"

definition encode_body_item :: "prost \<Rightarrow> nat \<Rightarrow> filter_id list \<Rightarrow> bytes \<Rightarrow> bytes \<Rightarrow> (bytes, data_stream_error) outcome" where
  "encode_body_item P fid filter_ids message output =
     obind (packed_filter_ids_payload_len P filter_ids) (\<lambda>filter_ids_payload_len.
     obind (if filter_ids_payload_len = 0 then Ok 0
            else encoded_length_delimited_field_len P FILTER_IDS_TAG filter_ids_payload_len) (\<lambda>filter_ids_len.
     obind (checked_add filter_ids_len (length message)) (\<lambda>payload_len.
     Ok (encode_filter_ids P filter_ids filter_ids_payload_len
           (output @ pb_encode_key P fid @ pb_encode_varint P payload_len) @ message))))"

definition encode_header :: "prost \<Rightarrow> nat \<Rightarrow> bytes \<Rightarrow> bytes \<Rightarrow> bytes" where
  "encode_header P fid data output = output @ pb_encode_key P fid @ pb_encode_varint P (length data) @ data"

section \<open>Reading it back\<close>

text \<open>A reader of length-delimited fields over a reader of keys and one of varints; fuel is the length of the
  input.\<close>

type_synonym 'a reader = "bytes \<Rightarrow> ('a \<times> bytes) option"

definition read_field :: "nat reader \<Rightarrow> nat reader \<Rightarrow> (nat \<times> bytes) reader" where
  "read_field key varint bs = (case key bs of
     None \<Rightarrow> None
   | Some (tag, bs) \<Rightarrow>
       (case varint bs of
          None \<Rightarrow> None
        | Some (n, bs) \<Rightarrow> if n \<le> length bs then Some ((tag, take n bs), drop n bs) else None))"

fun read_fields :: "nat \<Rightarrow> nat reader \<Rightarrow> nat reader \<Rightarrow> bytes \<Rightarrow> (nat \<times> bytes) list option" where
  "read_fields 0 key varint bs = (if bs = [] then Some [] else None)"
| "read_fields (Suc fuel) key varint bs =
     (if bs = [] then Some []
      else (case read_field key varint bs of
              None \<Rightarrow> None
            | Some (f, rest) \<Rightarrow> map_option ((#) f) (read_fields fuel key varint rest)))"

fun read_varints :: "nat \<Rightarrow> nat reader \<Rightarrow> bytes \<Rightarrow> nat list option" where
  "read_varints 0 varint bs = (if bs = [] then Some [] else None)"
| "read_varints (Suc fuel) varint bs =
     (if bs = [] then Some []
      else (case varint bs of
              None \<Rightarrow> None
            | Some (n, rest) \<Rightarrow> map_option ((#) n) (read_varints fuel varint rest)))"

text \<open>A body item starts with the packed filter ids; the message follows.\<close>

definition read_body_item :: "nat reader \<Rightarrow> nat reader \<Rightarrow> bytes \<Rightarrow> (filter_id list \<times> bytes) option" where
  "read_body_item key varint payload = (case read_field key varint payload of
     None \<Rightarrow> None
   | Some ((tag, ids), message) \<Rightarrow>
       if tag = FILTER_IDS_TAG then map_option (\<lambda>ids. (ids, message)) (read_varints (length ids) varint ids) else None)"

lemma fuel_step: "1 \<le> a \<Longrightarrow> a + b \<le> fuel \<Longrightarrow> \<exists>k. fuel = Suc k \<and> b \<le> k" for a b fuel :: nat
  by (intro exI [of _ "fuel - 1"]) auto

locale protobuf =
  fixes P :: prost and key varint :: "nat reader"
  assumes key_len: "length (pb_encode_key P tag) = pb_key_len P tag"
    and key_nonempty: "pb_encode_key P tag \<noteq> []"
    and varint_len: "n < u64_lim \<Longrightarrow> length (pb_encode_varint P n) = pb_encoded_len_varint P n"
    and varint_nonempty: "n < u64_lim \<Longrightarrow> pb_encode_varint P n \<noteq> []"
    and read_key: "0 < tag \<Longrightarrow> tag < 2 ^ 29 \<Longrightarrow> key (pb_encode_key P tag @ rest) = Some (tag, rest)"
    and read_varint: "n < u64_lim \<Longrightarrow> varint (pb_encode_varint P n @ rest) = Some (n, rest)"
begin

definition field :: "nat \<Rightarrow> bytes \<Rightarrow> bytes" where
  "field tag data = pb_encode_key P tag @ pb_encode_varint P (length data) @ data"

lemma field_nonempty: "field tag data \<noteq> []"
  using key_nonempty by (simp add: field_def)

lemma field_len_eq:
  assumes "encoded_length_delimited_field_len P tag n = Ok k"
  shows "n < u64_lim" and "k < u64_lim" and "length data = n \<Longrightarrow> length (field tag data) = k"
proof -
  have k: "k = pb_key_len P tag + pb_encoded_len_varint P n + n" "k < u64_lim"
    using assms by (auto simp: encoded_length_delimited_field_len_def checked_add_def split: if_splits)
  then show n: "n < u64_lim" and "k < u64_lim" by auto
  show "length data = n \<Longrightarrow> length (field tag data) = k"
    using k key_len varint_len [OF n] by (simp add: field_def)
qed

lemma read_field_field:
  "0 < tag \<Longrightarrow> tag < 2 ^ 29 \<Longrightarrow> length data < u64_lim \<Longrightarrow> read_field key varint (field tag data @ rest) = Some ((tag, data), rest)"
  by (simp add: read_field_def field_def read_key read_varint)

lemma read_fields_concat:
  assumes "\<forall>(tag, data) \<in> set fs. 0 < tag \<and> tag < 2 ^ 29 \<and> length data < u64_lim"
    and "length (concat (map (\<lambda>(tag, data). field tag data) fs)) \<le> fuel"
  shows "read_fields fuel key varint (concat (map (\<lambda>(tag, data). field tag data) fs)) = Some fs"
  using assms
proof (induction fs arbitrary: fuel)
  case Nil
  then show ?case by (cases fuel) simp_all
next
  case (Cons f fs)
  obtain tag data where f: "f = (tag, data)" by (cases f)
  let ?rest = "concat (map (\<lambda>(tag, data). field tag data) fs)"
  have ne: "field tag data \<noteq> []" by (rule field_nonempty)
  then have "1 \<le> length (field tag data)" by (simp add: Suc_le_eq)
  moreover have "length (field tag data) + length ?rest \<le> fuel" using Cons.prems(2) f by simp
  ultimately obtain k where k: "fuel = Suc k" "length ?rest \<le> k" using fuel_step by blast
  have "read_fields k key varint ?rest = Some fs" using Cons.IH [OF _ k(2)] Cons.prems(1) by simp
  moreover have "read_field key varint (field tag data @ ?rest) = Some ((tag, data), ?rest)"
    using Cons.prems(1) f by (intro read_field_field) auto
  ultimately show ?case using ne by (simp add: f k(1))
qed

lemma read_varints_concat:
  assumes "\<forall>n \<in> set ns. n < u64_lim" and "length (concat (map (pb_encode_varint P) ns)) \<le> fuel"
  shows "read_varints fuel varint (concat (map (pb_encode_varint P) ns)) = Some ns"
  using assms
proof (induction ns arbitrary: fuel)
  case Nil
  then show ?case by (cases fuel) simp_all
next
  case (Cons n ns)
  have ne: "pb_encode_varint P n \<noteq> []" using varint_nonempty Cons.prems(1) by simp
  then have "1 \<le> length (pb_encode_varint P n)" by (simp add: Suc_le_eq)
  moreover have "length (pb_encode_varint P n) + length (concat (map (pb_encode_varint P) ns)) \<le> fuel" using Cons.prems(2) by simp
  ultimately obtain k where k: "fuel = Suc k" "length (concat (map (pb_encode_varint P) ns)) \<le> k"
    using fuel_step by blast
  then show ?case using Cons.IH [OF _ k(2)] Cons.prems(1) ne by (simp add: read_varint)
qed

lemma packed_payload_eq:
  assumes "packed_payload_loop P len ids = Ok n" and "\<forall>i \<in> set ids. i < u64_lim"
  shows "n = len + length (concat (map (pb_encode_varint P) ids))"
  using assms
proof (induction ids arbitrary: len)
  case (Cons i ids)
  then have "packed_payload_loop P (len + pb_encoded_len_varint P i) ids = Ok n"
    by (auto simp: outcome_simps checked_add_def split: if_splits)
  from Cons.IH [OF this] show ?case using Cons.prems(2) varint_len by simp
qed simp

text \<open>The payload of a body item.\<close>

definition item_payload :: "filter_id list \<Rightarrow> bytes \<Rightarrow> bytes" where
  "item_payload ids message = (if ids = [] then [] else field FILTER_IDS_TAG (concat (map (pb_encode_varint P) ids))) @ message"

lemma foldl_append: "foldl (\<lambda>out x. out @ f x) out xs = out @ concat (map f xs)"
  by (induction xs arbitrary: out) simp_all

lemma item_len:
  assumes "encoded_body_item_len P fid ids (length message) = Ok n" and "\<forall>i \<in> set ids. i < u64_lim"
  shows "encode_body_item P fid ids message out = Ok (out @ field fid (item_payload ids message))"
    and "length (field fid (item_payload ids message)) = n" and "length (item_payload ids message) < u64_lim"
proof -
  let ?packed = "concat (map (pb_encode_varint P) ids)"
  obtain p k where p: "packed_filter_ids_payload_len P ids = Ok p"
    and k: "(if p = 0 then Ok 0 else encoded_length_delimited_field_len P FILTER_IDS_TAG p) = Ok k"
    and n: "encoded_body_item_len_from_parts P fid k (length message) = Ok n"
    using assms(1) by (auto simp: encoded_body_item_len_def encoded_filter_ids_len_def outcome_simps)
  have len: "p = length ?packed" using packed_payload_eq assms(2) p by (fastforce simp: packed_filter_ids_payload_len_def)
  have zero: "p = 0 \<longleftrightarrow> ids = []" using assms(2) varint_nonempty by (cases ids) (simp_all add: len)
  have kl: "k = length (item_payload ids [])"
  proof (cases "ids = []")
    case True
    then show ?thesis using k zero by (simp add: item_payload_def)
  next
    case False
    then have "encoded_length_delimited_field_len P FILTER_IDS_TAG p = Ok k" using k zero by simp
    from field_len_eq(3) [OF this len [symmetric]] False show ?thesis by (simp add: item_payload_def)
  qed
  have sum: "k + length message < u64_lim" and total: "encoded_length_delimited_field_len P fid (k + length message) = Ok n"
    using n by (simp_all add: encoded_body_item_len_from_parts_def checked_add_def split: if_splits)
  have payload: "length (item_payload ids message) = k + length message" by (simp add: kl item_payload_def)
  show "length (field fid (item_payload ids message)) = n" using field_len_eq(3) [OF total payload] .
  show "length (item_payload ids message) < u64_lim" using payload sum by simp
  show "encode_body_item P fid ids message out = Ok (out @ field fid (item_payload ids message))"
  proof (cases "ids = []")
    case True
    then show ?thesis
      using p k zero sum by (simp add: encode_body_item_def checked_add_def encode_filter_ids_def field_def item_payload_def)
  next
    case False
    then have ne: "p \<noteq> 0" using zero by simp
    then have "encode_body_item P fid ids message out = Ok (out @ pb_encode_key P fid @ pb_encode_varint P (k + length message) @
        pb_encode_key P FILTER_IDS_TAG @ pb_encode_varint P p @ ?packed @ message)"
      using p k sum by (simp add: encode_body_item_def checked_add_def encode_filter_ids_def foldl_append)
    then show ?thesis
      using False unfolding field_def payload by (simp add: item_payload_def field_def len)
  qed
qed

lemma read_item:
  assumes "ids \<noteq> []" and "\<forall>i \<in> set ids. i < u64_lim" and "length (item_payload ids message) < u64_lim"
  shows "read_body_item key varint (item_payload ids message) = Some (ids, message)"
proof -
  let ?packed = "concat (map (pb_encode_varint P) ids)"
  have "length ?packed < u64_lim" using assms(1,3) by (simp add: item_payload_def field_def)
  then show ?thesis
    using assms(1,2) read_field_field [of FILTER_IDS_TAG ?packed message] read_varints_concat [of ids "length ?packed"]
    by (simp add: read_body_item_def item_payload_def FILTER_IDS_TAG_def)
qed

end

section \<open>Base 128 varints\<close>

function leb128 :: "nat \<Rightarrow> bytes" where
  "leb128 n = (if n < 128 then [word_of_nat n] else word_of_nat (n mod 128 + 128) # leb128 (n div 128))"
  by pat_completeness auto
termination
  by (relation "measure id") auto

declare leb128.simps [simp del]

fun read_leb128 :: "nat reader" where
  "read_leb128 [] = None"
| "read_leb128 (b # bs) =
     (if unat b < 128 then Some (unat b, bs)
      else map_option (\<lambda>(n, rest). (unat b - 128 + 128 * n, rest)) (read_leb128 bs))"

definition read_leb128_key :: "nat reader" where
  "read_leb128_key bs = (case read_leb128 bs of
     Some (n, rest) \<Rightarrow> if n mod 8 = 2 then Some (n div 8, rest) else None
   | None \<Rightarrow> None)"

definition leb128_prost :: prost where
  "leb128_prost = \<lparr>pb_key_len = (\<lambda>tag. length (leb128 (tag * 8 + 2))), pb_encoded_len_varint = (\<lambda>n. length (leb128 n)),
     pb_encode_key = (\<lambda>tag. leb128 (tag * 8 + 2)), pb_encode_varint = leb128\<rparr>"

lemma leb128_nonempty: "leb128 n \<noteq> []"
  by (subst leb128.simps) simp

lemma unat_byte: "m < 256 \<Longrightarrow> unat (word_of_nat m :: u8) = m"
  by (simp add: unat_of_nat)

lemma read_leb128_written: "read_leb128 (leb128 n @ rest) = Some (n, rest)"
proof (induction n rule: leb128.induct)
  case (1 n)
  show ?case
  proof (cases "n < 128")
    case True
    then have "unat (word_of_nat n :: u8) = n" by (simp add: unat_byte)
    then show ?thesis using True by (subst leb128.simps) simp
  next
    case False
    have "unat (word_of_nat (n mod 128 + 128) :: u8) = n mod 128 + 128" by (rule unat_byte) simp
    then show ?thesis using False 1 [OF False] by (subst leb128.simps) (simp del: of_nat_add)
  qed
qed

interpretation leb: protobuf leb128_prost read_leb128_key read_leb128
proof
  fix tag :: nat and rest
  have "Suc (Suc (tag * 8)) mod 8 = 2" "Suc (Suc (tag * 8)) div 8 = tag" by presburger+
  then show "read_leb128_key (pb_encode_key leb128_prost tag @ rest) = Some (tag, rest)"
    by (simp add: leb128_prost_def read_leb128_key_def read_leb128_written)
qed (simp_all add: leb128_prost_def read_leb128_written leb128_nonempty)

end
