(* ===== verification/FilterFragment.thy ===== *)
theory FilterFragment
  imports Encoding
begin

text \<open>
  Filtering a block: \<open>DataStream::filter_fragment\<close> of \<open>common/src/data_stream/stream.rs\<close>. For every block
  filter of the client the matching rows are collected per fragment, extended along the joins, and
  encoded with the header. The main results are that the encoded message decodes to exactly the
  selected rows with the filters that select them, and that it is the same whether the block
  is read from its segment or on its own.
\<close>

section \<open>The filter\<close>

text \<open>\<open>fe_id_order\<close> is the iteration order of the hash sets of filter ids.\<close>

record 'b filter_env =
  fe_serde :: segment_serde
  fe_roaring :: "'b roaring"
  fe_prost :: prost
  fe_id_order :: "filter_id set \<Rightarrow> filter_id list"
  fe_names :: "fragment_id \<rightharpoonup> string"

type_synonym fragment_matches = "(fragment_id, filter_match) btree_map"
type_synonym join_matches = "(fragment_id \<times> fragment_id, filter_match) btree_map"

definition add_joins ::
  "'b roaring \<Rightarrow> fragment_id \<Rightarrow> block_item_filter \<Rightarrow> 'b \<Rightarrow> join_matches \<Rightarrow> join_matches" where
  "add_joins R fid flt rows joins =
     foldl (\<lambda>joins target. bt_entry [] (fid, target) (add_match R (flt_filter_id flt) rows) joins) joins (flt_joins flt)"

fun match_filters ::
  "'b roaring \<Rightarrow> fragment_id \<Rightarrow> index_fragment \<Rightarrow> block_item_filter list \<Rightarrow> filter_match \<times> join_matches
    \<Rightarrow> (filter_match \<times> join_matches, data_stream_error) outcome" where
  "match_filters R fid indexes [] (fm, joins) = Ok (fm, joins)"
| "match_filters R fid indexes (flt # flts) (fm, joins) =
     obind (map_err (\<lambda>_. DataStreamError) (filter_rows R flt indexes)) (\<lambda>rows.
     let fm = add_match R (flt_filter_id flt) rows fm in
     if rb_iter R rows = [] then match_filters R fid indexes flts (fm, joins)
     else match_filters R fid indexes flts (fm, add_joins R fid flt rows joins))"

fun match_fragments ::
  "'b filter_env \<Rightarrow> 'b fragment_access \<Rightarrow> (fragment_id \<times> block_item_filter list) list \<Rightarrow> fragment_matches \<times> join_matches
    \<Rightarrow> (fragment_matches \<times> join_matches, data_stream_error) outcome" where
  "match_fragments env access [] acc = Ok acc"
| "match_fragments env access ((fid, flts) # fs) (matches, joins) =
     obind (map_err (\<lambda>_. DataStreamError) (get_index_fragment (fe_serde env) fid access)) (\<lambda>indexes.
     obind (match_filters (fe_roaring env) fid indexes flts ([], joins)) (\<lambda>(fm, joins).
     match_fragments env access fs (if fm = [] then matches else bt_insert fid fm matches, joins)))"

fun join_to_one ::
  "'b filter_env \<Rightarrow> join_to_one_index \<Rightarrow> filter_match \<Rightarrow> filter_match \<Rightarrow> (filter_match, data_stream_error) outcome" where
  "join_to_one env inner [] target = Ok target"
| "join_to_one env inner ((row, ids) # fm) target =
     obind (join_one_get inner row) (\<lambda>found.
     join_to_one env inner fm
       (case found of
          None \<Rightarrow> target
        | Some ix \<Rightarrow> foldl (\<lambda>target filter_id. add_single_match filter_id ix target) target (fe_id_order env ids)))"

fun join_to_many ::
  "'b filter_env \<Rightarrow> join_to_many_index \<Rightarrow> filter_match \<Rightarrow> filter_match \<Rightarrow> (filter_match, data_stream_error) outcome" where
  "join_to_many env inner [] target = Ok target"
| "join_to_many env inner ((row, ids) # fm) target =
     obind (join_many_get (fe_roaring env) inner row) (\<lambda>found.
     join_to_many env inner fm
       (case found of
          None \<Rightarrow> target
        | Some bitmap \<Rightarrow> foldl (\<lambda>target filter_id. add_match (fe_roaring env) filter_id bitmap target) target (fe_id_order env ids)))"

definition join_match ::
  "'b filter_env \<Rightarrow> join_to \<Rightarrow> filter_match \<Rightarrow> filter_match \<Rightarrow> (filter_match, data_stream_error) outcome" where
  "join_match env ix fm target = (case ix of
     JoinOne inner \<Rightarrow> join_to_one env inner fm target
   | JoinMany inner \<Rightarrow> join_to_many env inner fm target)"

fun apply_joins ::
  "'b filter_env \<Rightarrow> 'b fragment_access \<Rightarrow> ((fragment_id \<times> fragment_id) \<times> filter_match) list \<Rightarrow> fragment_matches
    \<Rightarrow> (fragment_matches, data_stream_error) outcome" where
  "apply_joins env access [] matches = Ok matches"
| "apply_joins env access (((source, target), fm) # joins) matches =
     obind (map_err (\<lambda>_. DataStreamError) (get_join_fragment (fe_serde env) source access)) (\<lambda>join_fragment.
     obind (map_err (\<lambda>_. DataStreamError) (find_fragment je_to_fragment_id target (jf_joins join_fragment))) (\<lambda>join.
     obind (join_match env (je_index join) fm (bt_get_or [] matches target)) (\<lambda>target_matches.
     apply_joins env access joins (bt_insert target target_matches matches))))"

definition should_send_header :: "block_filter \<Rightarrow> bool \<Rightarrow> fragment_matches \<Rightarrow> bool" where
  "should_send_header bf is_live matches = (case blf_header_filter bf of
     Always \<Rightarrow> True
   | OnData \<Rightarrow> matches \<noteq> []
   | OnDataOrOnNewBlock \<Rightarrow> matches \<noteq> [] \<or> is_live)"

fun matched_bodies ::
  "'b filter_env \<Rightarrow> 'b fragment_access \<Rightarrow> fragment_matches
    \<Rightarrow> ((fragment_id \<times> body_fragment \<times> filter_match) list, data_stream_error) outcome" where
  "matched_bodies env access [] = Ok []"
| "matched_bodies env access ((fid, fm) # matches) =
     (case fe_names env fid of
        None \<Rightarrow> Err DataStreamError
      | Some name \<Rightarrow>
          obind (map_err (\<lambda>_. DataStreamError) (get_body_fragment (fe_serde env) fid access)) (\<lambda>body.
          obind (matched_bodies env access matches) (\<lambda>bodies. Ok ((fid, body, fm) # bodies))))"

fun items_len ::
  "'b filter_env \<Rightarrow> fragment_id \<Rightarrow> body_fragment \<Rightarrow> filter_match \<Rightarrow> nat \<Rightarrow> (nat, data_stream_error) outcome" where
  "items_len env fid body [] encoded_size = Ok encoded_size"
| "items_len env fid body ((row, ids) # fm) encoded_size =
     obind (fetch (bf_data body) row) (\<lambda>message_bytes.
     obind (encoded_body_item_len (fe_prost env) fid (fe_id_order env ids) (length message_bytes)) (\<lambda>len.
     obind (checked_add encoded_size len) (\<lambda>encoded_size. items_len env fid body fm encoded_size)))"

fun bodies_len ::
  "'b filter_env \<Rightarrow> (fragment_id \<times> body_fragment \<times> filter_match) list \<Rightarrow> nat \<Rightarrow> (nat, data_stream_error) outcome" where
  "bodies_len env [] encoded_size = Ok encoded_size"
| "bodies_len env ((fid, body, fm) # bodies) encoded_size =
     obind (items_len env fid body fm encoded_size) (\<lambda>encoded_size. bodies_len env bodies encoded_size)"

fun encode_items ::
  "'b filter_env \<Rightarrow> fragment_id \<Rightarrow> body_fragment \<Rightarrow> filter_match \<Rightarrow> bytes \<Rightarrow> (bytes, data_stream_error) outcome" where
  "encode_items env fid body [] data_buffer = Ok data_buffer"
| "encode_items env fid body ((row, ids) # fm) data_buffer =
     obind (fetch (bf_data body) row) (\<lambda>message_bytes.
     obind (encode_body_item (fe_prost env) fid (fe_id_order env ids) message_bytes data_buffer) (\<lambda>data_buffer.
     encode_items env fid body fm data_buffer))"

fun encode_bodies ::
  "'b filter_env \<Rightarrow> (fragment_id \<times> body_fragment \<times> filter_match) list \<Rightarrow> bytes \<Rightarrow> (bytes, data_stream_error) outcome" where
  "encode_bodies env [] data_buffer = Ok data_buffer"
| "encode_bodies env ((fid, body, fm) # bodies) data_buffer =
     obind (encode_items env fid body fm data_buffer) (\<lambda>data_buffer. encode_bodies env bodies data_buffer)"

definition block_matches ::
  "'b filter_env \<Rightarrow> 'b fragment_access \<Rightarrow> block_filter \<Rightarrow> (fragment_matches, data_stream_error) outcome" where
  "block_matches env access bf =
     obind (match_fragments env access (blf_filters bf) ([], [])) (\<lambda>(matches, joins).
     apply_joins env access joins matches)"

text \<open>One round of the loop over the block filters. The size is computed first; it is the capacity of the
  buffer.\<close>

definition filter_block ::
  "'b filter_env \<Rightarrow> 'b fragment_access \<Rightarrow> bool \<Rightarrow> block_filter \<Rightarrow> (bytes, data_stream_error) outcome" where
  "filter_block env access is_live bf =
     obind (block_matches env access bf) (\<lambda>matches.
     obind (if should_send_header bf is_live matches
            then obind (map_err (\<lambda>_. DataStreamError) (get_header_fragment (fe_serde env) access)) (\<lambda>header. Ok (Some header))
            else Ok None) (\<lambda>header.
     obind (matched_bodies env access matches) (\<lambda>matched_fragments.
     obind (case header of
              Some h \<Rightarrow> encoded_header_len (fe_prost env) HEADER_FRAGMENT_ID (length (hf_data h))
            | None \<Rightarrow> Ok 0) (\<lambda>encoded_size.
     obind (bodies_len env matched_fragments encoded_size) (\<lambda>encoded_size.
     encode_bodies env matched_fragments
       (case header of Some h \<Rightarrow> encode_header (fe_prost env) HEADER_FRAGMENT_ID (hf_data h) [] | None \<Rightarrow> []))))))"

fun filter_loop_blocks ::
  "'b filter_env \<Rightarrow> 'b fragment_access \<Rightarrow> bool \<Rightarrow> block_filter list \<Rightarrow> bool \<times> bytes list
    \<Rightarrow> (bool \<times> bytes list, data_stream_error) outcome" where
  "filter_loop_blocks env access is_live [] (has_data, output) = Ok (has_data, output)"
| "filter_loop_blocks env access is_live (bf # bfs) (has_data, output) =
     obind (filter_block env access is_live bf) (\<lambda>data_buffer.
     filter_loop_blocks env access is_live bfs (has_data \<or> data_buffer \<noteq> [], output @ [data_buffer]))"

definition filter_fragment ::
  "'b filter_env \<Rightarrow> block_filter list \<Rightarrow> 'b fragment_access \<Rightarrow> bool \<Rightarrow> (bool \<times> bytes list, data_stream_error) outcome" where
  "filter_fragment env bfs access is_live = filter_loop_blocks env access is_live bfs (False, [])"

section \<open>What is matched\<close>

text \<open>Matches per key, of fragments and of joins.\<close>

definition matches_ok :: "('k :: linorder, filter_match) btree_map \<Rightarrow> bool" where
  "matches_ok m \<longleftrightarrow> bt_ok m \<and> (\<forall>k fm. bt_get m k = Some fm \<longrightarrow> match_ok fm)"

definition matched_at :: "('k, filter_match) btree_map \<Rightarrow> 'k \<Rightarrow> (nat \<times> filter_id) set" where
  "matched_at m k = matched (bt_get_or [] m k)"

lemma matches_ok_Nil [simp]: "matches_ok []" and matched_at_Nil [simp]: "matched_at [] k = {}"
  by (simp_all add: matches_ok_def matched_at_def bt_get_or_def)

lemma matches_ok_get_or: "matches_ok m \<Longrightarrow> match_ok (bt_get_or [] m k)"
  by (auto simp: matches_ok_def bt_get_or_def split: option.splits)

lemma matches_ok_insert: "matches_ok m \<Longrightarrow> match_ok fm \<Longrightarrow> matches_ok (bt_insert k fm m)"
  by (auto simp: matches_ok_def)

lemma matched_at_insert: "matches_ok m \<Longrightarrow> matched_at (bt_insert k fm m) k' = (if k' = k then matched fm else matched_at m k')"
  by (simp add: matches_ok_def matched_at_def)

lemma match_mem: "match_ok fm \<Longrightarrow> (\<exists>ids. (row, ids) \<in> set fm \<and> i \<in> ids) \<longleftrightarrow> (row, i) \<in> matched fm"
  by (auto simp: match_ok_def matched_def bt_get_iff_mem)

lemma add_joins_spec:
  assumes "matches_ok joins"
  shows "matches_ok (add_joins R fid flt rows joins) \<and>
    (\<forall>s t. matched_at (add_joins R fid flt rows joins) (s, t) = matched_at joins (s, t) \<union>
       (if s = fid \<and> t \<in> set (flt_joins flt) then set (rb_iter R rows) \<times> {flt_filter_id flt} else {}))"
proof -
  have "matches_ok (foldl (\<lambda>joins target. bt_entry [] (fid, target) (add_match R i rows) joins) joins ts) \<and>
      (\<forall>s t. matched_at (foldl (\<lambda>joins target. bt_entry [] (fid, target) (add_match R i rows) joins) joins ts) (s, t) =
         matched_at joins (s, t) \<union> (if s = fid \<and> t \<in> set ts then set (rb_iter R rows) \<times> {i} else {}))" for ts i
    using assms
  proof (induction ts arbitrary: joins)
    case (Cons t ts)
    have ok: "match_ok (bt_get_or [] joins (fid, t))" using matches_ok_get_or Cons.prems by blast
    let ?j = "bt_entry [] (fid, t) (add_match R i rows) joins"
    have j: "matches_ok ?j" using matches_ok_insert [OF Cons.prems add_match_ok [OF ok]] by (simp add: bt_entry_def)
    have "matched_at ?j (a, b) = matched_at joins (a, b) \<union> (if a = fid \<and> b = t then set (rb_iter R rows) \<times> {i} else {})" for a b
      unfolding bt_entry_def matched_at_insert [OF Cons.prems] matched_add_match [OF ok] by (simp add: matched_at_def)
    then show ?case using Cons.IH [OF j] by auto
  qed simp
  then show ?thesis by (simp add: add_joins_def)
qed

lemma match_filters_spec:
  assumes "match_filters R fid ixs flts (fm, joins) = Ok (fm', joins')" and "match_ok fm" and "matches_ok joins"
  shows "match_ok fm' \<and> matches_ok joins' \<and>
    matched fm' = matched fm \<union> {(row, i). \<exists>flt \<in> set flts. i = flt_filter_id flt \<and> row \<in> rows_of R flt ixs} \<and>
    (\<forall>s t. matched_at joins' (s, t) = matched_at joins (s, t) \<union>
       {(row, i). s = fid \<and> (\<exists>flt \<in> set flts. t \<in> set (flt_joins flt) \<and> i = flt_filter_id flt \<and> row \<in> rows_of R flt ixs)})"
  using assms
proof (induction flts arbitrary: fm joins)
  case (Cons flt flts)
  then obtain rows where rows: "filter_rows R flt ixs = Ok rows" by (auto simp: outcome_simps)
  then have r: "rows_of R flt ixs = set (rb_iter R rows)" by (simp add: rows_of_def)
  let ?fm = "add_match R (flt_filter_id flt) rows fm"
  have fm: "match_ok ?fm" "matched ?fm = matched fm \<union> set (rb_iter R rows) \<times> {flt_filter_id flt}"
    using Cons.prems(2) by (simp_all add: matched_add_match)
  show ?case
  proof (cases "rb_iter R rows = []")
    case True
    then have "match_filters R fid ixs flts (?fm, joins) = Ok (fm', joins')" using Cons.prems(1) rows by (simp add: Let_def)
    from Cons.IH [OF this fm(1) Cons.prems(3)] show ?thesis using fm(2) r True by auto
  next
    case False
    then have "match_filters R fid ixs flts (?fm, add_joins R fid flt rows joins) = Ok (fm', joins')"
      using Cons.prems(1) rows by (simp add: Let_def)
    note IH = Cons.IH [OF this fm(1)] and j = add_joins_spec [OF Cons.prems(3), of R fid flt rows]
    have "matched_at joins' (s, t) = matched_at joins (s, t) \<union>
       {(row, i). s = fid \<and> (\<exists>flt \<in> set (flt # flts). t \<in> set (flt_joins flt) \<and> i = flt_filter_id flt \<and> row \<in> rows_of R flt ixs)}" for s t
      using IH j r by (auto split: if_splits)
    then show ?thesis using IH j fm(2) r by auto
  qed
qed simp

text \<open>The rows of a filter by the block's index of a fragment, and the rows a row is joined with.\<close>

definition rows_at :: "'b filter_env \<Rightarrow> 'b fragment_access \<Rightarrow> fragment_id \<Rightarrow> block_item_filter \<Rightarrow> nat set" where
  "rows_at env access fid flt =
     (case get_index_fragment (fe_serde env) fid access of Ok ixs \<Rightarrow> rows_of (fe_roaring env) flt ixs | _ \<Rightarrow> {})"

definition join_rows :: "'b roaring \<Rightarrow> join_to \<Rightarrow> nat \<Rightarrow> nat set" where
  "join_rows R ix row = (case ix of
     JoinOne inner \<Rightarrow> (case (join_one_get inner row :: (_, data_stream_error) outcome) of Ok (Some i) \<Rightarrow> {i} | _ \<Rightarrow> {})
   | JoinMany inner \<Rightarrow>
       (case (join_many_get R inner row :: (_, data_stream_error) outcome) of Ok (Some b) \<Rightarrow> set (rb_iter R b) | _ \<Rightarrow> {}))"

definition joined_at :: "'b filter_env \<Rightarrow> 'b fragment_access \<Rightarrow> fragment_id \<Rightarrow> fragment_id \<Rightarrow> nat \<Rightarrow> nat set" where
  "joined_at env access s t row = (case get_join_fragment (fe_serde env) s access of
     Ok jf \<Rightarrow> (case find_fragment je_to_fragment_id t (jf_joins jf) of Ok j \<Rightarrow> join_rows (fe_roaring env) (je_index j) row | _ \<Rightarrow> {})
   | _ \<Rightarrow> {})"

text \<open>What a block filter selects in a fragment, with the id of the selecting filter: the rows of the filters
  on that fragment, and the rows joined to those of a filter on another one.\<close>

definition direct :: "'b filter_env \<Rightarrow> 'b fragment_access \<Rightarrow> (fragment_id \<times> block_item_filter list) list \<Rightarrow> fragment_id \<Rightarrow> (nat \<times> filter_id) set" where
  "direct env access fs fid = {(row, i). \<exists>flts flt. (fid, flts) \<in> set fs \<and> flt \<in> set flts \<and> i = flt_filter_id flt \<and> row \<in> rows_at env access fid flt}"

definition join_sources ::
  "'b filter_env \<Rightarrow> 'b fragment_access \<Rightarrow> (fragment_id \<times> block_item_filter list) list \<Rightarrow> fragment_id \<Rightarrow> fragment_id \<Rightarrow> (nat \<times> filter_id) set" where
  "join_sources env access fs s t = {(row, i). \<exists>flts flt. (s, flts) \<in> set fs \<and> flt \<in> set flts \<and> t \<in> set (flt_joins flt) \<and>
     i = flt_filter_id flt \<and> row \<in> rows_at env access s flt}"

definition selected :: "'b filter_env \<Rightarrow> 'b fragment_access \<Rightarrow> block_filter \<Rightarrow> fragment_id \<Rightarrow> (nat \<times> filter_id) set" where
  "selected env access bf fid = direct env access (blf_filters bf) fid \<union>
     {(row, i). \<exists>s row'. (row', i) \<in> join_sources env access (blf_filters bf) s fid \<and> row \<in> joined_at env access s fid row'}"

lemma match_fragments_spec:
  assumes "match_fragments env access fs (matches, joins) = Ok (matches', joins')"
    and "matches_ok matches" and "matches_ok joins" and "distinct (map fst fs)" and "\<forall>f \<in> set (map fst fs). bt_get matches f = None"
    and "\<forall>f. bt_get matches f \<noteq> Some []"
  shows "matches_ok matches' \<and> matches_ok joins' \<and> (\<forall>f. bt_get matches' f \<noteq> Some []) \<and>
    (\<forall>f. matched_at matches' f = matched_at matches f \<union> direct env access fs f) \<and>
    (\<forall>s t. matched_at joins' (s, t) = matched_at joins (s, t) \<union> join_sources env access fs s t)"
  using assms
proof (induction fs arbitrary: matches joins)
  case Nil
  then show ?case by (auto simp: direct_def join_sources_def)
next
  case (Cons x fs)
  obtain fid flts where x: "x = (fid, flts)" by (cases x)
  then obtain ixs fm j1 where ixs: "get_index_fragment (fe_serde env) fid access = Ok ixs"
    and step: "match_filters (fe_roaring env) fid ixs flts ([], joins) = Ok (fm, j1)"
    and rest: "match_fragments env access fs (if fm = [] then matches else bt_insert fid fm matches, j1) = Ok (matches', joins')"
    using Cons.prems(1) by (auto simp: outcome_simps)
  note f = match_filters_spec [OF step match_ok_Nil Cons.prems(3)]
  let ?m = "if fm = [] then matches else bt_insert fid fm matches"
  have none: "bt_get matches fid = None" using Cons.prems(5) x by simp
  have m: "matches_ok ?m" using f Cons.prems(2) matches_ok_insert by auto
  have bt: "bt_ok matches" using Cons.prems(2) by (simp add: matches_ok_def)
  have sep: "\<forall>g \<in> set (map fst fs). bt_get ?m g = None" "\<forall>g. bt_get ?m g \<noteq> Some []" "distinct (map fst fs)"
    using Cons.prems(4-6) x bt by auto
  have here: "matched fm = {(row, i). \<exists>flt \<in> set flts. i = flt_filter_id flt \<and> row \<in> rows_at env access fid flt}"
    using f ixs by (simp add: rows_at_def)
  have at: "matched_at ?m g = matched_at matches g \<union> (if g = fid then matched fm else {})" for g
  proof (cases "fm = []")
    case False
    have "matched_at matches fid = {}" using none by (simp add: matched_at_def bt_get_or_def)
    then show ?thesis using False matched_at_insert [OF Cons.prems(2), of fid fm g] by simp
  qed simp
  have direct: "direct env access (x # fs) g = (if g = fid then matched fm else {}) \<union> direct env access fs g" for g
    unfolding here x direct_def by (cases "g = fid") auto
  have "rows_at env access fid flt = rows_of (fe_roaring env) flt ixs" for flt using ixs by (simp add: rows_at_def)
  then have js: "join_sources env access (x # fs) s t = {(row, i). s = fid \<and> (\<exists>flt \<in> set flts. t \<in> set (flt_joins flt) \<and>
      i = flt_filter_id flt \<and> row \<in> rows_of (fe_roaring env) flt ixs)} \<union> join_sources env access fs s t" for s t
    unfolding x join_sources_def by (cases "s = fid") auto
  note IH = Cons.IH [OF rest m _ sep(3,1,2)]
  show ?case using IH f unfolding direct js at by (simp add: Un_assoc)
qed

text \<open>Joins are only recorded for filters that select a row.\<close>

definition no_empty :: "('k, filter_match) btree_map \<Rightarrow> bool" where
  "no_empty m \<longleftrightarrow> (\<forall>k. bt_get m k \<noteq> Some [])"

lemma add_joins_no_empty:
  assumes "matches_ok joins" and "no_empty joins" and "rb_iter R rows \<noteq> []"
  shows "no_empty (add_joins R fid flt rows joins)"
proof -
  have "no_empty (foldl (\<lambda>joins target. bt_entry [] (fid, target) (add_match R i rows) joins) joins ts)" for ts i
    using assms(1,2)
  proof (induction ts arbitrary: joins)
    case (Cons t ts)
    have ok: "match_ok (bt_get_or [] joins (fid, t))" using matches_ok_get_or Cons.prems(1) by blast
    have "matched (add_match R i rows (bt_get_or [] joins (fid, t))) \<noteq> {}"
      using assms(3) by (simp add: matched_add_match [OF ok])
    then have ne: "add_match R i rows (bt_get_or [] joins (fid, t)) \<noteq> []" by (metis matched_Nil)
    let ?j = "bt_entry [] (fid, t) (add_match R i rows) joins"
    have "matches_ok ?j" using matches_ok_insert [OF Cons.prems(1) add_match_ok [OF ok]] by (simp add: bt_entry_def)
    moreover have "no_empty ?j" using Cons.prems ne by (auto simp: no_empty_def matches_ok_def)
    ultimately show ?case using Cons.IH by simp
  qed simp
  then show ?thesis by (simp add: add_joins_def)
qed

lemma match_filters_no_empty:
  assumes "match_filters R fid ixs flts (fm, joins) = Ok (fm', joins')" and "matches_ok joins" and "no_empty joins"
  shows "no_empty joins'"
  using assms
proof (induction flts arbitrary: fm joins)
  case (Cons flt flts)
  then obtain rows where rows: "filter_rows R flt ixs = Ok rows" by (auto simp: outcome_simps)
  show ?case
  proof (cases "rb_iter R rows = []")
    case True
    then show ?thesis using Cons rows by (auto simp: Let_def)
  next
    case False
    then have "match_filters R fid ixs flts (add_match R (flt_filter_id flt) rows fm, add_joins R fid flt rows joins) = Ok (fm', joins')"
      using Cons.prems(1) rows by (simp add: Let_def)
    from Cons.IH [OF this conjunct1 [OF add_joins_spec [OF Cons.prems(2)]] add_joins_no_empty [OF Cons.prems(2,3) False]]
    show ?thesis .
  qed
qed simp

lemma match_fragments_no_empty:
  assumes "match_fragments env access fs (matches, joins) = Ok (matches', joins')" and "matches_ok joins" and "no_empty joins"
  shows "no_empty joins'"
  using assms
proof (induction fs arbitrary: matches joins)
  case (Cons x fs)
  obtain fid flts where x: "x = (fid, flts)" by (cases x)
  then obtain ixs fm j1 where step: "match_filters (fe_roaring env) fid ixs flts ([], joins) = Ok (fm, j1)"
    and rest: "match_fragments env access fs (if fm = [] then matches else bt_insert fid fm matches, j1) = Ok (matches', joins')"
    using Cons.prems(1) by (auto simp: outcome_simps)
  then show ?case
    using Cons.IH match_filters_spec [OF step match_ok_Nil Cons.prems(2)] match_filters_no_empty [OF step Cons.prems(2,3)] by blast
qed simp

lemma joins_not_empty:
  assumes "match_fragments env access fs ([], []) = Ok (m, j)"
  shows "no_empty j"
  using match_fragments_no_empty [OF assms matches_ok_Nil] by (simp add: no_empty_def)

section \<open>Joins\<close>

definition order_ok :: "(filter_id set \<Rightarrow> filter_id list) \<Rightarrow> bool" where
  "order_ok order \<longleftrightarrow> (\<forall>S. finite S \<longrightarrow> set (order S) = S \<and> distinct (order S))"

lemma add_matches_ids:
  "match_ok m \<Longrightarrow> match_ok (foldl (\<lambda>m i. add_match R i b m) m ids) \<and>
    matched (foldl (\<lambda>m i. add_match R i b m) m ids) = matched m \<union> set (rb_iter R b) \<times> set ids"
  by (induction ids arbitrary: m) (auto simp: matched_add_match)

lemma add_single_ids:
  "match_ok m \<Longrightarrow> match_ok (foldl (\<lambda>m i. add_single_match i ix m) m ids) \<and>
    matched (foldl (\<lambda>m i. add_single_match i ix m) m ids) = matched m \<union> {ix} \<times> set ids"
  by (induction ids arbitrary: m) (auto simp: matched_add_single)

lemma join_to_one_spec:
  assumes "join_to_one env inner fm target = Ok target'" and "match_ok target" and "order_ok (fe_id_order env)"
    and "\<forall>(row, ids) \<in> set fm. finite ids"
  shows "match_ok target' \<and> matched target' = matched target \<union>
    {(r, i). \<exists>row ids. (row, ids) \<in> set fm \<and> i \<in> ids \<and> r \<in> join_rows (fe_roaring env) (JoinOne inner) row}"
  using assms(1,2,4)
proof (induction fm arbitrary: target)
  case (Cons x fm)
  obtain row ids where x: "x = (row, ids)" by (cases x)
  then obtain found where found: "(join_one_get inner row :: (_, data_stream_error) outcome) = Ok found"
    and rest: "join_to_one env inner fm (case found of None \<Rightarrow> target
        | Some ix \<Rightarrow> foldl (\<lambda>target i. add_single_match i ix target) target (fe_id_order env ids)) = Ok target'"
    using Cons.prems(1) by (auto simp: outcome_simps)
  have ids: "set (fe_id_order env ids) = ids" using Cons.prems(3) assms(3) x by (auto simp: order_ok_def)
  have here: "join_rows (fe_roaring env) (JoinOne inner) row = set_option found"
    using found by (simp add: join_rows_def split: option.splits)
  show ?case
  proof (cases found)
    case None
    then show ?thesis using Cons.IH [OF _ Cons.prems(2)] rest Cons.prems(3) here unfolding x by auto
  next
    case (Some ix)
    note t = add_single_ids [OF Cons.prems(2), of ix "fe_id_order env ids"]
    from Cons.IH [OF rest [unfolded Some option.case] conjunct1 [OF t]] Cons.prems(3)
    show ?thesis using t here Some ids unfolding x by auto
  qed
qed simp

lemma join_to_many_spec:
  assumes "join_to_many env inner fm target = Ok target'" and "match_ok target" and "order_ok (fe_id_order env)"
    and "\<forall>(row, ids) \<in> set fm. finite ids"
  shows "match_ok target' \<and> matched target' = matched target \<union>
    {(r, i). \<exists>row ids. (row, ids) \<in> set fm \<and> i \<in> ids \<and> r \<in> join_rows (fe_roaring env) (JoinMany inner) row}"
  using assms(1,2,4)
proof (induction fm arbitrary: target)
  case (Cons x fm)
  obtain row ids where x: "x = (row, ids)" by (cases x)
  then obtain found where found: "(join_many_get (fe_roaring env) inner row :: (_, data_stream_error) outcome) = Ok found"
    and rest: "join_to_many env inner fm (case found of None \<Rightarrow> target
        | Some b \<Rightarrow> foldl (\<lambda>target i. add_match (fe_roaring env) i b target) target (fe_id_order env ids)) = Ok target'"
    using Cons.prems(1) by (auto simp: outcome_simps)
  have ids: "set (fe_id_order env ids) = ids" using Cons.prems(3) assms(3) x by (auto simp: order_ok_def)
  have here: "join_rows (fe_roaring env) (JoinMany inner) row = (case found of Some b \<Rightarrow> set (rb_iter (fe_roaring env) b) | None \<Rightarrow> {})"
    using found by (simp add: join_rows_def split: option.splits)
  show ?case
  proof (cases found)
    case None
    then show ?thesis using Cons.IH [OF _ Cons.prems(2)] rest Cons.prems(3) here unfolding x by auto
  next
    case (Some b)
    note t = add_matches_ids [OF Cons.prems(2), of "fe_roaring env" b "fe_id_order env ids"]
    from Cons.IH [OF rest [unfolded Some option.case] conjunct1 [OF t]] Cons.prems(3)
    show ?thesis using t here Some ids unfolding x by auto
  qed
qed simp

lemma match_finite: "match_ok fm \<Longrightarrow> finite (matched fm) \<Longrightarrow> \<forall>(row, ids) \<in> set fm. finite ids"
proof (intro ballI, clarify)
  fix row ids
  assume "match_ok fm" "finite (matched fm)" "(row, ids) \<in> set fm"
  then have "ids \<subseteq> snd ` matched fm" using match_mem by force
  then show "finite ids" using \<open>finite (matched fm)\<close> finite_subset by blast
qed

lemma join_match_spec:
  assumes "join_match env ix fm target = Ok target'" and "match_ok target" and "order_ok (fe_id_order env)"
    and "match_ok fm" and "finite (matched fm)"
  shows "match_ok target' \<and> matched target' = matched target \<union>
    {(r, i). \<exists>row. (row, i) \<in> matched fm \<and> r \<in> join_rows (fe_roaring env) ix row}"
proof -
  have eq: "{(r, i). \<exists>row ids. (row, ids) \<in> set fm \<and> i \<in> ids \<and> r \<in> J row} = {(r, i). \<exists>row. (row, i) \<in> matched fm \<and> r \<in> J row}"
    for J :: "nat \<Rightarrow> nat set"
    using match_mem [OF assms(4)] by blast
  show ?thesis
    using join_to_one_spec [OF _ assms(2,3) match_finite [OF assms(4,5)]] join_to_many_spec [OF _ assms(2,3) match_finite [OF assms(4,5)]]
      assms(1) unfolding join_match_def eq by (cases ix) auto
qed

lemma apply_joins_spec:
  assumes "apply_joins env access joins matches = Ok matches'" and "matches_ok matches" and "order_ok (fe_id_order env)"
    and "\<forall>(k, fm) \<in> set joins. match_ok fm \<and> finite (matched fm)"
  shows "matches_ok matches' \<and> (matches \<noteq> [] \<longrightarrow> matches' \<noteq> []) \<and>
    (\<forall>t. matched_at matches' t = matched_at matches t \<union>
       {(r, i). \<exists>s fm row. ((s, t), fm) \<in> set joins \<and> (row, i) \<in> matched fm \<and> r \<in> joined_at env access s t row})"
  using assms(1,2,4)
proof (induction joins arbitrary: matches)
  case (Cons x joins)
  obtain s t fm where x: "x = ((s, t), fm)" by (metis prod.collapse)
  then obtain jf j tm where jf: "get_join_fragment (fe_serde env) s access = Ok jf"
    and j: "find_fragment je_to_fragment_id t (jf_joins jf) = Ok j"
    and tm: "join_match env (je_index j) fm (bt_get_or [] matches t) = Ok tm"
    and rest: "apply_joins env access joins (bt_insert t tm matches) = Ok matches'"
    using Cons.prems(1) by (auto simp: outcome_simps)
  have at: "joined_at env access s t row = join_rows (fe_roaring env) (je_index j) row" for row
    using jf j by (simp add: joined_at_def)
  have fm: "match_ok fm" "finite (matched fm)" using Cons.prems(3) x by auto
  note m = join_match_spec [OF tm matches_ok_get_or [OF Cons.prems(2)] assms(3) fm]
  have ok: "matches_ok (bt_insert t tm matches)" using matches_ok_insert Cons.prems(2) m by blast
  have "\<forall>(k, fm) \<in> set joins. match_ok fm \<and> finite (matched fm)" using Cons.prems(3) by auto
  note IH = Cons.IH [OF rest ok this]
  have ne: "bt_insert t tm matches \<noteq> []" by (cases matches) auto
  have new: "matched_at (bt_insert t tm matches) t' = matched_at matches t' \<union>
      (if t' = t then {(r, i). \<exists>row. (row, i) \<in> matched fm \<and> r \<in> joined_at env access s t row} else {})" for t'
    using matched_at_insert [OF Cons.prems(2), of t tm t'] m at by (simp add: matched_at_def)
  have split: "{(r, i). \<exists>s' fm' row. ((s', t'), fm') \<in> set (x # joins) \<and> (row, i) \<in> matched fm' \<and> r \<in> joined_at env access s' t' row} =
      (if t' = t then {(r, i). \<exists>row. (row, i) \<in> matched fm \<and> r \<in> joined_at env access s t row} else {}) \<union>
      {(r, i). \<exists>s' fm' row. ((s', t'), fm') \<in> set joins \<and> (row, i) \<in> matched fm' \<and> r \<in> joined_at env access s' t' row}" for t'
    unfolding x by (cases "t' = t") auto
  show ?case
    using IH ne unfolding split by (simp add: new Un_assoc)
qed simp

lemma finite_join_sources:
  assumes "bt_ok fs"
  shows "finite (join_sources env access fs s t)"
proof -
  have "finite (rows_at env access s flt)" for flt
    by (auto simp: rows_at_def rows_of_def split: outcome.splits)
  then have "finite (\<Union>flts \<in> snd ` set fs. \<Union>flt \<in> set flts. rows_at env access s flt \<times> {flt_filter_id flt})" by auto
  moreover have "join_sources env access fs s t \<subseteq> (\<Union>flts \<in> snd ` set fs. \<Union>flt \<in> set flts. rows_at env access s flt \<times> {flt_filter_id flt})"
    by (force simp: join_sources_def)
  ultimately show ?thesis by (rule rev_finite_subset)
qed

text \<open>The matches of a block are what the filter selects.\<close>

lemma block_matches_spec:
  assumes "block_matches env access bf = Ok matches" and "bt_ok (blf_filters bf)" and "order_ok (fe_id_order env)"
  shows "matches_ok matches \<and> (\<forall>f. matched_at matches f = selected env access bf f) \<and>
    (matches \<noteq> [] \<longleftrightarrow> (\<exists>f. direct env access (blf_filters bf) f \<noteq> {}))"
proof -
  obtain m j where mf: "match_fragments env access (blf_filters bf) ([], []) = Ok (m, j)"
    and aj: "apply_joins env access j m = Ok matches"
    using assms(1) by (auto simp: block_matches_def outcome_simps)
  have "distinct (map fst (blf_filters bf))" using assms(2) by (simp add: bt_ok_def strict_sorted_iff)
  then have m: "matches_ok m" "matches_ok j" "\<forall>f. bt_get m f \<noteq> Some []" "\<forall>f. matched_at m f = direct env access (blf_filters bf) f"
    "\<forall>s t. matched_at j (s, t) = join_sources env access (blf_filters bf) s t"
    using match_fragments_spec [OF mf] by simp_all
  have mem: "(k, fm) \<in> set j \<longleftrightarrow> bt_get j k = Some fm" for k fm using m(2) by (simp add: matches_ok_def bt_get_iff_mem)
  have fin: "\<forall>(k, fm) \<in> set j. match_ok fm \<and> finite (matched fm)"
  proof (intro ballI, clarify)
    fix s t fm assume "((s, t), fm) \<in> set j"
    then have "bt_get j (s, t) = Some fm" by (simp add: mem)
    then have "match_ok fm" "matched fm = join_sources env access (blf_filters bf) s t"
      using m(2) spec [OF spec [OF m(5)], of s t] by (simp_all add: matches_ok_def matched_at_def bt_get_or_def)
    then show "match_ok fm \<and> finite (matched fm)" using finite_join_sources [OF assms(2)] by simp
  qed
  note a = apply_joins_spec [OF aj m(1) assms(3) fin]
  have src: "(\<exists>fm. ((s, t), fm) \<in> set j \<and> (row, i) \<in> matched fm) \<longleftrightarrow> (row, i) \<in> join_sources env access (blf_filters bf) s t" for s t row i
    unfolding m(5) [rule_format, symmetric] mem by (auto simp: matched_at_def bt_get_or_def split: option.splits)
  have "{(r, i). \<exists>s fm row. ((s, t), fm) \<in> set j \<and> (row, i) \<in> matched fm \<and> r \<in> joined_at env access s t row} =
      {(r, i). \<exists>s row. (row, i) \<in> join_sources env access (blf_filters bf) s t \<and> r \<in> joined_at env access s t row}" for t
    using src by blast
  then have sel: "\<forall>f. matched_at matches f = selected env access bf f" using a m(4) by (simp add: selected_def)
  have "m \<noteq> [] \<longleftrightarrow> (\<exists>f. direct env access (blf_filters bf) f \<noteq> {})"
  proof
    assume "m \<noteq> []"
    then have "bt_get m (fst (hd m)) = Some (snd (hd m))" by (cases m) (auto simp: bt_get_def)
    then obtain f fm where "bt_get m f = Some fm" by blast
    then have "matched_at m f \<noteq> {}" using m(1,3) matched_empty_iff by (auto simp: matched_at_def bt_get_or_def matches_ok_def)
    then show "\<exists>f. direct env access (blf_filters bf) f \<noteq> {}" using m(4) by auto
  next
    assume "\<exists>f. direct env access (blf_filters bf) f \<noteq> {}"
    then show "m \<noteq> []" using m(4) by auto
  qed
  moreover have "matches = []" if "m = []"
  proof -
    have "join_sources env access (blf_filters bf) s t \<subseteq> direct env access (blf_filters bf) s" for s t
      by (auto simp: join_sources_def direct_def)
    then have "join_sources env access (blf_filters bf) s t = {}" for s t using m(4) that by auto
    then have empty: "matched_at j k = {}" for k using m(5) by (cases k) simp
    have "j = []"
    proof (rule ccontr)
      assume "j \<noteq> []"
      then have get: "bt_get j (fst (hd j)) = Some (snd (hd j))" by (cases j) (auto simp: bt_get_def)
      then have "match_ok (snd (hd j))" using m(2) unfolding matches_ok_def by blast
      moreover have "matched (snd (hd j)) = {}" using empty [of "fst (hd j)"] get by (simp add: matched_at_def bt_get_or_def)
      ultimately have "snd (hd j) = []" by (simp add: matched_empty_iff)
      then show False using get joins_not_empty [OF mf] unfolding no_empty_def by metis
    qed
    then show ?thesis using aj that by simp
  qed
  ultimately show ?thesis using a sel by blast
qed

section \<open>The encoded block\<close>

text \<open>What a client reads: the header and the body items with their filters.\<close>

definition read_block :: "nat reader \<Rightarrow> nat reader \<Rightarrow> bytes \<Rightarrow> (bytes option \<times> (nat \<times> filter_id list \<times> bytes) list) option" where
  "read_block key varint buf = (case read_fields (length buf) key varint buf of
     None \<Rightarrow> None
   | Some fs \<Rightarrow>
       map_option (\<lambda>items. (map_option snd (find (\<lambda>f. fst f = HEADER_FRAGMENT_ID) fs), items))
         (those (map (\<lambda>(tag, payload). map_option (\<lambda>(ids, m). (tag, ids, m)) (read_body_item key varint payload))
            (filter (\<lambda>f. fst f \<noteq> HEADER_FRAGMENT_ID) fs))))"

definition fragment_items ::
  "'b filter_env \<Rightarrow> fragment_id \<times> body_fragment \<times> filter_match \<Rightarrow> (nat \<times> filter_id list \<times> bytes) list" where
  "fragment_items env = (\<lambda>(fid, body, fm). map (\<lambda>(row, ids). (fid, fe_id_order env ids, bf_data body ! row)) fm)"

definition block_items ::
  "'b filter_env \<Rightarrow> (fragment_id \<times> body_fragment \<times> filter_match) list \<Rightarrow> (nat \<times> filter_id list \<times> bytes) list" where
  "block_items env bodies = concat (map (fragment_items env) bodies)"

lemma those_map_Some: "(\<And>x. x \<in> set xs \<Longrightarrow> f x = Some (g x)) \<Longrightarrow> those (map f xs) = Some (map g xs)"
  by (induction xs) simp_all

context protobuf
begin

definition item_field :: "nat \<times> filter_id list \<times> bytes \<Rightarrow> nat \<times> bytes" where
  "item_field = (\<lambda>(tag, ids, m). (tag, item_payload ids m))"

definition fields :: "(nat \<times> bytes) list \<Rightarrow> bytes" where
  "fields fs = concat (map (\<lambda>(tag, data). field tag data) fs)"

lemma fields_simps [simp]: "fields [] = []" "fields (f # fs) = field (fst f) (snd f) @ fields fs" "fields (fs @ gs) = fields fs @ fields gs"
  by (simp_all add: fields_def split_beta)

lemma items_len_encode:
  assumes "items_len env fid body fm n = Ok m" and "fe_prost env = P"
    and "\<forall>(row, ids) \<in> set fm. \<forall>i \<in> set (fe_id_order env ids). i < u64_lim"
  shows "(\<forall>(row, ids) \<in> set fm. row < length (bf_data body)) \<and>
    (\<forall>(tag, ids, msg) \<in> set (fragment_items env (fid, body, fm)). length (item_payload ids msg) < u64_lim) \<and>
    encode_items env fid body fm buf = Ok (buf @ fields (map item_field (fragment_items env (fid, body, fm)))) \<and>
    m = n + length (fields (map item_field (fragment_items env (fid, body, fm))))"
  using assms(1,3)
proof (induction fm arbitrary: n buf)
  case (Cons x fm)
  obtain row ids where x: "x = (row, ids)" by (cases x)
  then obtain len n' where row: "row < length (bf_data body)"
    and len: "encoded_body_item_len P fid (fe_id_order env ids) (length (bf_data body ! row)) = Ok len"
    and add: "checked_add n len = Ok n'" and rest: "items_len env fid body fm n' = Ok m"
    using Cons.prems(1) by (auto simp: outcome_simps assms(2) fetch_def split: if_splits)
  have small: "\<forall>i \<in> set (fe_id_order env ids). i < u64_lim" using Cons.prems(2) x by auto
  note item = item_len [OF len small]
  have n': "n' = n + len" using add by (simp add: checked_add_def split: if_splits)
  have "\<forall>(row, ids) \<in> set fm. \<forall>i \<in> set (fe_id_order env ids). i < u64_lim" using Cons.prems(2) by auto
  note IH = Cons.IH [OF rest this, of "buf @ field fid (item_payload (fe_id_order env ids) (bf_data body ! row))"]
  show ?case
    using IH row item n' unfolding x
    by (simp add: fragment_items_def item_field_def assms(2) fetch_def)
qed (simp add: fragment_items_def)

lemma bodies_len_encode:
  assumes "bodies_len env bodies n = Ok m" and "fe_prost env = P"
    and "\<forall>(fid, body, fm) \<in> set bodies. \<forall>(row, ids) \<in> set fm. \<forall>i \<in> set (fe_id_order env ids). i < u64_lim"
  shows "(\<forall>(fid, body, fm) \<in> set bodies. \<forall>(row, ids) \<in> set fm. row < length (bf_data body)) \<and>
    (\<forall>(tag, ids, msg) \<in> set (block_items env bodies). length (item_payload ids msg) < u64_lim) \<and>
    encode_bodies env bodies buf = Ok (buf @ fields (map item_field (block_items env bodies))) \<and>
    m = n + length (fields (map item_field (block_items env bodies)))"
  using assms(1,3)
proof (induction bodies arbitrary: n buf)
  case (Cons x bodies)
  obtain fid body fm where x: "x = (fid, body, fm)" by (metis prod.collapse)
  then obtain n' where items: "items_len env fid body fm n = Ok n'" and rest: "bodies_len env bodies n' = Ok m"
    using Cons.prems(1) by (auto simp: outcome_simps)
  have small: "\<forall>(row, ids) \<in> set fm. \<forall>i \<in> set (fe_id_order env ids). i < u64_lim" using Cons.prems(2) x by auto
  note item = items_len_encode [OF items assms(2) small, of buf]
  have "\<forall>(fid, body, fm) \<in> set bodies. \<forall>(row, ids) \<in> set fm. \<forall>i \<in> set (fe_id_order env ids). i < u64_lim" using Cons.prems(2) by auto
  note IH = Cons.IH [OF rest this, of "buf @ fields (map item_field (fragment_items env x))"]
  have split: "block_items env (x # bodies) = fragment_items env x @ block_items env bodies" by (simp add: block_items_def)
  have "encode_bodies env (x # bodies) buf = Ok (buf @ fields (map item_field (block_items env (x # bodies))))"
    using IH item unfolding x by (simp add: split [unfolded x])
  moreover have "m = n + length (fields (map item_field (block_items env (x # bodies))))"
    using IH item unfolding x by (simp add: split [unfolded x])
  moreover have "\<forall>(tag, ids, msg) \<in> set (block_items env (x # bodies)). length (item_payload ids msg) < u64_lim"
    using IH item unfolding x by (simp add: split [unfolded x] ball_Un)
  ultimately show ?case using IH item unfolding x by simp
qed (simp add: block_items_def)

lemma read_block_fields:
  assumes items: "\<forall>(tag, ids, m) \<in> set is. 1 < tag \<and> tag < 2 ^ 29 \<and> ids \<noteq> [] \<and> (\<forall>i \<in> set ids. i < u64_lim) \<and> length (item_payload ids m) < u64_lim"
    and hd: "case header of None \<Rightarrow> fs = map item_field is
      | Some h \<Rightarrow> fs = (HEADER_FRAGMENT_ID, h) # map item_field is \<and> length h < u64_lim"
  shows "read_block key varint (fields fs) = Some (header, is)"
proof -
  have tags: "fst f \<noteq> HEADER_FRAGMENT_ID \<and> 0 < fst f \<and> fst f < 2 ^ 29 \<and> length (snd f) < u64_lim" if "f \<in> set (map item_field is)" for f
    using that items by (auto simp: item_field_def HEADER_FRAGMENT_ID_def)
  have ok: "\<forall>(tag, data) \<in> set fs. 0 < tag \<and> tag < 2 ^ 29 \<and> length data < u64_lim"
    using hd tags by (fastforce simp: HEADER_FRAGMENT_ID_def split: option.splits)
  have fs: "read_fields (length (fields fs)) key varint (fields fs) = Some fs"
    unfolding fields_def by (rule read_fields_concat [OF ok order_refl])
  have flt: "filter (\<lambda>f. fst f \<noteq> HEADER_FRAGMENT_ID) fs = map item_field is"
  proof -
    have "filter (\<lambda>f. fst f \<noteq> HEADER_FRAGMENT_ID) (map item_field is) = map item_field is"
      using tags by (intro filter_True) blast
    then show ?thesis using hd by (auto split: option.splits)
  qed
  have hdr: "map_option snd (find (\<lambda>f. fst f = HEADER_FRAGMENT_ID) fs) = header"
  proof (cases header)
    case None
    then have "find (\<lambda>f. fst f = HEADER_FRAGMENT_ID) fs = None" using hd tags by (auto simp: find_None_iff)
    then show ?thesis using None by simp
  qed (use hd in auto)
  have "those (map (\<lambda>(tag, payload). map_option (\<lambda>(ids, m). (tag, ids, m)) (read_body_item key varint payload)) (map item_field is)) = Some is"
  proof -
    have "(case item_field x of (tag, payload) \<Rightarrow> map_option (\<lambda>(ids, m). (tag, ids, m)) (read_body_item key varint payload)) = Some x"
      if "x \<in> set is" for x
    proof -
      obtain tag ids m where x: "x = (tag, ids, m)" by (metis prod.collapse)
      then have "ids \<noteq> []" "\<forall>i \<in> set ids. i < u64_lim" "length (item_payload ids m) < u64_lim" using items that by auto
      then show ?thesis using x by (simp add: item_field_def read_item)
    qed
    then show ?thesis using those_map_Some [of "is" _ "\<lambda>x. x"] by (simp add: comp_def)
  qed
  then show ?thesis by (simp add: read_block_def fs flt hdr)
qed

end

lemma matched_bodies_spec:
  assumes "matched_bodies env access matches = Ok bodies"
  shows "map (\<lambda>(fid, body, fm). (fid, fm)) bodies = matches \<and>
    (\<forall>(fid, body, fm) \<in> set bodies. get_body_fragment (fe_serde env) fid access = Ok body)"
  using assms
proof (induction matches arbitrary: bodies)
  case (Cons x matches)
  obtain fid fm where x: "x = (fid, fm)" by (cases x)
  then show ?case using Cons by (auto simp: outcome_simps split: option.splits)
qed simp

section \<open>Properties\<close>

text \<open>Filters as the factories build them: grouped by fragment, with \<open>u32\<close> ids, on body fragments.\<close>

definition filter_ok :: "block_filter \<Rightarrow> bool" where
  "filter_ok bf \<longleftrightarrow> bt_ok (blf_filters bf) \<and>
     (\<forall>(fid, flts) \<in> set (blf_filters bf). \<forall>flt \<in> set flts. flt_filter_id flt < u32_lim) \<and>
     (\<forall>f \<in> all_fragment_ids bf. HEADER_FRAGMENT_ID < f \<and> f < 256)"

definition message_at :: "'b filter_env \<Rightarrow> 'b fragment_access \<Rightarrow> fragment_id \<Rightarrow> nat \<Rightarrow> bytes" where
  "message_at env access f row = (case get_body_fragment (fe_serde env) f access of Ok body \<Rightarrow> bf_data body ! row | _ \<Rightarrow> [])"

definition header_at :: "'b filter_env \<Rightarrow> 'b fragment_access \<Rightarrow> bytes" where
  "header_at env access = (case get_header_fragment (fe_serde env) access of Ok h \<Rightarrow> hf_data h | _ \<Rightarrow> [])"

definition header_wanted :: "'b filter_env \<Rightarrow> 'b fragment_access \<Rightarrow> bool \<Rightarrow> block_filter \<Rightarrow> bool" where
  "header_wanted env access is_live bf = (case blf_header_filter bf of
     Always \<Rightarrow> True
   | OnData \<Rightarrow> \<exists>f. selected env access bf f \<noteq> {}
   | OnDataOrOnNewBlock \<Rightarrow> is_live \<or> (\<exists>f. selected env access bf f \<noteq> {}))"

text \<open>A message is right for a block filter: it decodes to the header, if wanted, and one item per selected row, by
  fragment and row in ascending order, with the row's message and exactly the filters that select it.\<close>

definition block_decodes ::
  "'b filter_env \<Rightarrow> 'b fragment_access \<Rightarrow> bool \<Rightarrow> nat reader \<Rightarrow> nat reader \<Rightarrow> block_filter \<Rightarrow> bytes \<Rightarrow> bool" where
  "block_decodes env access is_live key varint bf buf \<longleftrightarrow> (\<exists>rows. sorted_wrt (<) rows \<and>
     set rows = {(f, r). \<exists>i. (r, i) \<in> selected env access bf f} \<and>
     read_block key varint buf = Some (if header_wanted env access is_live bf then Some (header_at env access) else None,
       map (\<lambda>(f, r). (f, fe_id_order env {i. (r, i) \<in> selected env access bf f}, message_at env access f r)) rows))"

lemma selected_ids: "filter_ok bf \<Longrightarrow> (r, i) \<in> selected env access bf f \<Longrightarrow> i < u32_lim"
  by (fastforce simp: filter_ok_def selected_def direct_def join_sources_def)

lemma selected_fragments:
  assumes "filter_ok bf" and "(r, i) \<in> selected env access bf f"
  shows "HEADER_FRAGMENT_ID < f \<and> f < 256"
proof -
  have "f \<in> all_fragment_ids bf"
    using assms(2) unfolding selected_def direct_def join_sources_def all_fragment_ids_def all_fragment_ids_loop by force
  then show ?thesis using assms(1) by (simp add: filter_ok_def)
qed

lemma finite_selected_ids:
  assumes "filter_ok bf"
  shows "finite {i. (r, i) \<in> selected env access bf f}"
  by (rule finite_subset [of _ "{..<u32_lim}"]) (auto dest: selected_ids [OF assms])

lemma selected_direct: "(\<exists>f. selected env access bf f \<noteq> {}) \<longleftrightarrow> (\<exists>f. direct env access (blf_filters bf) f \<noteq> {})"
proof
  assume "\<exists>f. selected env access bf f \<noteq> {}"
  then obtain f r i where "(r, i) \<in> selected env access bf f" by auto
  then show "\<exists>f. direct env access (blf_filters bf) f \<noteq> {}"
    by (fastforce simp: selected_def join_sources_def direct_def)
qed (auto simp: selected_def)

text \<open>The rows of the matches, in the order of the maps.\<close>

definition match_rows_of :: "fragment_matches \<Rightarrow> (fragment_id \<times> nat) list" where
  "match_rows_of matches = concat (map (\<lambda>(f, fm). map (\<lambda>(r, ids). (f, r)) fm) matches)"

lemma match_rows_sorted:
  assumes "bt_ok matches" and "\<forall>(f, fm) \<in> set matches. bt_ok fm"
  shows "sorted_wrt (<) (match_rows_of matches)"
  using assms
proof (induction matches)
  case (Cons x matches)
  obtain f fm where x: "x = (f, fm)" by (cases x)
  have "sorted_wrt (<) (map fst fm)" using Cons.prems(2) x by (simp add: bt_ok_def)
  then have "sorted_wrt (<) (map (\<lambda>(r, ids). (f, r)) fm)"
    by (simp add: sorted_wrt_map split_beta less_prod_def')
  moreover have "f < g" if "(g, gm) \<in> set matches" for g gm using Cons.prems(1) that x by (auto simp: bt_ok_Cons)
  then have "\<forall>a \<in> set (map (\<lambda>(r, ids). (f, r)) fm). \<forall>b \<in> set (match_rows_of matches). a < b"
    by (auto simp: match_rows_of_def less_prod_def')
  moreover have "sorted_wrt (<) (match_rows_of matches)" using Cons by (simp add: bt_ok_Cons)
  ultimately show ?case unfolding x match_rows_of_def by (simp add: sorted_wrt_append)
qed (simp add: match_rows_of_def)

lemma block_items_rows:
  assumes ok: "matches_ok matches" and sel: "\<forall>f. matched_at matches f = sel f"
    and bodies: "map (\<lambda>(fid, body, fm). (fid, fm)) bodies = matches"
      "\<forall>(fid, body, fm) \<in> set bodies. get_body_fragment (fe_serde env) fid access = Ok body"
  shows "block_items env bodies = map (\<lambda>(f, r). (f, fe_id_order env {i. (r, i) \<in> sel f}, message_at env access f r)) (match_rows_of matches)"
    and "set (match_rows_of matches) = {(f, r). \<exists>i. (r, i) \<in> sel f}" and "sorted_wrt (<) (match_rows_of matches)"
proof -
  have get: "bt_get matches f = Some fm \<longleftrightarrow> (f, fm) \<in> set matches" for f fm using ok by (simp add: matches_ok_def bt_get_iff_mem)
  have fm: "match_ok fm" "matched fm = sel f" if "(f, fm) \<in> set matches" for f fm
    using that ok sel spec [OF sel, of f] by (auto simp: get [symmetric] matches_ok_def matched_at_def bt_get_or_def)
  have ids: "{i. (r, i) \<in> sel f} = ids" if "(f, fm) \<in> set matches" "(r, ids) \<in> set fm" for f fm r ids
  proof -
    have "bt_get fm r = Some ids" using fm(1) [OF that(1)] that(2) by (simp add: match_ok_def bt_get_iff_mem)
    then show ?thesis unfolding fm(2) [OF that(1), symmetric] by (auto simp: matched_def)
  qed
  let ?g = "\<lambda>(f, r). (f, fe_id_order env {i. (r, i) \<in> sel f}, message_at env access f r)"
  have item: "fragment_items env x = map ?g (case x of (f, body, fm) \<Rightarrow> map (\<lambda>(r, ids). (f, r)) fm)" if x: "x \<in> set bodies" for x
  proof -
    obtain f body fm where x': "x = (f, body, fm)" by (metis prod.collapse)
    have mem: "(f, fm) \<in> set matches" using x x' bodies(1) by force
    have body: "get_body_fragment (fe_serde env) f access = Ok body" using bodies(2) x x' by auto
    show ?thesis
      using ids [OF mem] body unfolding x' fragment_items_def by (auto simp: message_at_def)
  qed
  have rows: "match_rows_of matches = concat (map (\<lambda>(f, body, fm). map (\<lambda>(r, ids). (f, r)) fm) bodies)"
    unfolding match_rows_of_def bodies(1) [symmetric] map_map by (intro arg_cong [of _ _ concat] map_cong refl) auto
  have "map (fragment_items env) bodies = map (\<lambda>x. map ?g (case x of (f, body, fm) \<Rightarrow> map (\<lambda>(r, ids). (f, r)) fm)) bodies"
    using item by (intro map_cong refl)
  then show "block_items env bodies = map ?g (match_rows_of matches)"
    unfolding block_items_def rows map_concat map_map comp_def by (rule arg_cong)
  have "(f, r) \<in> set (match_rows_of matches) \<longleftrightarrow> (\<exists>i. (r, i) \<in> sel f)" for f r
  proof
    assume "(f, r) \<in> set (match_rows_of matches)"
    then obtain fm ids where m: "(f, fm) \<in> set matches" "(r, ids) \<in> set fm" by (auto simp: match_rows_of_def)
    then have "bt_get fm r = Some ids" using fm(1) by (simp add: match_ok_def bt_get_iff_mem)
    then have "ids \<noteq> {}" using fm(1) [OF m(1)] unfolding match_ok_def by blast
    then show "\<exists>i. (r, i) \<in> sel f" using ids [OF m] by auto
  next
    assume "\<exists>i. (r, i) \<in> sel f"
    then obtain i where "(r, i) \<in> matched_at matches f" using sel by auto
    then obtain fm where g: "bt_get matches f = Some fm" "(r, i) \<in> matched fm"
      by (auto simp: matched_at_def bt_get_or_def split: option.splits)
    then have mem: "(f, fm) \<in> set matches" by (simp add: get)
    then obtain ids where "(r, ids) \<in> set fm" using g(2) match_mem [OF fm(1) [OF mem]] by blast
    then show "(f, r) \<in> set (match_rows_of matches)" using mem by (force simp: match_rows_of_def)
  qed
  then show "set (match_rows_of matches) = {(f, r). \<exists>i. (r, i) \<in> sel f}" by auto
  have "bt_ok matches" "\<forall>(f, fm) \<in> set matches. bt_ok fm" using ok fm(1) by (auto simp: matches_ok_def match_ok_def)
  then show "sorted_wrt (<) (match_rows_of matches)" by (rule match_rows_sorted)
qed

lemma filter_block_decodes:
  assumes pb: "protobuf (fe_prost env) key varint" and order: "order_ok (fe_id_order env)" and bf: "filter_ok bf"
    and run: "filter_block env access is_live bf = Ok buf"
  shows "block_decodes env access is_live key varint bf buf"
proof -
  obtain matches header bodies n m where matches: "block_matches env access bf = Ok matches"
    and header: "(if should_send_header bf is_live matches
            then obind (map_err (\<lambda>_. DataStreamError) (get_header_fragment (fe_serde env) access)) (\<lambda>header. Ok (Some header))
            else Ok None) = Ok header"
    and bodies: "matched_bodies env access matches = Ok bodies"
    and hlen: "(case header of Some h \<Rightarrow> encoded_header_len (fe_prost env) HEADER_FRAGMENT_ID (length (hf_data h)) | None \<Rightarrow> Ok 0) = Ok n"
    and blen: "bodies_len env bodies n = Ok m"
    and enc: "encode_bodies env bodies (case header of Some h \<Rightarrow> encode_header (fe_prost env) HEADER_FRAGMENT_ID (hf_data h) [] | None \<Rightarrow> []) = Ok buf"
    using run unfolding filter_block_def obind_eq_Ok by blast
  have bt: "bt_ok (blf_filters bf)" using bf by (simp add: filter_ok_def)
  note spec = block_matches_spec [OF matches bt order]
  have ok: "matches_ok matches" and sel: "\<forall>f. matched_at matches f = selected env access bf f"
    and ne: "matches \<noteq> [] \<longleftrightarrow> (\<exists>f. selected env access bf f \<noteq> {})"
    using spec selected_direct [of env access bf] by auto
  note mb = matched_bodies_spec [OF bodies]
  note rows = block_items_rows [OF ok sel conjunct1 [OF mb] conjunct2 [OF mb]]
  let ?items = "block_items env bodies"
  have order_set: "set (fe_id_order env {i. (r, i) \<in> selected env access bf f}) = {i. (r, i) \<in> selected env access bf f}" for f r
    by (rule conjunct1 [OF order [unfolded order_ok_def, rule_format, OF finite_selected_ids [OF bf]]])
  have items: "1 < tag \<and> tag < 2 ^ 29 \<and> ids \<noteq> [] \<and> (\<forall>i \<in> set ids. i < u64_lim)" if "(tag, ids, msg) \<in> set ?items" for tag ids msg
  proof -
    obtain r where r: "(tag, r) \<in> set (match_rows_of matches)" and ids: "ids = fe_id_order env {i. (r, i) \<in> selected env access bf tag}"
      using \<open>(tag, ids, msg) \<in> set ?items\<close> unfolding rows(1) by auto
    then obtain i where i: "(r, i) \<in> selected env access bf tag" using rows(2) by auto
    then have "i \<in> set ids" using ids order_set by simp
    moreover have "j < u64_lim" if "j \<in> set ids" for j
      using that selected_ids [OF bf, of r j env access tag] ids order_set by (simp add: u32_lim_def u64_lim_def)
    ultimately show ?thesis
      using selected_fragments [OF bf i] by (auto simp: HEADER_FRAGMENT_ID_def)
  qed
  have small: "\<forall>(fid, body, fm) \<in> set bodies. \<forall>(row, ids) \<in> set fm. \<forall>i \<in> set (fe_id_order env ids). i < u64_lim"
  proof (clarify)
    fix fid body fm row ids i
    assume a: "(fid, body, fm) \<in> set bodies" "(row, ids) \<in> set fm" "i \<in> set (fe_id_order env ids)"
    then have "(fid, fe_id_order env ids, bf_data body ! row) \<in> set ?items"
      by (force simp: block_items_def fragment_items_def)
    then show "i < u64_lim" using items a(3) by blast
  qed
  note enc_spec = protobuf.bodies_len_encode [OF pb blen refl small]
  define fs where "fs = (case header of None \<Rightarrow> [] | Some h \<Rightarrow> [(HEADER_FRAGMENT_ID, hf_data h)]) @ map (protobuf.item_field (fe_prost env)) ?items"
  have wanted: "should_send_header bf is_live matches \<longleftrightarrow> header_wanted env access is_live bf"
    using ne by (auto simp: should_send_header_def header_wanted_def split: header_filter.splits)
  have hd: "map_option hf_data header = (if header_wanted env access is_live bf then Some (header_at env access) else None)"
    using header wanted by (auto simp: header_at_def outcome_simps split: if_splits)
  have buf: "buf = protobuf.fields (fe_prost env) fs"
    using enc enc_spec pb by (cases header) (auto simp: fs_def encode_header_def protobuf.fields_simps protobuf.field_def)
  have hsmall: "length (hf_data h) < u64_lim" if "header = Some h" for h
    using hlen that protobuf.field_len_eq(1) [OF pb] by (simp add: encoded_header_len_def)
  have "read_block key varint buf = Some (map_option hf_data header, ?items)"
    unfolding buf
  proof (rule protobuf.read_block_fields [OF pb])
    show "\<forall>(tag, ids, m) \<in> set ?items. 1 < tag \<and> tag < 2 ^ 29 \<and> ids \<noteq> [] \<and> (\<forall>i \<in> set ids. i < u64_lim) \<and>
        length (protobuf.item_payload (fe_prost env) ids m) < u64_lim"
      using items enc_spec by fastforce
    show "case map_option hf_data header of None \<Rightarrow> fs = map (protobuf.item_field (fe_prost env)) ?items
      | Some h \<Rightarrow> fs = (HEADER_FRAGMENT_ID, h) # map (protobuf.item_field (fe_prost env)) ?items \<and> length h < u64_lim"
      using hsmall by (cases header) (simp_all add: fs_def)
  qed
  then show ?thesis
    unfolding block_decodes_def using rows hd by (intro exI [of _ "match_rows_of matches"]) simp
qed

lemma filter_loop_blocks_spec:
  assumes "filter_loop_blocks env access is_live bfs (has_data, out) = Ok (has_data', out')"
  shows "\<exists>bufs. out' = out @ bufs \<and> list_all2 (\<lambda>bf buf. filter_block env access is_live bf = Ok buf) bfs bufs \<and>
    (has_data' \<longleftrightarrow> has_data \<or> (\<exists>buf \<in> set bufs. buf \<noteq> []))"
  using assms
proof (induction bfs arbitrary: has_data out)
  case (Cons bf bfs)
  then obtain buf where buf: "filter_block env access is_live bf = Ok buf"
    and rest: "filter_loop_blocks env access is_live bfs (has_data \<or> buf \<noteq> [], out @ [buf]) = Ok (has_data', out')"
    by (auto simp: outcome_simps)
  from Cons.IH [OF rest] obtain bufs where "out' = (out @ [buf]) @ bufs"
    "list_all2 (\<lambda>bf buf. filter_block env access is_live bf = Ok buf) bfs bufs"
    "has_data' \<longleftrightarrow> (has_data \<or> buf \<noteq> []) \<or> (\<exists>buf \<in> set bufs. buf \<noteq> [])" by blast
  then show ?case using buf by (intro exI [of _ "buf # bufs"]) auto
qed simp

text \<open>C5: A filtered block is what the client asked for. For every block filter, in the order of the request, the
  output decodes to the header, if the filter wants it, and one item for each selected row: the rows
  the filters on a fragment select by the block's index, and the rows joined to rows selected on another
  fragment. Items come by fragment and row in ascending order, carry the row's message and exactly the ids of
  the filters that select it. The block counts as having data if and only if some output is not empty.\<close>

theorem filter_fragment_exact:
  assumes "protobuf (fe_prost env) key varint" and "order_ok (fe_id_order env)" and "list_all filter_ok bfs"
    and "filter_fragment env bfs access is_live = Ok (has_data, out)"
  shows "list_all2 (block_decodes env access is_live key varint) bfs out \<and> (has_data \<longleftrightarrow> (\<exists>buf \<in> set out. buf \<noteq> []))"
proof -
  have all: "list_all2 (\<lambda>bf buf. filter_block env access is_live bf = Ok buf) bfs out"
    and has: "has_data \<longleftrightarrow> (\<exists>buf \<in> set out. buf \<noteq> [])"
    using filter_loop_blocks_spec [OF assms(4) [unfolded filter_fragment_def]] by auto
  have "list_all2 (block_decodes env access is_live key varint) bfs out"
    using all assms(3) filter_block_decodes [OF assms(1,2)]
    by (auto simp: list_all2_conv_all_nth list_all_length)
  then show ?thesis using has by blast
qed

section \<open>Segments and blocks\<close>

text \<open>Two accesses that give the same indexes and joins for a set of fragment ids, and the same bodies for another.\<close>

definition access_agrees :: "segment_serde \<Rightarrow> fragment_id set \<Rightarrow> fragment_id set \<Rightarrow> 'b fragment_access \<Rightarrow> 'b fragment_access \<Rightarrow> bool" where
  "access_agrees S ids bodies a b \<longleftrightarrow> get_header_fragment S a = get_header_fragment S b \<and>
     (\<forall>fid \<in> ids. get_index_fragment S fid a = get_index_fragment S fid b \<and> get_join_fragment S fid a = get_join_fragment S fid b) \<and>
     (\<forall>fid \<in> bodies. get_body_fragment S fid a = get_body_fragment S fid b)"

lemma match_fragments_cong:
  assumes "access_agrees (fe_serde env) ids bodies a b" and "fst ` set fs \<subseteq> ids"
  shows "match_fragments env a fs acc = match_fragments env b fs acc"
  using assms(2)
proof (induction fs arbitrary: acc)
  case (Cons x fs)
  obtain fid flts where x: "x = (fid, flts)" by (cases x)
  have "get_index_fragment (fe_serde env) fid a = get_index_fragment (fe_serde env) fid b"
    using assms(1) Cons.prems x by (auto simp: access_agrees_def)
  moreover have "match_fragments env a fs = match_fragments env b fs" using Cons by (auto simp: fun_eq_iff)
  ultimately show ?case unfolding x by (cases acc) simp
qed simp

lemma apply_joins_cong:
  assumes "access_agrees (fe_serde env) ids bodies a b" and "fst ` fst ` set joins \<subseteq> ids"
  shows "apply_joins env a joins m = apply_joins env b joins m"
  using assms(2)
proof (induction joins arbitrary: m)
  case (Cons x joins)
  obtain s t fm where x: "x = ((s, t), fm)" by (metis prod.collapse)
  have "get_join_fragment (fe_serde env) s a = get_join_fragment (fe_serde env) s b"
    using assms(1) Cons.prems x by (auto simp: access_agrees_def)
  moreover have "apply_joins env a joins = apply_joins env b joins" using Cons by (auto simp: fun_eq_iff)
  ultimately show ?case unfolding x by simp
qed simp

lemma matched_bodies_cong:
  assumes "access_agrees (fe_serde env) ids bodies a b" and "fst ` set m \<subseteq> bodies"
  shows "matched_bodies env a m = matched_bodies env b m"
  using assms(2)
proof (induction m)
  case (Cons x m)
  obtain fid fm where x: "x = (fid, fm)" by (cases x)
  have "get_body_fragment (fe_serde env) fid a = get_body_fragment (fe_serde env) fid b"
    using assms(1) Cons.prems x by (auto simp: access_agrees_def)
  then show ?case using Cons unfolding x by (simp split: option.split)
qed simp

text \<open>The bodies that are read: those of the fragments of filters that select a row, and of the fragments these are
  joined with.\<close>

definition body_needs :: "'b filter_env \<Rightarrow> 'b fragment_access \<Rightarrow> block_filter \<Rightarrow> fragment_id set" where
  "body_needs env access bf = {f. \<exists>fid flts flt. (fid, flts) \<in> set (blf_filters bf) \<and> flt \<in> set flts \<and>
     rows_at env access fid flt \<noteq> {} \<and> f \<in> insert fid (set (flt_joins flt))}"

lemma matches_nonempty:
  assumes "matches_ok m" and "no_empty m" and "k \<in> fst ` set m"
  shows "matched_at m k \<noteq> {}"
proof -
  obtain fm where "(k, fm) \<in> set m" using assms(3) by auto
  then have "bt_get m k = Some fm" using assms(1) by (simp add: matches_ok_def bt_get_iff_mem)
  moreover from this have "fm \<noteq> []" "match_ok fm" using assms(1,2) by (auto simp: no_empty_def matches_ok_def)
  ultimately show ?thesis using matched_empty_iff by (simp add: matched_at_def bt_get_or_def)
qed

lemma match_fragments_needs:
  assumes mf: "match_fragments env access (blf_filters bf) ([], []) = Ok (m, j)" and ok: "bt_ok (blf_filters bf)"
  shows "fst ` set m \<subseteq> body_needs env access bf" and "fst ` fst ` set j \<subseteq> all_fragment_ids bf"
    and "snd ` fst ` set j \<subseteq> body_needs env access bf"
proof -
  have "distinct (map fst (blf_filters bf))" using ok by (simp add: bt_ok_def strict_sorted_iff)
  then have m: "matches_ok m" "matches_ok j" "no_empty m" "\<forall>f. matched_at m f = direct env access (blf_filters bf) f"
    "\<forall>s t. matched_at j (s, t) = join_sources env access (blf_filters bf) s t"
    using match_fragments_spec [OF mf] by (simp_all add: no_empty_def)
  have "f \<in> body_needs env access bf" if "f \<in> fst ` set m" for f
  proof -
    have "direct env access (blf_filters bf) f \<noteq> {}" using matches_nonempty [OF m(1,3) that] m(4) by simp
    then show ?thesis by (force simp: direct_def body_needs_def)
  qed
  then show "fst ` set m \<subseteq> body_needs env access bf" by blast
  have j: "s \<in> all_fragment_ids bf \<and> t \<in> body_needs env access bf" if "(s, t) \<in> fst ` set j" for s t
  proof -
    have "join_sources env access (blf_filters bf) s t \<noteq> {}"
      using matches_nonempty [OF m(2) joins_not_empty [OF mf] that] m(5) by simp
    then obtain flts flt where flt: "(s, flts) \<in> set (blf_filters bf)" "flt \<in> set flts" "t \<in> set (flt_joins flt)" "rows_at env access s flt \<noteq> {}"
      by (auto simp: join_sources_def)
    moreover from flt(1) have "s \<in> all_fragment_ids bf" unfolding all_fragment_ids_def all_fragment_ids_loop by force
    ultimately show ?thesis unfolding body_needs_def by blast
  qed
  then show "fst ` fst ` set j \<subseteq> all_fragment_ids bf" "snd ` fst ` set j \<subseteq> body_needs env access bf" by force+
qed

lemma apply_joins_keys:
  "apply_joins env access joins m = Ok m' \<Longrightarrow> fst ` set m' \<subseteq> fst ` set m \<union> snd ` fst ` set joins"
proof (induction joins arbitrary: m)
  case (Cons x joins)
  obtain s t fm where x: "x = ((s, t), fm)" by (metis prod.collapse)
  then obtain tm where "apply_joins env access joins (bt_insert t tm m) = Ok m'"
    using Cons.prems by (auto simp: outcome_simps)
  from Cons.IH [OF this] show ?case unfolding x by (auto simp: set_bt_insert_keys)
qed simp

lemma filter_block_cong:
  assumes agree: "access_agrees (fe_serde env) ids bodies a b" and ok: "bt_ok (blf_filters bf)" and ids: "all_fragment_ids bf \<subseteq> ids"
    and needs: "body_needs env b bf \<subseteq> bodies"
  shows "filter_block env a is_live bf = filter_block env b is_live bf"
proof -
  have filters: "fst ` set (blf_filters bf) \<subseteq> ids"
    using ids unfolding all_fragment_ids_def all_fragment_ids_loop by force
  have joins: "apply_joins env a j m = apply_joins env b j m"
    if "match_fragments env b (blf_filters bf) ([], []) = Ok (m, j)" for m j
    using apply_joins_cong [OF agree] match_fragments_needs(2) [OF that ok] ids by blast
  have matches: "block_matches env a bf = block_matches env b bf"
    unfolding block_matches_def match_fragments_cong [OF agree filters]
    using joins by (cases "match_fragments env b (blf_filters bf) ([], [])") auto
  have bodies: "matched_bodies env a m = matched_bodies env b m" if bm: "block_matches env b bf = Ok m" for m
  proof -
    obtain m0 j where mf: "match_fragments env b (blf_filters bf) ([], []) = Ok (m0, j)" and aj: "apply_joins env b j m0 = Ok m"
      using bm by (auto simp: block_matches_def outcome_simps split: prod.splits)
    have "fst ` set m \<subseteq> bodies" using apply_joins_keys [OF aj] match_fragments_needs(1,3) [OF mf ok] needs by blast
    then show ?thesis by (rule matched_bodies_cong [OF agree])
  qed
  have header: "get_header_fragment (fe_serde env) a = get_header_fragment (fe_serde env) b"
    using agree by (simp add: access_agrees_def)
  show ?thesis
    unfolding filter_block_def matches header using bodies by (cases "block_matches env b bf") simp_all
qed

lemma filter_fragment_cong:
  assumes "access_agrees (fe_serde env) ids bodies a b"
    and "\<forall>bf \<in> set bfs. bt_ok (blf_filters bf) \<and> all_fragment_ids bf \<subseteq> ids \<and> body_needs env b bf \<subseteq> bodies"
  shows "filter_fragment env bfs a is_live = filter_fragment env bfs b is_live"
proof -
  have "filter_loop_blocks env a is_live bfs acc = filter_loop_blocks env b is_live bfs acc" for acc
    using assms(2)
  proof (induction bfs arbitrary: acc)
    case Nil
    then show ?case by (cases acc) simp
  next
    case (Cons bf bfs)
    then show ?case using filter_block_cong [OF assms(1), of bf is_live] by (cases acc) simp
  qed
  then show ?thesis by (simp add: filter_fragment_def)
qed

lemma body_needs_ids: "body_needs env access bf \<subseteq> all_fragment_ids bf"
  unfolding body_needs_def all_fragment_ids_def all_fragment_ids_loop by force

text \<open>C39: Filtering a block through its segment sends what filtering the block itself sends. If blocks are compacted
  into segment files by the builder, and a client's filters name only fragments of the chain, then for
  the \<open>i\<close>-th block the filter applied to the access into the downloaded segment files returns the same
  outcome (the same messages, the same flag, the same error) as applied to the stored block.\<close>

theorem filter_fragment_segment:
  fixes sa :: "'b segment_access"
  assumes S: "segment_codec (fe_serde env)" and fns: "fns \<noteq> []" and table: "fragment_table_ok fns" and order: "\<And>xs. mset (hash_order xs) = mset xs"
    and blocks: "\<forall>(c, bytes) \<in> set blocks. \<exists>blk. from_bytes (sd_block (fe_serde env)) bytes = Some blk \<and> uniform_fragments fns blk"
    and build: "obind (start_new_segment first default_segment_builder) (add_blocks (fe_serde env) blocks) = Ok b"
    and data: "segment_data (fe_serde env) hash_order b = Ok (segs, b')" and fetched: "segment_fetched fns segs sa"
    and i: "i < length blocks" and filters: "\<forall>bf \<in> set bfs. bt_ok (blf_filters bf) \<and> all_fragment_ids bf \<subseteq> set (map fst fns)"
  shows "filter_fragment env bfs (SegmentFA \<lparr>sba_offset = i, sba_segment = sa\<rparr>) is_live = filter_fragment env bfs (BlockFA (snd (blocks ! i))) is_live"
proof -
  obtain f where "f \<in> set (map fst fns)" using fns by (cases fns) auto
  note agree = segment_agrees [OF S table order blocks build data fetched i]
  have "access_agrees (fe_serde env) (set (map fst fns)) (set (map fst fns)) (SegmentFA \<lparr>sba_offset = i, sba_segment = sa\<rparr>) (BlockFA (snd (blocks ! i)))"
    using agree \<open>f \<in> set (map fst fns)\<close> unfolding access_agrees_def by blast
  moreover have "\<forall>bf \<in> set bfs. bt_ok (blf_filters bf) \<and> all_fragment_ids bf \<subseteq> set (map fst fns) \<and>
      body_needs env (BlockFA (snd (blocks ! i))) bf \<subseteq> set (map fst fns)"
    using filters body_needs_ids by (meson subset_trans)
  ultimately show ?thesis by (rule filter_fragment_cong)
qed

section \<open>Concrete runs\<close>

text \<open>A block with two transactions (fragment 2), each joined to the receipt (fragment 3) of the other row.\<close>

definition demo_joined_block :: block where
  "demo_joined_block = \<lparr>blk_header = \<lparr>hf_data = [9]\<rparr>,
     blk_index = \<lparr>igf_indexes = [\<lparr>ixf_fragment_id = 2, ixf_range_start = 0, ixf_range_len = 2, ixf_indexes = []\<rparr>]\<rparr>,
     blk_join = \<lparr>jgf_joins = [\<lparr>jf_fragment_id = 2, jf_joins =
       [\<lparr>je_to_fragment_id = 3, je_index = JoinOne \<lparr>jo_keys = [0, 1], jo_values = [1, 0]\<rparr>\<rparr>]\<rparr>]\<rparr>,
     blk_body = [\<lparr>bf_fragment_id = 2, bf_name = ''transaction'', bf_data = [[10], [11]]\<rparr>,
                 \<lparr>bf_fragment_id = 3, bf_name = ''receipt'', bf_data = [[20], [21]]\<rparr>]\<rparr>"

definition demo_joined_serde :: segment_serde where
  "demo_joined_serde = table_segment_serde [demo_joined_block] [] [] [] []"

definition demo_filter_env :: "segment_serde \<Rightarrow> nat list filter_env" where
  "demo_filter_env S = \<lparr>fe_serde = S, fe_roaring = list_roaring, fe_prost = leb128_prost, fe_id_order = sorted_list_of_set,
     fe_names = (\<lambda>f. if f = 2 then Some ''transaction'' else if f = 3 then Some ''receipt'' else None)\<rparr>"

definition demo_block_filter :: "fragment_id list \<Rightarrow> block_filter" where
  "demo_block_filter js = \<lparr>blf_header_filter = OnData,
     blf_filters = [(2, [\<lparr>flt_filter_id = 4, flt_fragment_id = 2, flt_conditions = [], flt_joins = js\<rparr>])]\<rparr>"

lemma order_ok_sorted: "order_ok sorted_list_of_set"
  by (simp add: order_ok_def)

lemma leb128_small: "n < 128 \<Longrightarrow> leb128 n = [word_of_nat n]"
  by (simp add: leb128.simps)

theorem filter_fragment_exact_witness:
  "\<exists>buf. filter_fragment (demo_filter_env demo_joined_serde) [demo_block_filter [3]] (BlockFA [0]) False = Ok (True, [buf]) \<and>
     block_decodes (demo_filter_env demo_joined_serde) (BlockFA [0]) False read_leb128_key read_leb128
       (demo_block_filter [3]) buf"
proof -
  let ?S = demo_joined_serde
  let ?env = "demo_filter_env ?S"
  let ?fm = "[(0, {4}), (1, {4})] :: filter_match"
  have dec: "from_bytes (sd_block ?S) [0] = Some demo_joined_block"
    by (simp add: demo_joined_serde_def table_segment_serde_def table_serde_def)
  have reads: "block_index_fragment ?S 2 [0] = Ok \<lparr>ixf_fragment_id = 2, ixf_range_start = 0, ixf_range_len = 2, ixf_indexes = []\<rparr>"
    "block_join_fragment ?S 2 [0] = Ok (jgf_joins (blk_join demo_joined_block) ! 0)"
    "block_header_fragment ?S [0] = Ok (blk_header demo_joined_block)"
    "block_body_fragment ?S 2 [0] = Ok (blk_body demo_joined_block ! 0)" "block_body_fragment ?S 3 [0] = Ok (blk_body demo_joined_block ! 1)"
    by (simp_all add: block_index_fragment_def block_join_fragment_def block_header_fragment_def block_body_fragment_def
        access_unchecked_def dec find_fragment_def demo_joined_block_def)
  have "as_u32 2 = 2" by (simp add: as_u32_def u32_lim_def)
  then have rows: "filter_rows list_roaring \<lparr>flt_filter_id = 4, flt_fragment_id = 2, flt_conditions = [], flt_joins = [3]\<rparr>
      \<lparr>ixf_fragment_id = 2, ixf_range_start = 0, ixf_range_len = 2, ixf_indexes = []\<rparr> = Ok [0, 1]"
    by (simp add: filter_rows_def list_roaring_def numeral_2_eq_2)
  have iter: "rb_iter list_roaring [0, 1] = [0, 1]" by (simp add: list_roaring_def list_iter_def)
  have "match_fragments ?env (BlockFA [0]) (blf_filters (demo_block_filter [3])) ([], []) = Ok ([(2, ?fm)], [((2, 3), ?fm)])"
    by (simp add: demo_filter_env_def demo_block_filter_def reads rows [simplified] iter [simplified] Let_def add_match_def add_joins_def
        bt_entry_def bt_get_or_def bt_get_def)
  moreover have "join_one_get \<lparr>jo_keys = [0, 1], jo_values = [1, 0]\<rparr> 0 = (Ok (Some 1) :: (_, data_stream_error) outcome)"
      "join_one_get \<lparr>jo_keys = [0, 1], jo_values = [1, 0]\<rparr> 1 = (Ok (Some 0) :: (_, data_stream_error) outcome)"
    by (simp_all add: join_one_get_def binary_search_by_def search_loop.simps cmp_def fetch_def)
  ultimately have matches: "block_matches ?env (BlockFA [0]) (demo_block_filter [3]) = Ok [(2, ?fm), (3, ?fm)]"
    by (simp add: block_matches_def demo_filter_env_def reads find_fragment_def demo_joined_block_def join_match_def
        bt_get_or_def bt_get_def add_single_match_def bt_entry_def)
  have len: "encoded_header_len leb128_prost HEADER_FRAGMENT_ID 1 = Ok 3"
      "encoded_body_item_len leb128_prost 2 [4] 1 = Ok 6" "encoded_body_item_len leb128_prost 3 [4] 1 = Ok 6"
    and enc: "encode_body_item leb128_prost 2 [4] [b] out = Ok (out @ [18, 4, 10, 1, 4, b])"
      "encode_body_item leb128_prost 3 [4] [b] out = Ok (out @ [26, 4, 10, 1, 4, b])" for b out
    by (simp_all add: encoded_header_len_def encoded_body_item_len_def encoded_body_item_len_from_parts_def encoded_filter_ids_len_def
        encoded_length_delimited_field_len_def packed_filter_ids_payload_len_def checked_add_def leb128_prost_def leb128_small
        encode_body_item_def encode_filter_ids_def FILTER_IDS_TAG_def HEADER_FRAGMENT_ID_def u64_lim_def)
  have "\<exists>buf. filter_block ?env (BlockFA [0]) False (demo_block_filter [3]) = Ok buf \<and> buf \<noteq> []"
    unfolding filter_block_def matches
    by (simp add: should_send_header_def demo_block_filter_def demo_filter_env_def reads demo_joined_block_def
        len [simplified] enc checked_add_def u64_lim_def)
  then have run: "\<exists>buf. filter_fragment ?env [demo_block_filter [3]] (BlockFA [0]) False = Ok (True, [buf])"
    by (auto simp: filter_fragment_def)
  then obtain buf where run: "filter_fragment ?env [demo_block_filter [3]] (BlockFA [0]) False = Ok (True, [buf])" by blast
  have "protobuf (fe_prost ?env) read_leb128_key read_leb128" "order_ok (fe_id_order ?env)" "list_all filter_ok [demo_block_filter [3]]"
    using leb.protobuf_axioms order_ok_sorted
    by (simp_all add: demo_filter_env_def filter_ok_def demo_block_filter_def all_fragment_ids_def HEADER_FRAGMENT_ID_def u32_lim_def bt_ok_def)
  from filter_fragment_exact [OF this run] show ?thesis using run by simp
qed

theorem filter_fragment_segment_witness:
  "filter_fragment (demo_filter_env demo_segment_serde) [demo_block_filter []] (SegmentFA \<lparr>sba_offset = 1, sba_segment = demo_segment_access\<rparr>) False =
     filter_fragment (demo_filter_env demo_segment_serde) [demo_block_filter []] (BlockFA [1]) False"
proof -
  let ?env = "demo_filter_env demo_segment_serde"
  have S: "fe_serde ?env = demo_segment_serde" by (simp add: demo_filter_env_def)
  obtain b segs b' where built: "segment_codec demo_segment_serde" "fragment_table_ok [(2, ''transaction'')]"
    "\<forall>(c, bytes) \<in> set demo_segment_blocks. \<exists>blk. from_bytes (sd_block demo_segment_serde) bytes = Some blk \<and>
      uniform_fragments [(2, ''transaction'')] blk"
    "obind (start_new_segment (new_finalized 5) default_segment_builder) (add_blocks demo_segment_serde demo_segment_blocks) = Ok b"
    "segment_data demo_segment_serde rev b = Ok (segs, b')" "segment_fetched [(2, ''transaction'')] segs demo_segment_access"
    by (rule demo_segment_built)
  have "\<forall>bf \<in> set [demo_block_filter []]. bt_ok (blf_filters bf) \<and> all_fragment_ids bf \<subseteq> set (map fst [(2, ''transaction'')])"
    by (simp add: demo_block_filter_def all_fragment_ids_def bt_ok_def)
  from filter_fragment_segment [where env = ?env, unfolded S, OF built(1) list.distinct(2) built(2) mset_rev built(3-6) _ this, of 1 False]
  show ?thesis by (simp add: demo_segment_blocks_def)
qed

end
