(* ===== verification/Backfill.thy ===== *)
theory Backfill
  imports DataStream
begin

text \<open>
  Sending compacted blocks: the composition of the segment stream, the file cache, the segment builder, the
  group index and the block filter in \<open>DataStream::tick_segment_stream\<close>. The reference is to
  filter the stored blocks one after the other.
\<close>

section \<open>Segment files\<close>

definition segment_content :: "(nat \<Rightarrow> string \<rightharpoonup> bytes) \<Rightarrow> string \<Rightarrow> bytes \<Rightarrow> bool" where
  "segment_content F k bs \<longleftrightarrow> (\<exists>n name. k = format_segment_key (new_finalized n) name \<and> F n name = Some bs)"

text \<open>The group and segment files that exist, in the bucket or in the cache, hold the groups \<open>G\<close> and the bytes \<open>F\<close>.\<close>

definition stream_content ::
  "'w block_store \<Rightarrow> (nat \<rightharpoonup> segment_group) \<Rightarrow> (nat \<Rightarrow> string \<rightharpoonup> bytes) \<Rightarrow> string \<Rightarrow> bytes \<Rightarrow> bool" where
  "stream_content st G F k bs \<longleftrightarrow> group_content st G k bs \<or> segment_content F k bs"

lemma segment_key_number: "format_segment_key c name = format_segment_key (new_finalized (cur_number c)) name"
  by (simp add: format_segment_key_def new_finalized_def)

lemma segment_key_inject:
  "format_segment_key (new_finalized m) s = format_segment_key (new_finalized n) t \<longleftrightarrow> m = n \<and> s = t"
  by (simp add: format_segment_key_def new_finalized_def)

lemma file_kinds: "format_segment_key c name \<noteq> format_group_key c'"
  by (simp add: format_segment_key_def format_group_key_def)

lemma knows_both: "knows_groups st G file_keys (stream_content st G F)"
  using file_kinds by (auto simp: knows_groups_def stream_content_def segment_content_def) metis

lemma segment_known: "stream_content st G F (format_segment_key (new_finalized n) name) bs \<Longrightarrow> F n name = Some bs"
  using file_kinds by (auto simp: stream_content_def segment_content_def group_content_def segment_key_inject)

context file_reads
begin

lemma segment_read:
  assumes "files_ok st objects cached file_keys (stream_content st G F) w" and "reader_get_segment st c name w = (r, w')"
  shows "files_ok st objects cached file_keys (stream_content st G F) w'" and "r = Ok bs \<Longrightarrow> F (cur_number c) name = Some bs"
proof -
  let ?key = "format_segment_key (new_finalized (cur_number c)) name"
  have "hc_get_or_fetch (bs_general st) ?key (fetch_body st ?key) w = (r, w')"
    using assms(2) segment_key_number [of c name] by (simp add: reader_get_segment_def Let_def)
  note read = file_read [OF assms(1) _ _ this]
  show "files_ok st objects cached file_keys (stream_content st G F) w'" using read(1) by simp
  show "F (cur_number c) name = Some bs" if "r = Ok bs" using read(2) that by (simp add: segment_known)
qed

lemma wait_fragments_spec:
  assumes "wait_fragments st rs files w = (Ok files', w')" and "files_ok st objects cached file_keys (stream_content st G F) w"
    and "distinct (map fst rs)"
  shows "files_ok st objects cached file_keys (stream_content st G F) w' \<and>
    (\<forall>fid. case map_of rs fid of None \<Rightarrow> files' fid = files fid
       | Some (c, name) \<Rightarrow> files' fid = F (cur_number c) name \<and> files' fid \<noteq> None)"
  using assms
proof (induction rs arbitrary: files w)
  case (Cons r rs)
  obtain fid c name where r: "r = (fid, c, name)" by (metis prod.collapse)
  then obtain bs w1 where read: "reader_get_segment st c name w = (Ok bs, w1)"
    and rest: "wait_fragments st rs (files(fid \<mapsto> bs)) w1 = (Ok files', w')"
    using Cons.prems(1) by (auto simp: outcome_simps)
  note got = segment_read [OF Cons.prems(2) read]
  have none: "map_of rs fid = None" using Cons.prems(3) r by (simp add: map_of_eq_None_iff)
  have dist: "distinct (map fst rs)" using Cons.prems(3) by simp
  note IH = Cons.IH [OF rest got(1) dist]
  have "case map_of (r # rs) k of None \<Rightarrow> files' k = files k
      | Some (c, name) \<Rightarrow> files' k = F (cur_number c) name \<and> files' k \<noteq> None" for k
    using spec [OF conjunct2 [OF IH], of k] none got(2) r by (cases "k = fid"; cases "map_of rs k") simp_all
  then show ?case using conjunct1 [OF IH] by blast
qed simp

lemma fetch_wait_spec:
  assumes "fetch_wait st f w = (Ok sa, w')" and "files_ok st objects cached file_keys (stream_content st G F) w"
    and "distinct (map fst (saf_fragments f))"
  shows "files_ok st objects cached file_keys (stream_content st G F) w' \<and>
    sa_first_block sa = saf_first_block f \<and> sa_blocks sa = saf_blocks f \<and>
    (\<forall>fid c name. map_of (saf_fragments f) fid = Some (c, name) \<longrightarrow>
       sa_fragments sa fid = F (cur_number c) name \<and> F (cur_number c) name \<noteq> None)"
proof -
  obtain files where files: "wait_fragments st (saf_fragments f) Map.empty w = (Ok files, w')"
    and sa: "sa = \<lparr>sa_first_block = saf_first_block f, sa_blocks = saf_blocks f, sa_fragments = files\<rparr>"
    using assms(1) by (auto simp: fetch_wait_def outcome_simps)
  have "files fid = F (cur_number c) name \<and> F (cur_number c) name \<noteq> None" if "map_of (saf_fragments f) fid = Some (c, name)" for fid c name
    using spec [OF conjunct2 [OF wait_fragments_spec [OF files assms(2,3)]], of fid] that by (auto dest: sym)
  then show ?thesis using wait_fragments_spec [OF files assms(2,3)] sa by simp
qed

end

text \<open>The names of the files, and the files of a segment as the builder makes them from \<open>sz\<close> blocks.\<close>

definition file_names :: "(fragment_id \<times> string) list \<Rightarrow> (fragment_id \<times> string) list" where
  "file_names fns = [(INDEX_FRAGMENT_ID, INDEX_FRAGMENT_NAME), (JOIN_FRAGMENT_ID, JOIN_FRAGMENT_NAME),
     (HEADER_FRAGMENT_ID, HEADER_FRAGMENT_NAME)] @ fns"

definition names_ok :: "(fragment_id \<times> string) list \<Rightarrow> (fragment_id \<rightharpoonup> string) \<Rightarrow> bool" where
  "names_ok fns names \<longleftrightarrow> (\<forall>(fid, name) \<in> set (file_names fns). names fid = Some name)"

definition segment_files_of ::
  "segment_serde \<Rightarrow> (fragment_id \<times> string) list \<Rightarrow> nat \<Rightarrow> (nat \<Rightarrow> bytes) \<Rightarrow> nat \<Rightarrow> (string \<rightharpoonup> bytes) \<Rightarrow> bool" where
  "segment_files_of S fns sz B first files \<longleftrightarrow> (\<exists>c0 blocks hash_order b segs b'. (\<forall>xs. mset (hash_order xs) = mset xs) \<and>
     map snd blocks = map B [first..<first + sz] \<and>
     (\<forall>(c, bytes) \<in> set blocks. \<exists>blk. from_bytes (sd_block S) bytes = Some blk \<and> uniform_fragments fns blk) \<and>
     obind (start_new_segment c0 default_segment_builder) (add_blocks S blocks) = Ok b \<and> segment_data S hash_order b = Ok (segs, b') \<and>
     (\<forall>(fid, name) \<in> set (file_names fns). \<exists>sg \<in> set segs. ss_name sg = name \<and> files name = Some (ss_data sg)))"

lemma segment_access_agreement:
  fixes sa :: "'b segment_access"
  assumes S: "segment_codec S" and table: "fns \<noteq> []" "fragment_table_ok fns" and names: "names_ok fns names"
    and files: "segment_files_of S fns sz B first files" and n: "first \<le> n" "n < first + sz"
    and got: "\<forall>fid \<in> needed. \<exists>name. names fid = Some name \<and> sa_fragments sa fid = files name"
    and common: "{INDEX_FRAGMENT_ID, JOIN_FRAGMENT_ID, HEADER_FRAGMENT_ID} \<subseteq> needed"
  shows "access_agrees S (set (map fst fns)) (needed \<inter> set (map fst fns))
    (SegmentFA \<lparr>sba_offset = n - first, sba_segment = sa\<rparr>) (BlockFA (B n))"
proof -
  obtain c0 blocks hash_order b segs b' where order: "\<And>xs. mset (hash_order xs) = mset xs"
    and blocks: "map snd blocks = map B [first..<first + sz]"
      "\<forall>(c, bytes) \<in> set blocks. \<exists>blk. from_bytes (sd_block S) bytes = Some blk \<and> uniform_fragments fns blk"
    and build: "obind (start_new_segment c0 default_segment_builder) (add_blocks S blocks) = Ok b" "segment_data S hash_order b = Ok (segs, b')"
    and segs: "\<forall>(fid, name) \<in> set (file_names fns). \<exists>sg \<in> set segs. ss_name sg = name \<and> files name = Some (ss_data sg)"
    using files unfolding segment_files_of_def by blast
  define full where "full = sa\<lparr>sa_fragments := (\<lambda>fid. Option.bind (names fid) files)\<rparr>"
  have len: "length blocks = sz" using arg_cong [OF blocks(1), of length] by simp
  have nth: "snd (blocks ! (n - first)) = B n" using arg_cong [OF blocks(1), of "\<lambda>xs. xs ! (n - first)"] n len by simp
  have "segment_fetched fns segs full"
    using segs names unfolding segment_fetched_def names_ok_def file_names_def [symmetric] list_all_iff list_ex_iff full_def by fastforce
  from segment_agrees [OF S table(2) order blocks(2) build this] n len nth
  have agree: "get_index_fragment S fid (SegmentFA \<lparr>sba_offset = n - first, sba_segment = full\<rparr>) = get_index_fragment S fid (BlockFA (B n) :: 'b fragment_access) \<and>
    get_join_fragment S fid (SegmentFA \<lparr>sba_offset = n - first, sba_segment = full\<rparr>) = get_join_fragment S fid (BlockFA (B n) :: 'b fragment_access) \<and>
    get_header_fragment S (SegmentFA \<lparr>sba_offset = n - first, sba_segment = full\<rparr>) = get_header_fragment S (BlockFA (B n) :: 'b fragment_access) \<and>
    get_body_fragment S fid (SegmentFA \<lparr>sba_offset = n - first, sba_segment = full\<rparr>) = get_body_fragment S fid (BlockFA (B n) :: 'b fragment_access)"
    if "fid \<in> set (map fst fns)" for fid using that by fastforce
  have same: "sa_fragments sa fid = sa_fragments full fid" if "fid \<in> needed" for fid
    using got that by (auto simp: full_def)
  have entry: "segment_entry s fid \<lparr>sba_offset = n - first, sba_segment = sa\<rparr> = segment_entry s fid \<lparr>sba_offset = n - first, sba_segment = full\<rparr>"
    if "fid \<in> needed" for s :: "'z segment serde" and fid
    using same [OF that] by (simp add: segment_entry_def split: option.split)
  obtain f where f: "f \<in> set (map fst fns)" using table(1) by (cases fns) auto
  show ?thesis
    unfolding access_agrees_def using agree agree [OF f] common
    by (auto simp: segment_index_fragment_def segment_join_fragment_def segment_header_fragment_def segment_body_fragment_def entry)
qed

section \<open>Filtering block by block\<close>

text \<open>The reference: the message for a block, if the stored block has data for the client.\<close>

definition block_messages :: "('w, 'b) data_stream \<Rightarrow> (nat \<Rightarrow> bytes) \<Rightarrow> nat \<Rightarrow> message list" where
  "block_messages d B n = (case filter_fragment (ds_env d) (ds_block_filter d) (BlockFA (B n)) False of
     Ok (True, blocks) \<Rightarrow> [segment_message (new_finalized n) blocks]
   | _ \<Rightarrow> [])"

definition advance :: "cursor option \<Rightarrow> nat list \<Rightarrow> cursor option" where
  "advance current ns = (if ns = [] then current else Some (new_finalized (last ns)))"

lemma advance_simps [simp]:
  "advance current [] = current" "advance current (n # ns) = advance (Some (new_finalized n)) ns"
  "advance current (ms @ ns) = advance (advance current ms) ns"
  by (simp_all add: advance_def)

lemma send_segment_blocks_spec:
  assumes "send_segment_blocks c (map (\<lambda>n. Ok (access n)) ns) (d\<lparr>ds_current := current\<rparr>) (w, out) = (Ok r, wo')"
    and "\<forall>n \<in> set ns. sba_cursor (access n) = new_finalized n \<and>
      filter_fragment (ds_env d) (ds_block_filter d) (SegmentFA (access n)) False = filter_fragment (ds_env d) (ds_block_filter d) (BlockFA (B n)) False"
    and "\<not> ds_cancelled d w \<and> \<not> ds_closed d w"
  shows "r = (d\<lparr>ds_current := advance current (filter (\<lambda>n. cur_number c \<le> n) ns)\<rparr>, True) \<and>
    wo' = (w, out @ concat (map (block_messages d B) (filter (\<lambda>n. cur_number c \<le> n) ns)))"
  using assms(1,2)
proof (induction ns arbitrary: current out)
  case (Cons n ns)
  have cur: "cur_number (sba_cursor (access n)) = n" "sba_cursor (access n) = new_finalized n"
    using Cons.prems(2) by (simp_all add: new_finalized_def)
  have rest: "\<forall>n \<in> set ns. sba_cursor (access n) = new_finalized n \<and>
      filter_fragment (ds_env d) (ds_block_filter d) (SegmentFA (access n)) False = filter_fragment (ds_env d) (ds_block_filter d) (BlockFA (B n)) False"
    using Cons.prems(2) by simp
  show ?case
  proof (cases "n < cur_number c")
    case True
    then have "send_segment_blocks c (map (\<lambda>n. Ok (access n)) ns) (d\<lparr>ds_current := current\<rparr>) (w, out) = (Ok r, wo')"
      using Cons.prems(1) cur(1) by (simp add: Let_def)
    then show ?thesis using Cons.IH [OF _ rest] True by simp
  next
    case False
    then obtain has_data blocks where filtered: "filter_fragment (ds_env d) (ds_block_filter d) (BlockFA (B n)) False = Ok (has_data, blocks)"
      and go: "send_segment_blocks c (map (\<lambda>n. Ok (access n)) ns) (d\<lparr>ds_current := Some (new_finalized n)\<rparr>)
        (w, out @ block_messages d B n) = (Ok r, wo')"
      using Cons.prems assms(3) cur
      by (auto simp: Let_def outcome_simps reserve_send_def block_messages_def split: if_splits)
    show ?thesis using Cons.IH [OF go rest] False by simp
  qed
qed simp

text \<open>A block has data only if headers are always wanted or a filter selects a row.\<close>

lemma filter_block_empty:
  assumes "filter_block env access False bf = Ok buf" and "buf \<noteq> []" and "bt_ok (blf_filters bf)" and "order_ok (fe_id_order env)"
  shows "always_include_header bf \<or> (\<exists>(fid, flts) \<in> set (blf_filters bf). \<exists>flt \<in> set flts. rows_at env access fid flt \<noteq> {})"
proof (rule ccontr)
  assume none: "\<not> ?thesis"
  then have "direct env access (blf_filters bf) f = {}" for f by (auto simp: direct_def)
  moreover obtain matches where matches: "block_matches env access bf = Ok matches" using assms(1) by (auto simp: filter_block_def outcome_simps)
  ultimately have "matches = []" using block_matches_spec [OF matches assms(3,4)] by auto
  moreover have "\<not> should_send_header bf False []" using none by (auto simp: should_send_header_def always_include_header_def split: header_filter.splits)
  ultimately show False using assms(1,2) matches by (simp add: filter_block_def)
qed

lemma filter_fragment_data:
  assumes "filter_fragment env bfs access False = Ok (True, out)" and "order_ok (fe_id_order env)" and "\<forall>bf \<in> set bfs. bt_ok (blf_filters bf)"
  shows "\<exists>bf \<in> set bfs. always_include_header bf \<or> (\<exists>(fid, flts) \<in> set (blf_filters bf). \<exists>flt \<in> set flts. rows_at env access fid flt \<noteq> {})"
proof -
  have all: "list_all2 (\<lambda>bf buf. filter_block env access False bf = Ok buf) bfs out" and "\<exists>buf \<in> set out. buf \<noteq> []"
    using filter_loop_blocks_spec [OF assms(1) [unfolded filter_fragment_def]] by auto
  then obtain i where "i < length out" "out ! i \<noteq> []" by (metis in_set_conv_nth)
  then have i: "filter_block env access False (bfs ! i) = Ok (out ! i)" "bfs ! i \<in> set bfs" "out ! i \<noteq> []"
    using all by (auto simp: list_all2_conv_all_nth)
  show ?thesis using filter_block_empty [OF i(1,3) _ assms(2)] i(2) assms(3) by (intro bexI [OF _ i(2)]) blast
qed

lemma rows_at_block:
  assumes "rows_at env (BlockFA bytes) fid flt \<noteq> {}"
  shows "\<exists>blk fr rows. from_bytes (sd_block (fe_serde env)) bytes = Some blk \<and> fr \<in> set (igf_indexes (blk_index blk)) \<and>
    ixf_fragment_id fr = fid \<and> filter_rows (fe_roaring env) flt fr = Ok rows \<and> rb_iter (fe_roaring env) rows \<noteq> []"
proof -
  obtain fr where fr: "block_index_fragment (fe_serde env) fid bytes = Ok fr" and rows: "rows_of (fe_roaring env) flt fr \<noteq> {}"
    using assms by (auto simp: rows_at_def split: outcome.splits)
  then obtain blk where "from_bytes (sd_block (fe_serde env)) bytes = Some blk" "find (\<lambda>x. ixf_fragment_id x = fid) (igf_indexes (blk_index blk)) = Some fr"
    by (auto simp: block_index_fragment_def access_unchecked_def find_fragment_def outcome_simps split: option.splits)
  moreover from this(2) have "fr \<in> set (igf_indexes (blk_index blk))" "ixf_fragment_id fr = fid" by (auto simp: find_Some_iff)
  ultimately show ?thesis using rows by (auto simp: rows_of_def split: outcome.splits)
qed

section \<open>The contract of a backfill\<close>

text \<open>A client's filters: ordered by fragment, on fragments of the chain only.\<close>

definition client_filter :: "(fragment_id \<times> string) list \<Rightarrow> block_filter \<Rightarrow> bool" where
  "client_filter fns bf \<longleftrightarrow> bt_ok (blf_filters bf) \<and> all_fragment_ids bf \<subseteq> set (map fst fns) \<and>
     (\<forall>(fid, flts) \<in> set (blf_filters bf). \<forall>flt \<in> set flts. flt_fragment_id flt = fid)"

definition index_of :: "segment_serde \<Rightarrow> (nat \<Rightarrow> bytes) \<Rightarrow> nat \<Rightarrow> index_group_fragment" where
  "index_of S B n = blk_index (the (from_bytes (sd_block S) (B n)))"

text \<open>The stored blocks are \<open>B\<close>. Groups and segments were built from them, no index is left empty, and the client
  stays.\<close>

locale backfill =
  stream_env "segment_stream_of d" objects cached
  for d :: "('w, 'b) data_stream" and objects :: "'w \<Rightarrow> string \<rightharpoonup> object_version \<times> bytes" and cached :: "'w \<Rightarrow> string \<rightharpoonup> bytes" +
  fixes fns :: "(fragment_id \<times> string) list" and B :: "nat \<Rightarrow> bytes" and G :: "nat \<rightharpoonup> segment_group"
    and F :: "nat \<Rightarrow> string \<rightharpoonup> bytes" and kind :: "fragment_id \<Rightarrow> index_id \<Rightarrow> nat" and gsz sz :: nat
  assumes codec: "segment_codec (fe_serde (ds_env d))" and table: "fns \<noteq> []" "fragment_table_ok fns" "names_ok fns (fe_names (ds_env d))"
    and id_order: "order_ok (fe_id_order (ds_env d))"
    and filters: "ds_block_filter d \<noteq> []" "bf \<in> set (ds_block_filter d) \<Longrightarrow> client_filter fns bf"
    and limits: "stream_limits (segment_stream_of d) gsz sz"
    and groups: "G first = Some g \<Longrightarrow> compacted_from (fe_roaring (ds_env d)) kind sz (gsz * sz) (index_of (fe_serde (ds_env d)) B) first g"
    and segments: "F first name = Some bs \<Longrightarrow> segment_files_of (fe_serde (ds_env d)) fns sz B first (F first)"
    and indexed: "fr \<in> set (igf_indexes (index_of (fe_serde (ds_env d)) B n)) \<Longrightarrow> e \<in> set (ixf_indexes fr) \<Longrightarrow> ie_index e \<noteq> EmptyI"
    and stays: "\<not> ds_cancelled d w" "\<not> ds_closed d w"
begin

lemma stream_sel [simp]:
  "sst_block_filter (segment_stream_of d) = ds_block_filter d" "sst_fragment_id_to_name (segment_stream_of d) = fe_names (ds_env d)"
  "sst_store (segment_stream_of d) = ds_store d" "sst_view (segment_stream_of d) = ds_view d" "sst_roaring (segment_stream_of d) = fe_roaring (ds_env d)"
  by (simp_all add: segment_stream_of_def)

text \<open>A filter that selects a row of a block selects the block in its group.\<close>

lemma group_has_block:
  assumes rows: "rows_at (ds_env d) (BlockFA (B n)) fid flt \<noteq> {}" and flt: "bf \<in> set (ds_block_filter d)" "(fid, flts) \<in> set (blf_filters bf)" "flt \<in> set flts"
    and g: "G first = Some g" "first \<le> n" "n < first + gsz * sz"
  shows "n \<in> filter_blocks (fe_roaring (ds_env d)) (sg_index g) fid flt"
proof -
  obtain blk fr rows where fr: "from_bytes (sd_block (fe_serde (ds_env d))) (B n) = Some blk" "fr \<in> set (igf_indexes (blk_index blk))"
    "ixf_fragment_id fr = fid" "filter_rows (fe_roaring (ds_env d)) flt fr = Ok rows" "rb_iter (fe_roaring (ds_env d)) rows \<noteq> []"
    using rows_at_block [OF rows] by blast
  have ix: "fr \<in> set (igf_indexes (index_of (fe_serde (ds_env d)) B n))" using fr(1,2) by (simp add: index_of_def)
  have id: "flt_fragment_id flt = fid" using filters(2) [OF flt(1)] flt(2,3) by (auto simp: client_filter_def)
  show ?thesis
    using compacted_selects [OF bm.roaring_bitmap_axioms [simplified] groups [OF g(1)] g(2,3) ix _ _ fr(4,5)] fr(3) id indexed [OF ix] by simp
qed

lemma fetched_block:
  assumes f: "carries (segment_stream_of d) (\<lambda>n. G (group_start b (gsz * sz) n)) f"
      "m \<le> n \<Longrightarrow> requests (segment_stream_of d) (all_needed (ds_block_filter d)) f"
    and n: "n \<in> set (rb_iter (fe_roaring (ds_env d)) (saf_blocks f))" "saf_first_block f \<le> n" "n < saf_first_block f + sz" "n < u64_lim"
      "b \<le> n" "n < m \<Longrightarrow> G (group_start b (gsz * sz) n) \<noteq> None"
    and sa: "sa_first_block sa = saf_first_block f" "\<forall>fid c name. map_of (saf_fragments f) fid = Some (c, name) \<longrightarrow>
       sa_fragments sa fid = F (cur_number c) name \<and> F (cur_number c) name \<noteq> None"
  shows "sba_cursor \<lparr>sba_offset = n - saf_first_block f, sba_segment = sa\<rparr> = new_finalized n \<and>
    filter_fragment (ds_env d) (ds_block_filter d) (SegmentFA \<lparr>sba_offset = n - saf_first_block f, sba_segment = sa\<rparr>) False =
    filter_fragment (ds_env d) (ds_block_filter d) (BlockFA (B n)) False"
proof -
  let ?first = "saf_first_block f"
  define needed where "needed = {fid. requests (segment_stream_of d) {fid} f}"
  have needed: "ids \<subseteq> needed" if "requests (segment_stream_of d) ids f" for ids
    using that by (auto simp: needed_def requests_def)
  have common: "{INDEX_FRAGMENT_ID, JOIN_FRAGMENT_ID, HEADER_FRAGMENT_ID} \<subseteq> needed"
    using f(1) filters(1) by (intro needed) (simp add: carries_def initial_fragments_def)
  have got: "\<forall>fid \<in> needed. \<exists>name. fe_names (ds_env d) fid = Some name \<and> sa_fragments sa fid = F ?first name \<and> F ?first name \<noteq> None"
  proof
    fix fid assume "fid \<in> needed"
    then obtain name where name: "fe_names (ds_env d) fid = Some name" "map_of (saf_fragments f) fid = Some (new_finalized ?first, name)"
      by (auto simp: needed_def requests_def simp del: map_of_eq_Some_iff)
    have "sa_fragments sa fid = F ?first name \<and> F ?first name \<noteq> None"
      using sa(2) [rule_format, OF name(2)] by (simp add: new_finalized_def)
    then show "\<exists>name. fe_names (ds_env d) fid = Some name \<and> sa_fragments sa fid = F ?first name \<and> F ?first name \<noteq> None"
      using name(1) by blast
  qed
  then have files: "segment_files_of (fe_serde (ds_env d)) fns sz B ?first (F ?first)" using common segments by blast
  have agree: "access_agrees (fe_serde (ds_env d)) (set (map fst fns)) (needed \<inter> set (map fst fns))
      (SegmentFA \<lparr>sba_offset = n - ?first, sba_segment = sa\<rparr>) (BlockFA (B n))"
    using segment_access_agreement [OF codec table files n(2,3) _ common] got by blast
  have needs: "body_needs (ds_env d) (BlockFA (B n)) bf \<subseteq> needed" if bf: "bf \<in> set (ds_block_filter d)" for bf
  proof
    fix x assume x: "x \<in> body_needs (ds_env d) (BlockFA (B n)) bf"
    then obtain fid flts flt where flt: "(fid, flts) \<in> set (blf_filters bf)" "flt \<in> set flts"
      "rows_at (ds_env d) (BlockFA (B n)) fid flt \<noteq> {}" "x \<in> insert fid (set (flt_joins flt))"
      unfolding body_needs_def by blast
    show "x \<in> needed"
    proof (cases "m \<le> n")
      case True
      then show ?thesis using needed [OF f(2)] bf subsetD [OF body_needs_ids x] by (auto simp: all_needed_eq)
    next
      case False
      then obtain g where g: "G (group_start b (gsz * sz) n) = Some g" using n(6) by auto
      have "0 < gsz * sz" using limits by (simp add: stream_limits_def)
      from group_start_bounds [OF this n(5)] have "n \<in> filter_blocks (fe_roaring (ds_env d)) (sg_index g) fid flt"
        using group_has_block [OF flt(3) bf flt(1,2) g] by simp
      then have "requests (segment_stream_of d) (insert fid (set (flt_joins flt))) f"
        using f(1) bf flt(1,2) n(1) g unfolding carries_def by fastforce
      then show ?thesis using needed flt(4) by blast
    qed
  qed
  have "\<forall>bf \<in> set (ds_block_filter d). bt_ok (blf_filters bf) \<and> all_fragment_ids bf \<subseteq> set (map fst fns) \<and>
      body_needs (ds_env d) (BlockFA (B n)) bf \<subseteq> needed \<inter> set (map fst fns)"
    using filters(2) needs body_needs_ids unfolding client_filter_def by (meson Int_greatest subset_trans)
  from filter_fragment_cong [OF agree this] show ?thesis
    using sa(1) n(2,4) by (simp add: sba_cursor_def sba_block_number_def u64_simps)
qed

lemma consume_segments_spec:
  assumes "consume_segments c fs (d\<lparr>ds_current := current\<rparr>) (w, out) = (Ok d', wo')"
    and "files_ok (ds_store d) objects cached file_keys (stream_content (ds_store d) G F) w"
    and "\<forall>f \<in> set fs. carries (segment_stream_of d) (\<lambda>n. G (group_start b (gsz * sz) n)) f \<and>
       (\<forall>n \<in> set (rb_iter (fe_roaring (ds_env d)) (saf_blocks f)). (m \<le> n \<longrightarrow> requests (segment_stream_of d) (all_needed (ds_block_filter d)) f) \<and>
          saf_first_block f \<le> n \<and> n < saf_first_block f + sz \<and> n < u64_lim \<and> b \<le> n \<and> (n < m \<longrightarrow> G (group_start b (gsz * sz) n) \<noteq> None))"
  shows "\<exists>w'. let ns = filter (\<lambda>n. cur_number c \<le> n) (fetched_blocks (fe_roaring (ds_env d)) fs) in
    d' = d\<lparr>ds_current := advance current ns\<rparr> \<and> wo' = (w', out @ concat (map (block_messages d B) ns))"
  using assms
proof (induction fs arbitrary: current w out)
  case (Cons f fs)
  let ?d = "d\<lparr>ds_current := current\<rparr>" let ?R = "fe_roaring (ds_env d)"
  obtain sa wo1 d1 ok wo2 where wait: "on_world (fetch_wait (ds_store d) f) (w, out) = (Ok sa, wo1)"
    and send: "send_segment_blocks c (segment_access_iter ?R sa) ?d wo1 = (Ok (d1, ok), wo2)"
    and rest: "(if ok then consume_segments c fs d1 else ireturn d1) wo2 = (Ok d', wo')"
    using Cons.prems(1) stays by (auto simp: outcome_simps split: if_splits)
  obtain w1 where w1: "wo1 = (w1, out)" "fetch_wait (ds_store d) f w = (Ok sa, w1)" using wait by (cases wo1) (simp add: on_world_eq)
  have f: "carries (segment_stream_of d) (\<lambda>n. G (group_start b (gsz * sz) n)) f" using Cons.prems(3) by simp
  have "distinct (map fst (saf_fragments f))" using f by (simp add: carries_def requests_def)
  note sa = fetch_wait_spec [simplified, OF w1(2) Cons.prems(2) this]
  have iter: "segment_access_iter ?R sa = map (\<lambda>n. Ok \<lparr>sba_offset = n - saf_first_block f, sba_segment = sa\<rparr>) (rb_iter ?R (saf_blocks f))"
    using sa Cons.prems(3) by (auto simp: segment_access_iter_def)
  have each: "\<forall>n \<in> set (rb_iter ?R (saf_blocks f)). sba_cursor \<lparr>sba_offset = n - saf_first_block f, sba_segment = sa\<rparr> = new_finalized n \<and>
      filter_fragment (ds_env d) (ds_block_filter d) (SegmentFA \<lparr>sba_offset = n - saf_first_block f, sba_segment = sa\<rparr>) False =
      filter_fragment (ds_env d) (ds_block_filter d) (BlockFA (B n)) False"
    using fetched_block [OF f, of m] Cons.prems(3) sa by auto
  note sent = send_segment_blocks_spec [OF send [unfolded iter w1(1)] each] stays
  let ?ns = "filter (\<lambda>n. cur_number c \<le> n) (rb_iter ?R (saf_blocks f))"
  have "consume_segments c fs (d\<lparr>ds_current := advance current ?ns\<rparr>) (w1, out @ concat (map (block_messages d B) ?ns)) = (Ok d', wo')"
    using rest sent by auto
  from Cons.IH [OF this] sa Cons.prems(3) show ?case by (simp add: Let_def)
qed auto

end

section \<open>The whole tick\<close>

lemma sorted_filter_range:
  assumes "sorted_wrt (<) ns" and "set ns \<subseteq> {..<e}"
  shows "filter (\<lambda>n. lo \<le> n) ns = filter (\<lambda>n. n \<in> set ns) [lo..<e :: nat]"
proof (rule sorted_distinct_set_unique)
  show "sorted (filter (\<lambda>n. lo \<le> n) ns)" "distinct (filter (\<lambda>n. lo \<le> n) ns)"
    using assms(1) by (simp_all add: strict_sorted_iff sorted_wrt_filter)
  show "sorted (filter (\<lambda>n. n \<in> set ns) [lo..<e])" by (simp add: sorted_wrt_filter)
qed (use assms(2) in auto)

lemma concat_map_filter:
  "(\<And>x. x \<in> set xs \<Longrightarrow> \<not> P x \<Longrightarrow> f x = []) \<Longrightarrow> concat (map f (filter P xs)) = concat (map f xs)"
  by (induction xs) auto

text \<open>The bound of the groups, when the last grouped block is the last of a group.\<close>

lemma groups_end:
  fixes k m b g :: nat
  assumes "k dvd m - b" and "b \<le> m" and "m \<le> g + k" and "k dvd g + 1 - b" and "b \<le> g" and "0 < k"
  shows "m \<le> g + 1"
proof -
  obtain p where "m - b = k * p" using assms(1) by (rule dvdE)
  then have p: "m = b + k * p" using assms(2) by simp
  obtain q where "g + 1 - b = k * q" using assms(4) by (rule dvdE)
  then have q: "g + 1 = b + k * q" using assms(5) by simp
  have "k * p < k * (q + 1)" using assms(3) p q by (simp add: algebra_simps)
  then have "p < q + 1" using assms(6) nat_mult_less_cancel1 by blast
  then have "p \<le> q" by simp
  then show ?thesis using p q by simp
qed

context backfill
begin

lemma unselected_block:
  assumes n: "n \<notin> set ns" "first \<le> n" "n < e" "b \<le> n"
    and blocks: "set ns = selected_blocks (segment_stream_of d) (\<lambda>n. G (group_start b (gsz * sz) n)) first m \<union> {m..<e}"
    and stored: "n < m \<Longrightarrow> G (group_start b (gsz * sz) n) \<noteq> None"
  shows "block_messages d B n = []"
proof (rule ccontr)
  assume "block_messages d B n \<noteq> []"
  then obtain out where "filter_fragment (ds_env d) (ds_block_filter d) (BlockFA (B n)) False = Ok (True, out)"
    by (auto simp: block_messages_def split: outcome.splits bool.splits prod.splits)
  note has = filter_fragment_data [OF this id_order]
  have "\<forall>bf \<in> set (ds_block_filter d). bt_ok (blf_filters bf)" using filters(2) by (simp add: client_filter_def)
  from has [OF this] obtain bf where bf: "bf \<in> set (ds_block_filter d)"
    and data: "always_include_header bf \<or> (\<exists>(fid, flts) \<in> set (blf_filters bf). \<exists>flt \<in> set flts. rows_at (ds_env d) (BlockFA (B n)) fid flt \<noteq> {})"
    by (rule bexE)
  have m: "n < m" using n blocks by auto
  then obtain g where g: "G (group_start b (gsz * sz) n) = Some g" using stored by auto
  have "0 < gsz * sz" using limits by (simp add: stream_limits_def)
  note range = group_start_bounds [OF this n(4)]
  have "group_selects (fe_roaring (ds_env d)) (sg_index g) (ds_block_filter d) n"
    using data
  proof
    assume "always_include_header bf"
    then show ?thesis using bf by (auto simp: group_selects_def)
  next
    assume "\<exists>(fid, flts) \<in> set (blf_filters bf). \<exists>flt \<in> set flts. rows_at (ds_env d) (BlockFA (B n)) fid flt \<noteq> {}"
    then obtain fid flts flt where flt: "(fid, flts) \<in> set (blf_filters bf)" "flt \<in> set flts" "rows_at (ds_env d) (BlockFA (B n)) fid flt \<noteq> {}"
      by blast
    then show ?thesis using group_has_block [OF flt(3) bf flt(1,2) g range] bf by (fastforce simp: group_selects_def)
  qed
  then show False using n(1,2) m g blocks by (auto simp: selected_blocks_def)
qed

lemma backfill_tick:
  assumes files: "files_ok (ds_store d) objects cached file_keys (stream_content (ds_store d) G F) w"
    and sizes: "sizes_ok (ds_view d w) (cur_number c)" and segmented: "\<And>w. \<exists>g. cv_segmented (ds_view d w) = Some g \<and> L \<le> g"
    and grouped: "\<And>w' g. cv_grouped (ds_view d w') = Some g \<Longrightarrow>
      fc_starting_block (cv_canonical (ds_view d w)) \<le> g \<and> gsz * sz dvd g + 1 - fc_starting_block (cv_canonical (ds_view d w)) \<and> g < L"
    and c: "cur_number c \<le> L"
    and run: "tick_segment_stream fuel c d (w, out) = (Ok (Some d'), (w', out'))"
    and ends: "fst (segment_stream_start fuel (segment_stream_of d) c (w, [])) = Ok (Reached e)"
  shows "L < e \<and> d' = d\<lparr>ds_current := Some (new_finalized (e - 1))\<rparr> \<and>
    out' = out @ concat (map (block_messages d B) [cur_number c..<e])"
proof -
  let ?b = "fc_starting_block (cv_canonical (ds_view d w))" let ?k = "gsz * sz" let ?R = "fe_roaring (ds_env d)"
  let ?G = "\<lambda>n. G (group_start ?b ?k n)" let ?first = "group_start ?b ?k (cur_number c)" let ?s = "segment_stream_of d"
  obtain w1 fs where start: "segment_stream_start fuel ?s c (w, []) = (Ok (Reached e), (w1, fs))" using ends by (metis prod.collapse)
  obtain w2 m where
    ok: "files_ok (ds_store d) objects cached file_keys (stream_content (ds_store d) G F) w1" and
    m: "?k dvd m - ?b" "m = ?first \<or> (\<exists>w g. cv_grouped (ds_view d w) = Some g \<and> m \<le> g + ?k)" "?first \<le> m" "m \<le> e" "e = m \<or> e < u32_lim" and
    frun: "fetch_run ?R sz ?first e fs" and blocks: "set (fetched_blocks ?R fs) = selected_blocks ?s ?G ?first m \<union> {m..<e}" and
    stored: "\<forall>n. ?first \<le> n \<and> n < m \<longrightarrow> ?G n \<noteq> None" and
    carry: "\<forall>f \<in> set fs. carries ?s ?G f \<and> (\<forall>n \<in> set (rb_iter ?R (saf_blocks f)). m \<le> n \<longrightarrow> requests ?s (all_needed (ds_block_filter d)) f)" and
    seg: "\<forall>g. cv_segmented (ds_view d w2) = Some g \<longrightarrow> g < e"
    using start_spec [unfolded stream_sel, OF start files knows_both limits sizes] unfolding prod.inject append_Nil by blast
  have "L < e" using segmented [of w2] seg by fastforce
  have k: "0 < ?k" using limits by (simp add: stream_limits_def)
  have b: "?b \<le> cur_number c" "cur_number c < u64_lim" using sizes by (simp_all add: sizes_ok_def)
  note first = group_start_bounds [OF k b(1)]
  have "?b \<le> ?first" by (simp add: group_start_def)
  have "m \<le> L" using m(2)
  proof
    assume "m = ?first"
    then show ?thesis using first c by simp
  next
    assume "\<exists>w g. cv_grouped (ds_view d w) = Some g \<and> m \<le> g + ?k"
    then obtain w3 g where g: "cv_grouped (ds_view d w3) = Some g" "m \<le> g + ?k" by blast
    have "m \<le> g + 1" using groups_end [OF m(1) _ g(2) _ _ k] grouped [OF g(1)] m(3) \<open>?b \<le> ?first\<close> by simp
    then show ?thesis using grouped [OF g(1)] by simp
  qed
  let ?ns = "fetched_blocks ?R fs"
  have lims: "e < u64_lim" using m(5) \<open>m \<le> L\<close> \<open>L < e\<close> by (auto simp: u32_lim_def u64_lim_def)
  have sorted: "sorted_wrt (<) ?ns" "set ?ns \<subseteq> {?first..<e}" using frun by (simp_all add: fetch_run_def)
  have each: "\<forall>f \<in> set fs. carries ?s ?G f \<and>
       (\<forall>n \<in> set (rb_iter ?R (saf_blocks f)). (m \<le> n \<longrightarrow> requests ?s (all_needed (ds_block_filter d)) f) \<and>
          saf_first_block f \<le> n \<and> n < saf_first_block f + sz \<and> n < u64_lim \<and> ?b \<le> n \<and> (n < m \<longrightarrow> ?G n \<noteq> None))"
  proof (intro ballI conjI impI)
    fix f n assume f: "f \<in> set fs" and n: "n \<in> set (rb_iter ?R (saf_blocks f))"
    then have "n \<in> set ?ns" by (auto simp: fetched_blocks_def)
    then have range: "?first \<le> n" "n < e" using sorted(2) by auto
    then show "n < u64_lim" "?b \<le> n" using lims \<open>?b \<le> ?first\<close> by simp_all
    show "n < m \<Longrightarrow> ?G n \<noteq> None" using stored range by blast
    have "n \<in> {saf_first_block f..<saf_first_block f + sz}" using frun f n unfolding fetch_run_def by blast
    then show "saf_first_block f \<le> n" "n < saf_first_block f + sz" by simp_all
  qed (use carry in blast)+
  have consume: "consume_segments c fs (d\<lparr>ds_current := ds_current d\<rparr>) (w1, out) = (Ok d', (w', out'))"
    using run start by (simp add: tick_segment_stream_def outcome_simps)
  let ?sent = "filter (\<lambda>n. cur_number c \<le> n) ?ns"
  have d': "d' = d\<lparr>ds_current := advance (ds_current d) ?sent\<rparr>" and out': "out' = out @ concat (map (block_messages d B) ?sent)"
    using consume_segments_spec [OF consume ok each] by (simp_all add: Let_def)
  have eq: "?sent = filter (\<lambda>n. n \<in> set ?ns) [cur_number c..<e]"
    using sorted(2) by (intro sorted_filter_range [OF sorted(1)]) auto
  have upt: "[cur_number c..<e] = [cur_number c..<e - 1] @ [e - 1]" using upt_Suc_append [of "cur_number c" "e - 1"] \<open>L < e\<close> c by simp
  have "e - 1 \<in> set ?ns" using blocks \<open>m \<le> L\<close> \<open>L < e\<close> by auto
  then have "advance (ds_current d) ?sent = Some (new_finalized (e - 1))"
    unfolding eq upt by (simp add: advance_def)
  moreover have "block_messages d B n = []" if "n \<in> set [cur_number c..<e]" "n \<notin> set ?ns" for n
    using unselected_block [OF that(2) _ _ _ blocks] that(1) first b(1) stored by auto
  then have "concat (map (block_messages d B) ?sent) = concat (map (block_messages d B) [cur_number c..<e])"
    unfolding eq by (intro concat_map_filter) blast
  ultimately show ?thesis using d' out' \<open>L < e\<close> by simp
qed

end

section \<open>A reference backfill\<close>

text \<open>Blocks 100 to 102 in segments of one block, the first two in a group; the client asks for the events of block
  100.\<close>

definition backfill_block :: "nat \<Rightarrow> block" where
  "backfill_block n = \<lparr>blk_header = \<lparr>hf_data = [word_of_nat n]\<rparr>,
     blk_index = \<lparr>igf_indexes = [demo_block_fragment (if n = 100 then 3 else 7)]\<rparr>,
     blk_join = \<lparr>jgf_joins = [\<lparr>jf_fragment_id = 4, jf_joins = []\<rparr>]\<rparr>,
     blk_body = [\<lparr>bf_fragment_id = 4, bf_name = ''event'', bf_data = replicate 11 [7]\<rparr>]\<rparr>"

definition one_segment :: "(block \<Rightarrow> 'a) \<Rightarrow> nat \<Rightarrow> 'a segment" where
  "one_segment f n = \<lparr>seg_first_block = new_finalized n, seg_data = [\<lparr>fd_cursor = new_finalized n, fd_data = f (backfill_block n)\<rparr>]\<rparr>"

definition backfill_serde :: segment_serde where
  "backfill_serde = table_segment_serde (map backfill_block [100, 101, 102]) (map (one_segment blk_index) [100, 101, 102])
     (map (one_segment blk_join) [100, 101, 102]) (map (one_segment blk_header) [100, 101, 102])
     (map (one_segment (\<lambda>b. blk_body b ! 0)) [100, 101, 102])"

definition backfill_bytes :: "nat \<Rightarrow> bytes" where
  "backfill_bytes n = (if n = 100 then [0] else if n = 102 then [2] else [1])"

definition backfill_names :: "string list" where
  "backfill_names = [INDEX_FRAGMENT_NAME, JOIN_FRAGMENT_NAME, HEADER_FRAGMENT_NAME, ''event'']"

definition backfill_files :: "nat \<Rightarrow> string \<rightharpoonup> bytes" where
  "backfill_files n name = (if n \<in> {100, 101, 102} \<and> name \<in> set backfill_names then Some (backfill_bytes n) else None)"

definition backfill_world :: mem_world where
  "backfill_world = empty_world\<lparr>mw_bucket := (format_group_key (new_finalized 100), [], [0] @ put_u32 (crc32 mem_codec [0])) #
     concat (map (\<lambda>n. map (\<lambda>name. (format_segment_key (new_finalized n) name, [], backfill_bytes n @ put_u32 (crc32 mem_codec (backfill_bytes n))))
       backfill_names) [100, 101, 102])\<rparr>"

definition backfill_client :: "(mem_world, nat list) data_stream" where
  "backfill_client = \<lparr>ds_block_filter = stream_filters, ds_current = None, ds_finalized = new_finalized 102, ds_finality = FinalizedFinality,
     ds_view = sst_view demo_stream, ds_store = sst_store demo_stream,
     ds_env = \<lparr>fe_serde = backfill_serde, fe_roaring = list_roaring, fe_prost = leb128_prost, fe_id_order = sorted_list_of_set, fe_names = stream_names\<rparr>,
     ds_hash_order = sorted_list_of_set, ds_sha256 = (\<lambda>_. []), ds_closed = (\<lambda>_. False), ds_cancelled = (\<lambda>_. False),
     ds_select = (\<lambda>_ w. (HeadChanged, w)), ds_seen = (\<lambda>_. None)\<rparr>"

lemma backfill_client_stream: "segment_stream_of backfill_client = demo_stream"
  by (simp add: segment_stream_of_def backfill_client_def demo_stream_def mem_segment_stream_def)

lemma backfill_blocks: "from_bytes (sd_block backfill_serde) (backfill_bytes n) = Some (backfill_block (if n = 100 \<or> n = 102 then n else 101))"
  by (simp add: backfill_serde_def table_segment_serde_def table_serde_def backfill_bytes_def)

lemma one_segment_bytes:
  assumes "n \<in> {100, 101, 102}"
  shows "to_bytes (table_serde (map (one_segment f) [100, 101, 102])) (one_segment f n) = Some (backfill_bytes n)"
    and "from_bytes (table_serde (map (one_segment f) [100, 101, 102])) (backfill_bytes n) = Some (one_segment f n)"
  using assms by (auto simp: table_serde_def one_segment_def new_finalized_def backfill_bytes_def)

lemma backfill_segments:
  assumes n: "n \<in> {100, 101, 102}"
  shows "segment_files_of backfill_serde [(4, ''event'')] 1 backfill_bytes n (backfill_files n)"
proof -
  define b where "b = \<lparr>sb_expected_fragment_count = Some 1, sb_first_block = Some (new_finalized n),
    sb_headers = seg_data (one_segment blk_header n), sb_indexes = seg_data (one_segment blk_index n), sb_joins = seg_data (one_segment blk_join n),
    sb_body = [(4, ''event'', seg_data (one_segment (\<lambda>b. blk_body b ! 0) n))]\<rparr>"
  have dec: "from_bytes (sd_block backfill_serde) (backfill_bytes n) = Some (backfill_block n)" using backfill_blocks [of n] n by auto
  have build: "obind (start_new_segment (new_finalized n) default_segment_builder) (add_blocks backfill_serde [(new_finalized n, backfill_bytes n)]) = Ok b"
    by (simp add: start_new_segment_def default_segment_builder_def add_block_def dec b_def one_segment_def) (simp add: backfill_block_def)
  have fold: "\<lparr>seg_first_block = new_finalized n, seg_data = seg_data (one_segment f n)\<rparr> = one_segment f n" for f by (simp add: one_segment_def)
  have len: "length (seg_data (one_segment f n)) = 1" for f :: "block \<Rightarrow> 'z" by (simp add: one_segment_def)
  have ser: "to_bytes (sd_index backfill_serde) (one_segment blk_index n) = Some (backfill_bytes n)"
    "to_bytes (sd_join backfill_serde) (one_segment blk_join n) = Some (backfill_bytes n)"
    "to_bytes (sd_header backfill_serde) (one_segment blk_header n) = Some (backfill_bytes n)"
    "to_bytes (sd_body backfill_serde) (one_segment (\<lambda>b. blk_body b ! 0) n) = Some (backfill_bytes n)"
    unfolding backfill_serde_def table_segment_serde_def segment_serde.select_convs by (rule one_segment_bytes [OF n])+
  let ?seg = "\<lambda>name. \<lparr>ss_name = name, ss_data = backfill_bytes n\<rparr>"
  obtain b' where data: "segment_data backfill_serde id b = Ok (map ?seg backfill_names, b')"
    by (simp add: segment_data_def b_def serialize_segment_def fold len ser backfill_names_def)
  show ?thesis
    unfolding segment_files_of_def
    by (rule exI [of _ "new_finalized n"], rule exI [of _ "[(new_finalized n, backfill_bytes n)]"], rule exI [of _ id], rule exI [of _ b],
        rule exI [of _ "map ?seg backfill_names"], rule exI [of _ b'])
      (use n build data dec in \<open>auto simp: file_names_def backfill_files_def backfill_names_def uniform_fragments_def backfill_block_def\<close>)
qed

lemma backfill_index: "index_of backfill_serde backfill_bytes n = \<lparr>igf_indexes = [demo_block_fragment (if n = 100 then 3 else 7)]\<rparr>"
  by (simp add: index_of_def backfill_blocks backfill_block_def)

interpretation mem_backfill: backfill backfill_client mw_objects mw_cache "[(4, ''event'')]" backfill_bytes stream_groups_of backfill_files
  "\<lambda>_ _. 3" 2 1
proof -
  have env: "stream_env (segment_stream_of backfill_client) mw_objects mw_cache"
    unfolding backfill_client_stream demo_stream_def by (rule mem_stream.stream_env_axioms)
  have sel: "ds_env backfill_client = \<lparr>fe_serde = backfill_serde, fe_roaring = list_roaring, fe_prost = leb128_prost, fe_id_order = sorted_list_of_set, fe_names = stream_names\<rparr>"
    "ds_block_filter backfill_client = stream_filters" "ds_closed backfill_client = (\<lambda>_. False)" "ds_cancelled backfill_client = (\<lambda>_. False)"
    by (simp_all add: backfill_client_def)
  have codec: "segment_codec backfill_serde" unfolding backfill_serde_def by (rule table_codec.segment_codec_axioms)
  show "backfill backfill_client mw_objects mw_cache [(4, ''event'')] backfill_bytes stream_groups_of backfill_files (\<lambda>_ _. 3) 2 1"
    unfolding backfill_def backfill_axioms_def sel backfill_client_stream [symmetric]
  proof (intro conjI allI impI env)
    show "stream_limits (segment_stream_of backfill_client) 2 1" unfolding backfill_client_stream by (rule demo_stream_ok)
    show "compacted_from (fe_roaring \<lparr>fe_serde = backfill_serde, fe_roaring = list_roaring, fe_prost = leb128_prost, fe_id_order = sorted_list_of_set, fe_names = stream_names\<rparr>)
        (\<lambda>_ _. 3) 1 (2 * 1) (index_of (fe_serde \<lparr>fe_serde = backfill_serde, fe_roaring = list_roaring, fe_prost = leb128_prost, fe_id_order = sorted_list_of_set, fe_names = stream_names\<rparr>) backfill_bytes) first g"
      if "stream_groups_of first = Some g" for first g
      using demo_compacted [OF that] unfolding backfill_index [symmetric] by (simp add: fun_eq_iff)
  qed (use codec backfill_segments order_ok_sorted in \<open>auto simp: fragment_table_ok_def names_ok_def file_names_def stream_names_def fragment_names
      stream_filters_def client_filter_def bt_ok_def all_fragment_ids_def demo_filter_def backfill_files_def backfill_index demo_block_fragment_def split: if_splits\<close>)
qed

text \<open>The files can be read.\<close>

definition available :: "mem_world \<Rightarrow> bool" where
  "available w \<longleftrightarrow> (\<forall>n name bs. backfill_files n name = Some bs \<longrightarrow>
     (\<exists>v. mw_objects w (format_segment_key (new_finalized n) name) = Some (v, bs @ put_u32 (crc32 mem_codec bs))) \<and>
     (mw_cache w (format_segment_key (new_finalized n) name) = None \<or> mw_cache w (format_segment_key (new_finalized n) name) = Some bs))"

lemma available_read:
  assumes "available w" and "backfill_files n name = Some bs"
  shows "\<exists>w'. reader_get_segment (sst_store demo_stream) (new_finalized n) name w = (Ok bs, w') \<and> available w'"
proof -
  let ?key = "format_segment_key (new_finalized n) name"
  obtain v where obj: "mw_objects w ?key = Some (v, bs @ put_u32 (crc32 mem_codec bs))"
    and cache: "mw_cache w ?key = None \<or> mw_cache w ?key = Some bs" using assms unfolding available_def by blast
  have "bs = [0] \<or> bs = [1] \<or> bs = [2]" using assms(2) by (auto simp: backfill_files_def backfill_bytes_def split: if_splits)
  then have fetch: "fetch_body (sst_store demo_stream) ?key w = (Ok bs, w)"
    using obj by (elim disjE) (simp_all add: fetch_body_def object_store_get_def demo_stream_sel mem_block_store_def object_store_new_def mem_client_def mem_get_def
        full_key_def normalize_prefix_def mem_codec_def put_u32_def get_u32_def ibind_def ichange_def Let_def)
  show ?thesis
  proof (cases "mw_cache w ?key")
    case None
    then have "reader_get_segment (sst_store demo_stream) (new_finalized n) name w = (Ok bs, w\<lparr>mw_cache := (mw_cache w)(?key \<mapsto> bs)\<rparr>)"
      using fetch by (simp add: reader_get_segment_def Let_def demo_stream_sel mem_block_store_def mem_hybrid_cache_def)
    moreover have "available (w\<lparr>mw_cache := (mw_cache w)(?key \<mapsto> bs)\<rparr>)"
      using assms by (auto simp: available_def mw_objects_def segment_key_inject)
    ultimately show ?thesis by blast
  next
    case (Some b)
    then show ?thesis
      using cache assms(1) by (simp add: reader_get_segment_def Let_def demo_stream_sel mem_block_store_def mem_hybrid_cache_def)
  qed
qed

lemma available_fetch:
  assumes "available w" and "n \<in> {100, 101, 102}"
  shows "\<exists>w' files. fetch_wait (sst_store demo_stream) (demo_fetch n blocks) w =
      (Ok \<lparr>sa_first_block = n, sa_blocks = blocks, sa_fragments = files\<rparr>, w') \<and> available w' \<and>
    files 0 = Some (backfill_bytes n) \<and> files 1 = Some (backfill_bytes n) \<and> files 4 = Some (backfill_bytes n) \<and> files 255 = Some (backfill_bytes n)"
proof -
  have names: "backfill_files n name = Some (backfill_bytes n)" if "name \<in> set backfill_names" for name
    using assms(2) that by (simp add: backfill_files_def)
  have frag: "the (stream_names 0) \<in> set backfill_names" "the (stream_names 1) \<in> set backfill_names" "the (stream_names 255) \<in> set backfill_names"
    "''event'' \<in> set backfill_names" by (simp_all add: stream_names_def fragment_names backfill_names_def)
  obtain w1 where 1: "reader_get_segment (sst_store demo_stream) (new_finalized n) (the (stream_names 0)) w = (Ok (backfill_bytes n), w1)" "available w1"
    using available_read [OF assms(1) names [OF frag(1)]] by blast
  obtain w2 where 2: "reader_get_segment (sst_store demo_stream) (new_finalized n) (the (stream_names 1)) w1 = (Ok (backfill_bytes n), w2)" "available w2"
    using available_read [OF 1(2) names [OF frag(2)]] by blast
  obtain w3 where 3: "reader_get_segment (sst_store demo_stream) (new_finalized n) ''event'' w2 = (Ok (backfill_bytes n), w3)" "available w3"
    using available_read [OF 2(2) names [OF frag(4)]] by blast
  obtain w4 where 4: "reader_get_segment (sst_store demo_stream) (new_finalized n) (the (stream_names 255)) w3 = (Ok (backfill_bytes n), w4)" "available w4"
    using available_read [OF 3(2) names [OF frag(3)]] by blast
  show ?thesis
    using 1 2 3 4 by (intro exI [of _ w4]) (simp add: fetch_wait_def demo_fetch_def ibind_def ichange_def)
qed

lemma backfill_world_ok: "\<exists>w1. reader_get_group (sst_store demo_stream) (new_finalized 100) backfill_world = (Ok [0], w1) \<and> available w1"
proof -
  have objects: "mw_objects backfill_world (format_group_key (new_finalized 100)) = Some ([], [0] @ put_u32 (crc32 mem_codec [0]))"
    "mw_cache backfill_world = Map.empty"
    by (simp_all add: backfill_world_def mw_objects_def empty_world_def)
  have "available backfill_world"
    using file_kinds by (auto simp: available_def backfill_world_def mw_objects_def empty_world_def backfill_files_def backfill_names_def segment_key_inject
        split: if_splits)
  then have "available (backfill_world\<lparr>mw_cache := [format_group_key (new_finalized 100) \<mapsto> [0]]\<rparr>)"
    using objects(2) file_kinds by (auto simp: available_def mw_objects_def)
  moreover have "reader_get_group (sst_store demo_stream) (new_finalized 100) backfill_world =
      (Ok [0], backfill_world\<lparr>mw_cache := [format_group_key (new_finalized 100) \<mapsto> [0]]\<rparr>)"
    using objects
    by (simp add: reader_get_group_def demo_stream_sel mem_block_store_def mem_hybrid_cache_def
      fetch_body_def object_store_get_def object_store_new_def mem_client_def mem_get_def full_key_def
      normalize_prefix_def mem_codec_def put_u32_def get_u32_def ibind_def ichange_def Let_def)
  ultimately show ?thesis by blast
qed

lemma backfill_files_ok:
  "files_ok (ds_store backfill_client) mw_objects mw_cache file_keys (stream_content (ds_store backfill_client) stream_groups_of backfill_files) backfill_world"
proof -
  have key: "full_key (bs_client (ds_store backfill_client)) k = k" "bs_codec (ds_store backfill_client) = mem_codec"
    "bs_group_serde (ds_store backfill_client) = table_serde [demo_built]" for k
    by (simp_all add: backfill_client_def demo_stream_sel mem_block_store_def object_store_new_def full_key_def normalize_prefix_def)
  have cache: "mw_cache backfill_world = Map.empty" by (simp add: backfill_world_def empty_world_def)
  have written: "written_as mem_codec bs (bs @ put_u32 (crc32 mem_codec bs))" for bs
    by (simp add: written_as_def mem_codec_def)
  have "\<exists>bs. stream_content (ds_store backfill_client) stream_groups_of backfill_files k bs \<and> written_as mem_codec bs stored"
    if "mw_objects backfill_world k = Some (v, stored)" for k v stored
  proof (cases "k = format_group_key (new_finalized 100)")
    case True
    then have "stored = [0] @ put_u32 (crc32 mem_codec [0])" using that by (simp add: backfill_world_def mw_objects_def)
    moreover have "group_content (ds_store backfill_client) stream_groups_of k [0]"
      using True by (auto simp: group_content_def stream_groups_of_def key table_serde_def)
    ultimately show ?thesis using written [of "[0]"] unfolding stream_content_def by blast
  next
    case False
    then have "(k, v, stored) \<in> set (concat (map (\<lambda>n. map (\<lambda>name. (format_segment_key (new_finalized n) name, [], backfill_bytes n @ put_u32 (crc32 mem_codec (backfill_bytes n))))
       backfill_names) [100, 101, 102]))"
      using that map_of_SomeD by (fastforce simp: backfill_world_def mw_objects_def split: if_splits)
    then obtain n name where n: "n \<in> {100, 101, 102}" "name \<in> set backfill_names" "k = format_segment_key (new_finalized n) name"
      "stored = backfill_bytes n @ put_u32 (crc32 mem_codec (backfill_bytes n))" by auto
    then have "segment_content backfill_files k (backfill_bytes n)" by (auto simp: segment_content_def backfill_files_def)
    then show ?thesis using written n(4) by (auto simp: stream_content_def)
  qed
  then show ?thesis by (simp add: files_ok_def key cache)
qed

lemma backfill_filter:
  assumes n: "n \<in> {100, 102}" and files: "files 0 = Some (backfill_bytes n)" "files 1 = Some (backfill_bytes n)" "files 4 = Some (backfill_bytes n)"
  shows "\<exists>data. filter_fragment (ds_env backfill_client) stream_filters (SegmentFA \<lparr>sba_offset = 0, sba_segment =
    \<lparr>sa_first_block = n, sa_blocks = blocks, sa_fragments = files\<rparr>\<rparr>) False = Ok (n = 100, data)"
proof -
  let ?a = "\<lparr>sba_offset = 0, sba_segment = \<lparr>sa_first_block = n, sa_blocks = blocks, sa_fragments = files\<rparr>\<rparr> :: nat list segment_block_access"
  have env: "fe_serde (ds_env backfill_client) = backfill_serde" "fe_roaring (ds_env backfill_client) = list_roaring"
    "fe_prost (ds_env backfill_client) = leb128_prost" "fe_id_order (ds_env backfill_client) = sorted_list_of_set" "fe_names (ds_env backfill_client) = stream_names"
    by (simp_all add: backfill_client_def)
  have read: "from_bytes (sd_index backfill_serde) (backfill_bytes n) = Some (one_segment blk_index n)"
    "from_bytes (sd_header backfill_serde) (backfill_bytes n) = Some (one_segment blk_header n)"
    "from_bytes (sd_body backfill_serde) (backfill_bytes n) = Some (one_segment (\<lambda>b. blk_body b ! 0) n)"
    unfolding backfill_serde_def table_segment_serde_def segment_serde.select_convs by (rule one_segment_bytes(2), use n in blast)+
  have index: "segment_index_fragment backfill_serde 4 ?a = Ok (demo_block_fragment (if n = 100 then 3 else 7))"
    and header: "segment_header_fragment backfill_serde ?a = Ok \<lparr>hf_data = [word_of_nat n]\<rparr>"
    and body: "segment_body_fragment backfill_serde 4 ?a = Ok \<lparr>bf_fragment_id = 4, bf_name = ''event'', bf_data = replicate 11 [7]\<rparr>"
    using files by (simp_all add: segment_index_fragment_def segment_header_fragment_def segment_body_fragment_def segment_entry_def fragment_names
        access_unchecked_def read one_segment_def find_fragment_def backfill_block_def demo_block_fragment_def)
  have iter: "rb_iter list_roaring [2, 10] = [2, 10]" "rb_iter list_roaring [] = []" by (simp_all add: list_roaring_def list_iter_def)
  have flt: "flt_filter_id demo_filter = 1" "flt_joins demo_filter = []" by (simp_all add: demo_filter_def)
  show ?thesis
  proof (cases "n = 100")
    case True
    have "match_fragments (ds_env backfill_client) (SegmentFA ?a) [(4, [demo_filter])] ([], []) = Ok ([(4, [(2, {1}), (10, {1})])], [])"
      using True index by (simp add: env demo_rows iter Let_def add_match_def add_joins_def flt bt_entry_def bt_get_or_def bt_get_def)
    then have matches: "block_matches (ds_env backfill_client) (SegmentFA ?a) \<lparr>blf_header_filter = OnData, blf_filters = [(4, [demo_filter])]\<rparr> =
        Ok [(4, [(2, {1}), (10, {1})])]"
      by (simp add: block_matches_def)
    have len: "encoded_header_len leb128_prost HEADER_FRAGMENT_ID 1 = Ok 3" "encoded_body_item_len leb128_prost 4 [1] 1 = Ok 6"
      and enc: "encode_body_item leb128_prost 4 [1] [b] out = Ok (out @ [34, 4, 10, 1, 1, b])" for b out
      by (simp_all add: encoded_header_len_def encoded_body_item_len_def encoded_body_item_len_from_parts_def encoded_filter_ids_len_def
        encoded_length_delimited_field_len_def packed_filter_ids_payload_len_def checked_add_def leb128_prost_def leb128_small
        encode_body_item_def encode_filter_ids_def FILTER_IDS_TAG_def HEADER_FRAGMENT_ID_def u64_lim_def)
    have "\<exists>buf. filter_block (ds_env backfill_client) (SegmentFA ?a) False \<lparr>blf_header_filter = OnData, blf_filters = [(4, [demo_filter])]\<rparr> = Ok buf \<and> buf \<noteq> []"
      unfolding filter_block_def matches
      by (simp add: should_send_header_def env header body stream_names_def len [simplified] enc [simplified] checked_add_def u64_lim_def fetch_def)
    then show ?thesis using True by (auto simp: filter_fragment_def stream_filters_def)
  next
    case False
    have "match_fragments (ds_env backfill_client) (SegmentFA ?a) [(4, [demo_filter])] ([], []) = Ok ([], [])"
      using False index by (simp add: env demo_rows iter Let_def add_match_def)
    then show ?thesis
      using False by (simp add: filter_fragment_def stream_filters_def filter_block_def block_matches_def should_send_header_def)
  qed
qed

lemma backfill_consumed:
  assumes "n \<in> {100, 102}" and "available w" and iter: "rb_iter list_roaring blocks = [n]"
  shows "\<exists>ms w'. (n = 100 \<longleftrightarrow> ms \<noteq> []) \<and> available w' \<and>
    consume_segments (new_finalized 100) (demo_fetch n blocks # rest) (backfill_client\<lparr>ds_current := current\<rparr>) (w, out) =
    consume_segments (new_finalized 100) rest (backfill_client\<lparr>ds_current := Some (new_finalized n)\<rparr>) (w', out @ ms)"
proof -
  obtain w' files where fetched: "fetch_wait (sst_store demo_stream) (demo_fetch n blocks) w =
      (Ok \<lparr>sa_first_block = n, sa_blocks = blocks, sa_fragments = files\<rparr>, w')" "available w'"
    and files: "files 0 = Some (backfill_bytes n)" "files 1 = Some (backfill_bytes n)" "files 4 = Some (backfill_bytes n)"
    using available_fetch [of w n blocks] assms(1,2) by auto
  let ?a = "\<lparr>sba_offset = 0, sba_segment = \<lparr>sa_first_block = n, sa_blocks = blocks, sa_fragments = files\<rparr>\<rparr> :: nat list segment_block_access"
  obtain data where filter: "filter_fragment (ds_env backfill_client) stream_filters (SegmentFA ?a) False = Ok (n = 100, data)"
    using backfill_filter [OF assms(1) files] by blast
  have sel: "ds_cancelled backfill_client w = False" "ds_closed backfill_client w = False" "ds_store backfill_client = sst_store demo_stream"
    "fe_roaring (ds_env backfill_client) = list_roaring" "ds_block_filter backfill_client = stream_filters" for w
    by (simp_all add: backfill_client_def)
  have cur: "sba_cursor ?a = new_finalized n" "cur_number (new_finalized n) = n" "cur_number (new_finalized 100) = 100"
    using assms(1) by (auto simp: sba_cursor_def sba_block_number_def new_finalized_def u64_add_def u64_lim_def)
  have hundred: "sba_cursor \<lparr>sba_offset = 0, sba_segment = \<lparr>sa_first_block = 100, sa_blocks = blocks, sa_fragments = files\<rparr>\<rparr> = new_finalized 100"
    by (simp add: sba_cursor_def sba_block_number_def u64_add_def u64_lim_def)
  have iterated: "segment_access_iter list_roaring \<lparr>sa_first_block = n, sa_blocks = blocks, sa_fragments = files\<rparr> = [Ok ?a]"
    by (simp add: segment_access_iter_def iter)
  let ?ms = "if n = 100 then [segment_message (new_finalized n) data] else []"
  have "consume_segments (new_finalized 100) (demo_fetch n blocks # rest) (backfill_client\<lparr>ds_current := current\<rparr>) (w, out) =
    consume_segments (new_finalized 100) rest (backfill_client\<lparr>ds_current := Some (new_finalized n)\<rparr>) (w', out @ ?ms)"
    using assms(1) by (simp add: sel fetched(1) iterated cur hundred filter Let_def ibind_def ichange_def on_world_def ilift_def ireturn_def reserve_send_def) auto
  then show ?thesis using fetched(2) by (intro exI [of _ ?ms] exI [of _ w']) auto
qed

lemma backfill_run:
  "\<exists>m w'. tick_segment_stream (Suc (Suc 0)) (new_finalized 100) backfill_client (backfill_world, []) =
      (Ok (Some (backfill_client\<lparr>ds_current := Some (new_finalized 102)\<rparr>)), (w', m)) \<and> m \<noteq> []"
  "fst (segment_stream_start (Suc (Suc 0)) (segment_stream_of backfill_client) (new_finalized 100) (backfill_world, [])) = Ok (Reached 103)"
proof -
  obtain w1 where w1: "reader_get_group (sst_store demo_stream) (new_finalized 100) backfill_world = (Ok [0], w1)" "available w1"
    using backfill_world_ok by blast
  let ?range = "rb_from_range list_roaring 102 103"
  have start: "segment_stream_start (Suc (Suc 0)) (segment_stream_of backfill_client) (new_finalized 100) (backfill_world, []) =
      (Ok (Reached 103), (w1, [demo_fetch 100 [100], demo_fetch 102 ?range]))"
    unfolding backfill_client_stream by (rule demo_stream_steps [OF w1(1)])
  then show "fst (segment_stream_start (Suc (Suc 0)) (segment_stream_of backfill_client) (new_finalized 100) (backfill_world, [])) = Ok (Reached 103)"
    by simp
  have iter: "rb_iter list_roaring [100] = [100]" "rb_iter list_roaring ?range = [102]"
    by (simp_all add: list_roaring_def list_iter_def upt_rec)
  have id: "backfill_client\<lparr>ds_current := None\<rparr> = backfill_client" by (simp add: backfill_client_def)
  obtain ms1 w2 where 1: "ms1 \<noteq> []" "available w2"
      "consume_segments (new_finalized 100) [demo_fetch 100 [100], demo_fetch 102 ?range] backfill_client (w1, []) =
       consume_segments (new_finalized 100) [demo_fetch 102 ?range] (backfill_client\<lparr>ds_current := Some (new_finalized 100)\<rparr>) (w2, [] @ ms1)"
    using backfill_consumed [of 100 w1 "[100]" "[demo_fetch 102 ?range]" None "[]"] w1(2) iter(1) unfolding id by auto
  obtain ms2 w3 where 2:
      "consume_segments (new_finalized 100) [demo_fetch 102 ?range] (backfill_client\<lparr>ds_current := Some (new_finalized 100)\<rparr>) (w2, [] @ ms1) =
       consume_segments (new_finalized 100) [] (backfill_client\<lparr>ds_current := Some (new_finalized 102)\<rparr>) (w3, ([] @ ms1) @ ms2)"
    using backfill_consumed [of 102 w2 ?range "[]" "Some (new_finalized 100)" "[] @ ms1"] 1(2) iter(2) by auto
  have "consume_segments (new_finalized 100) [demo_fetch 100 [100], demo_fetch 102 ?range] backfill_client (w1, []) =
      (Ok (backfill_client\<lparr>ds_current := Some (new_finalized 102)\<rparr>), (w3, ms1 @ ms2))"
    using 1(3) 2 by (simp add: ireturn_def)
  then show "\<exists>m w'. tick_segment_stream (Suc (Suc 0)) (new_finalized 100) backfill_client (backfill_world, []) =
      (Ok (Some (backfill_client\<lparr>ds_current := Some (new_finalized 102)\<rparr>)), (w', m)) \<and> m \<noteq> []"
    using 1(1) start by (simp add: tick_segment_stream_def ibind_def ireturn_def)
qed

section \<open>What a backfill sends\<close>

text \<open>C3: a tick of the data stream over compacted blocks sends exactly the messages that filtering every block by itself
  would have sent, in the order of the chain, one for each block with data for the client and none twice. It starts at the
  block that the client needs next, goes past the last segmented block, and leaves the stream at the last block it covered.
  The groups, the bitmaps and the segments only decide which files are read.\<close>

theorem backfill_sends_blocks:
  assumes "backfill d objects cached fns B G F kind gsz sz"
    and "files_ok (ds_store d) objects cached file_keys (stream_content (ds_store d) G F) w"
    and "sizes_ok (ds_view d w) (cur_number c)" and "\<And>w. \<exists>g. cv_segmented (ds_view d w) = Some g \<and> L \<le> g"
    and "\<And>w' g. cv_grouped (ds_view d w') = Some g \<Longrightarrow>
      fc_starting_block (cv_canonical (ds_view d w)) \<le> g \<and> gsz * sz dvd g + 1 - fc_starting_block (cv_canonical (ds_view d w)) \<and> g < L"
    and "cur_number c \<le> L"
    and "tick_segment_stream fuel c d (w, out) = (Ok (Some d'), (w', out'))"
    and "fst (segment_stream_start fuel (segment_stream_of d) c (w, [])) = Ok (Reached e)"
  shows "L < e \<and> d' = d\<lparr>ds_current := Some (new_finalized (e - 1))\<rparr> \<and>
    out' = out @ concat (map (block_messages d B) [cur_number c..<e])"
  using assms by (rule backfill.backfill_tick)

theorem backfill_sends_blocks_witness:
  "\<exists>m w'. tick_segment_stream (Suc (Suc 0)) (new_finalized 100) backfill_client (backfill_world, []) =
      (Ok (Some (backfill_client\<lparr>ds_current := Some (new_finalized 102)\<rparr>)), (w', m)) \<and> m \<noteq> [] \<and>
    m = concat (map (block_messages backfill_client backfill_bytes) [100..<103])"
proof -
  obtain m w' where run: "tick_segment_stream (Suc (Suc 0)) (new_finalized 100) backfill_client (backfill_world, []) =
      (Ok (Some (backfill_client\<lparr>ds_current := Some (new_finalized 102)\<rparr>)), (w', m))" "m \<noteq> []" using backfill_run(1) by blast
  have view: "ds_view backfill_client = sst_view demo_stream" by (simp add: backfill_client_def)
  have num: "cur_number (new_finalized 100) = 100" by (simp add: new_finalized_def)
  have sizes: "sizes_ok (ds_view backfill_client backfill_world) (cur_number (new_finalized 100))"
    unfolding view num by (rule demo_stream_ok(2))
  have segmented: "\<exists>g. cv_segmented (ds_view backfill_client w) = Some g \<and> 102 \<le> g" for w unfolding view using demo_stream_ok(3) by simp
  have grouped: "fc_starting_block (cv_canonical (ds_view backfill_client backfill_world)) \<le> g \<and>
      2 * 1 dvd g + 1 - fc_starting_block (cv_canonical (ds_view backfill_client backfill_world)) \<and> g < 102"
    if "cv_grouped (ds_view backfill_client w) = Some g" for w g
    using that by (simp add: view demo_stream_def mem_segment_stream_def mem_view_def chain_view_new_def)
  have "cur_number (new_finalized 100) \<le> 102" unfolding num by simp
  then have "m = concat (map (block_messages backfill_client backfill_bytes) [100..<103])"
    using backfill_sends_blocks [OF mem_backfill.backfill_axioms backfill_files_ok sizes segmented grouped _ run(1) backfill_run(2)] unfolding num by simp
  then show ?thesis using run by blast
qed

end
