(* ===== verification/Lock.thy ===== *)
theory Lock
  imports StateClient
begin

text \<open>
  The lock of \<open>etcd/src/lock.rs\<close>: a lease that is kept alive while the lock is awaited and, by the
  holder, once per tick of its service. The calls to etcd and the clock, in nanoseconds, are
  parameters.
\<close>

record lock_options =
  lko_ttl :: nat

definition default_lock_options :: lock_options where
  "default_lock_options = \<lparr>lko_ttl = 60\<rparr>"

text \<open>What the waiting loop of \<open>lock\<close> selects.\<close>

datatype lock_event = LockCancelled | RefreshLease | LockResponse bytes

record 'w lock_backend =
  lb_lease_grant :: "nat \<Rightarrow> ('w, nat, etcd_client_error) io"
  lb_lease_keep_alive :: "nat \<Rightarrow> ('w, unit, etcd_client_error) io"
  lb_keep_alive :: "nat \<Rightarrow> ('w, unit, etcd_client_error) io"
  lb_wait :: "string \<Rightarrow> nat \<Rightarrow> ('w, lock_event, etcd_client_error) io"
  lb_unlock :: "bytes \<Rightarrow> ('w, unit, etcd_client_error) io"
  lb_time_to_live :: "nat \<Rightarrow> ('w, int, etcd_client_error) io"
  lb_now :: "'w \<Rightarrow> nat"

record 'w lock_client =
  lkc_client :: "'w lock_backend"
  lkc_prefix :: string
  lkc_options :: lock_options

record lock =
  lk_key :: bytes
  lk_lease_id :: nat
  lk_min_refresh_interval :: nat
  lk_last_refresh :: nat

definition lock_format_key :: "'w lock_client \<Rightarrow> string \<Rightarrow> string" where
  "lock_format_key lc key = lkc_prefix lc @ key"

text \<open>The waiting loop; \<open>Ok None\<close> is a cancellation and \<open>Ok (Some None)\<close> running out of fuel.\<close>

fun lock_wait ::
  "nat \<Rightarrow> 'w lock_client \<Rightarrow> string \<Rightarrow> nat \<Rightarrow> nat \<Rightarrow> ('w, lock option option, etcd_client_error) io" where
  "lock_wait 0 lc key lease_id min_refresh_interval = ireturn (Some None)"
| "lock_wait (Suc fuel) lc key lease_id min_refresh_interval =
     ibind (lb_wait (lkc_client lc) (lock_format_key lc key) lease_id) (\<lambda>event.
     case event of
       LockCancelled \<Rightarrow> ireturn None
     | RefreshLease \<Rightarrow>
         ibind (lb_keep_alive (lkc_client lc) lease_id) (\<lambda>_. lock_wait fuel lc key lease_id min_refresh_interval)
     | LockResponse inner \<Rightarrow> (\<lambda>w.
         (Ok (Some (Some \<lparr>lk_key = inner, lk_lease_id = lease_id, lk_min_refresh_interval = min_refresh_interval,
                          lk_last_refresh = lb_now (lkc_client lc) w\<rparr>)), w)))"

definition acquire_lock ::
  "nat \<Rightarrow> 'w lock_client \<Rightarrow> string \<Rightarrow> ('w, lock option option, etcd_client_error) io" where
  "acquire_lock fuel lc key =
     ibind (lb_lease_grant (lkc_client lc) (lko_ttl (lkc_options lc))) (\<lambda>lease_id.
     ibind (lb_lease_keep_alive (lkc_client lc) lease_id) (\<lambda>_.
     lock_wait fuel lc key lease_id (lko_ttl (lkc_options lc) div 2 * 1000000000)))"

definition unlock :: "'w lock_client \<Rightarrow> lock \<Rightarrow> ('w, unit, etcd_client_error) io" where
  "unlock lc lk = lb_unlock (lkc_client lc) (lk_key lk)"

definition is_locked :: "'w lock_client \<Rightarrow> lock \<Rightarrow> ('w, bool, etcd_client_error) io" where
  "is_locked lc lk = ibind (lb_time_to_live (lkc_client lc) (lk_lease_id lk)) (\<lambda>ttl. ireturn (0 < ttl))"

definition keep_alive :: "'w lock_client \<Rightarrow> lock \<Rightarrow> ('w, lock, etcd_client_error) io" where
  "keep_alive lc lk = (\<lambda>w.
     if lb_now (lkc_client lc) w - lk_last_refresh lk \<le> lk_min_refresh_interval lk then (Ok lk, w)
     else
       ibind (lb_keep_alive (lkc_client lc) (lk_lease_id lk)) (\<lambda>_ w.
       (Ok (lk\<lparr>lk_last_refresh := lb_now (lkc_client lc) w\<rparr>), w)) w)"

end
