(* ===== verification/Ingestion.thy ===== *)
theory Ingestion
  imports FullChain BlockStore Lock
begin

text \<open>
  The ingestion service of \<open>common/src/ingestion/service.rs\<close> and the loop around it in
  \<open>common/src/ingestion/mod.rs\<close>. The service follows the head of a chain, stores every block, grows the
  canonical chain, publishes the recent segment, moves full segments to the archive and recovers
  from reorganisations. The source of blocks (the trait \<open>BlockIngestion\<close>), the choice of the
  \<open>select!\<close> statements and cancellation are parameters. A queued task runs when its result is
  awaited. Intervals only appear as events. The properties are in the theory \<open>IngestionRun\<close>.
\<close>

section \<open>The source of blocks\<close>

datatype ingestion_error =
  BlockNotFound | RpcRequest | CanonicalChainStoreRequest | BlockStoreRequest | StateClientRequest
| LockKeepAlive | IngestionOptions | BadHash | IngestionModel | Indexing

definition is_block_not_found :: "ingestion_error \<Rightarrow> bool" where
  "is_block_not_found e \<longleftrightarrow> e = BlockNotFound"

text \<open>\<open>rpc_next_head\<close> is the next item of the stream of new heads.\<close>

record 'w block_ingestion =
  rpc_supports_pending :: bool
  rpc_get_head_cursor :: "('w, cursor, ingestion_error) io"
  rpc_get_finalized_cursor :: "('w, cursor, ingestion_error) io"
  rpc_get_block_info_by_number :: "nat \<Rightarrow> ('w, block_info, ingestion_error) io"
  rpc_ingest_block_by_number :: "nat \<Rightarrow> ('w, block_info \<times> block, ingestion_error) io"
  rpc_ingest_pending_block :: "cursor \<Rightarrow> nat \<Rightarrow> ('w, (pending_block_info \<times> block) option, ingestion_error) io"
  rpc_new_heads_stream :: "('w, unit, ingestion_error) io"
  rpc_next_head :: "'w \<Rightarrow> (cursor, ingestion_error) outcome option \<times> 'w"

section \<open>State\<close>

datatype ingestion_task = MainTask block_info | PendingTask "pending_block_info option"

text \<open>A future in the task queue.\<close>

datatype queued_task = QueuedMain nat | QueuedPending cursor nat

record ingestion_options =
  io_max_concurrent_tasks :: nat
  io_chain_segment_size :: nat
  io_chain_segment_upload_offset_size :: nat
  io_override_starting_block :: "nat option"

definition default_ingestion_options :: ingestion_options where
  "default_ingestion_options = \<lparr>io_max_concurrent_tasks = 100, io_chain_segment_size = 10000,
     io_chain_segment_upload_offset_size = 100, io_override_starting_block = None\<rparr>"

text \<open>What a tick waits for.\<close>

datatype ingest_event = IngestCancelled | NewHeads | FinalizedInterval | PendingInterval | HeadInterval | TaskFinished

record 'w ingestion =
  ing_options :: ingestion_options
  ing_source :: "'w block_ingestion"
  ing_block_store :: "'w block_store"
  ing_state_client :: "'w state_client"
  ing_chain_store :: "'w chain_store"
  ing_select :: "ingest_event set \<Rightarrow> 'w \<Rightarrow> ingest_event \<times> 'w"
  ing_cancelled :: "'w \<Rightarrow> bool"

text \<open>The fields of the service that change.\<close>

record service =
  sv_chain_builder :: chain_builder
  sv_task_queue :: "queued_task list"

record pending_block_state =
  pb_queued :: bool
  pb_generation :: nat

definition default_pending_block_state :: pending_block_state where
  "default_pending_block_state = \<lparr>pb_queued = False, pb_generation = 0\<rparr>"

text \<open>\<open>is_new_heads\<close> is false for the stream that never yields.\<close>

record ingest_state =
  is_finalized :: cursor
  is_head :: cursor
  is_last_ingested :: cursor
  is_queued_block_number :: nat
  is_pending_block_state :: pending_block_state
  is_new_heads :: bool

record recover_state =
  rs_finalized :: cursor
  rs_existing_head :: cursor
  rs_last_ingested :: cursor

datatype ingestion_state = Ingest ingest_state | Recover recover_state

datatype ingestion_start_action = ResumeAt cursor | StartAt nat | RecoverFrom cursor

type_synonym ('w, 'a) ingestion_io = "('w, 'a, ingestion_error) io"

definition service_new :: service where
  "service_new = \<lparr>sv_chain_builder = builder_new, sv_task_queue = []\<rparr>"

definition recover_from :: "ingest_state \<Rightarrow> ingestion_state" where
  "recover_from s = Recover \<lparr>rs_finalized = is_finalized s, rs_existing_head = is_head s, rs_last_ingested = is_last_ingested s\<rparr>"

section \<open>Tasks\<close>

definition ingest_block_by_number :: "'w ingestion \<Rightarrow> nat \<Rightarrow> ('w, block_info) ingestion_io" where
  "ingest_block_by_number I block_number =
     ibind (rpc_ingest_block_by_number (ing_source I) block_number) (\<lambda>(info, blk).
     if length (igf_indexes (blk_index blk)) \<noteq> length (blk_body blk) then ierr IngestionModel
     else
       ibind (ichange (\<lambda>_. BlockStoreRequest) (put_block (ing_block_store I) (block_cursor info) blk)) (\<lambda>_.
       ireturn info))"

definition ingest_pending_block :: "'w ingestion \<Rightarrow> cursor \<Rightarrow> nat \<Rightarrow> ('w, pending_block_info option) ingestion_io" where
  "ingest_pending_block I parent generation =
     ibind (rpc_ingest_pending_block (ing_source I) parent generation) (\<lambda>r.
     case r of
       None \<Rightarrow> ireturn None
     | Some (info, blk) \<Rightarrow>
         if length (igf_indexes (blk_index blk)) \<noteq> length (blk_body blk) then ierr IngestionModel
         else
           ibind (ichange (\<lambda>_. BlockStoreRequest) (put_pending_block (ing_block_store I) info blk)) (\<lambda>_.
           ireturn (Some info)))"

fun run_task :: "'w ingestion \<Rightarrow> queued_task \<Rightarrow> ('w, ingestion_task) ingestion_io" where
  "run_task I (QueuedMain block_number) =
     ibind (ingest_block_by_number I block_number) (\<lambda>info. ireturn (MainTask info))"
| "run_task I (QueuedPending last_ingested generation) =
     ibind (ingest_pending_block I last_ingested generation) (\<lambda>info. ireturn (PendingTask info))"

definition task_queue_clear :: "service \<Rightarrow> service" where
  "task_queue_clear sv = sv\<lparr>sv_task_queue := []\<rparr>"

text \<open>The result of the first task, a panic being a failure to join it.\<close>

definition task_queue_next ::
  "'w ingestion \<Rightarrow> service \<Rightarrow> ('w, (ingestion_task, ingestion_error) outcome option \<times> service) ingestion_io" where
  "task_queue_next I sv = (\<lambda>w. case sv_task_queue sv of
     [] \<Rightarrow> (Ok (None, sv), w)
   | task # tasks \<Rightarrow> (case run_task I task w of (r, w') \<Rightarrow> (Ok (Some r, sv\<lparr>sv_task_queue := tasks\<rparr>), w')))"

definition can_push_task :: "'w ingestion \<Rightarrow> service \<Rightarrow> bool" where
  "can_push_task I sv \<longleftrightarrow> length (sv_task_queue sv) < io_max_concurrent_tasks (ing_options I)"

definition push_ingest_block_by_number :: "nat \<Rightarrow> service \<Rightarrow> service" where
  "push_ingest_block_by_number block_number sv = sv\<lparr>sv_task_queue := sv_task_queue sv @ [QueuedMain block_number]\<rparr>"

definition push_ingest_pending_block :: "cursor \<Rightarrow> nat \<Rightarrow> service \<Rightarrow> service" where
  "push_ingest_pending_block last_ingested generation sv =
     sv\<lparr>sv_task_queue := sv_task_queue sv @ [QueuedPending last_ingested generation]\<rparr>"

text \<open>The loop that fills the queue.\<close>

function push_tasks :: "'w ingestion \<Rightarrow> nat \<Rightarrow> nat \<Rightarrow> service \<Rightarrow> nat \<times> service" where
  "push_tasks I head_number block_number sv =
     (if can_push_task I sv \<and> \<not> u64_add block_number 1 > head_number
      then push_tasks I head_number (u64_add block_number 1) (push_ingest_block_by_number (u64_add block_number 1) sv)
      else (block_number, sv))"
  by pat_completeness auto
termination
  by (relation "measure (\<lambda>(I, head_number, block_number, sv). io_max_concurrent_tasks (ing_options I) - length (sv_task_queue sv))")
    (auto simp: can_push_task_def push_ingest_block_by_number_def)

declare push_tasks.simps [simp del]

section \<open>Publishing\<close>

definition publish_recent_segment :: "'w ingestion \<Rightarrow> chain_segment \<Rightarrow> ('w, unit) ingestion_io" where
  "publish_recent_segment I segment =
     ibind (ichange (\<lambda>_. CanonicalChainStoreRequest) (put_recent_snapshot (ing_chain_store I) segment)) (\<lambda>pointer.
     ichange (\<lambda>_. StateClientRequest) (put_recent (ing_state_client I) pointer))"

text \<open>\<open>current_segment\<close> and \<open>publish_recent_segment\<close>.\<close>

definition publish_current :: "'w ingestion \<Rightarrow> service \<Rightarrow> ('w, unit) ingestion_io" where
  "publish_current I sv =
     ibind (ilift (map_err (\<lambda>_. IngestionModel) (current_segment (sv_chain_builder sv)))) (publish_recent_segment I)"

text \<open>A failed clean-up is ignored.\<close>

definition ignore_error :: "('w, unit, 'e) io \<Rightarrow> ('w, unit) ingestion_io" where
  "ignore_error m = (\<lambda>w. case m w of (Err _, w') \<Rightarrow> (Ok (), w') | (Ok u, w') \<Rightarrow> (Ok u, w') | (Panic, w') \<Rightarrow> (Panic, w'))"

definition migrate_legacy_recent_segment :: "'w ingestion \<Rightarrow> ('w, chain_segment option) ingestion_io" where
  "migrate_legacy_recent_segment I =
     ibind (ichange (\<lambda>_. CanonicalChainStoreRequest) (get_legacy_recent (ing_chain_store I))) (\<lambda>legacy_segment.
     case legacy_segment of
       None \<Rightarrow> ireturn None
     | Some segment \<Rightarrow>
         ibind (publish_recent_segment I segment) (\<lambda>_.
         ibind (ignore_error (delete_legacy_recent (ing_chain_store I))) (\<lambda>_.
         ibind (ignore_error (delete_legacy_ingested (ing_state_client I))) (\<lambda>_.
         ireturn (Some segment)))))"

section \<open>Starting\<close>

text \<open>The first half of \<open>get_starting_cursor\<close>: the segment to restore.\<close>

definition existing_chain_segment :: "'w ingestion \<Rightarrow> ('w, chain_segment option) ingestion_io" where
  "existing_chain_segment I =
     ibind (ichange (\<lambda>_. StateClientRequest) (get_recent (ing_state_client I))) (\<lambda>pointer.
     ibind (case pointer of
              Some p \<Rightarrow> ichange (\<lambda>_. CanonicalChainStoreRequest) (get_recent_snapshot (ing_chain_store I) p)
            | None \<Rightarrow> ireturn None) (\<lambda>recent_segment.
     case recent_segment of
       Some segment \<Rightarrow> ireturn (Some segment)
     | None \<Rightarrow> migrate_legacy_recent_segment I))"

definition service_starting_cursor :: "'w ingestion \<Rightarrow> service \<Rightarrow> ('w, ingestion_start_action \<times> service) ingestion_io" where
  "service_starting_cursor I sv =
     ibind (existing_chain_segment I) (\<lambda>existing.
     case existing of
       Some segment \<Rightarrow>
         ibind (ilift (map_err (\<lambda>_. IngestionModel) (restore_from_segment segment))) (\<lambda>builder.
         let sv = sv\<lparr>sv_chain_builder := builder\<rparr> in
         ibind (ioption IngestionModel (builder_info builder)) (\<lambda>info.
         \<lambda>w. case rpc_get_block_info_by_number (ing_source I) (cur_number (last_block info)) w of
           (Ok remote, w') \<Rightarrow>
             if last_block info \<noteq> block_cursor remote then (Ok (RecoverFrom (last_block info), sv), w')
             else (Ok (ResumeAt (block_cursor remote), sv), w')
         | (Err e, w') \<Rightarrow>
             if is_block_not_found e then (Ok (RecoverFrom (last_block info), sv), w') else (Err RpcRequest, w')
         | (Panic, w') \<Rightarrow> (Panic, w')))
     | None \<Rightarrow>
         let starting_block = (case io_override_starting_block (ing_options I) of Some n \<Rightarrow> n | None \<Rightarrow> 0) in
         ibind (ichange (\<lambda>_. StateClientRequest) (put_starting_block (ing_state_client I) starting_block)) (\<lambda>_.
         ireturn (StartAt starting_block, sv)))"

text \<open>A stream that cannot be opened is replaced by one that never yields.\<close>

definition open_new_heads :: "'w ingestion \<Rightarrow> ('w, bool) ingestion_io" where
  "open_new_heads I = (\<lambda>w. case rpc_new_heads_stream (ing_source I) w of
     (Ok _, w') \<Rightarrow> (Ok True, w') | (Err _, w') \<Rightarrow> (Ok False, w') | (Panic, w') \<Rightarrow> (Panic, w'))"

definition start_ingest :: "'w ingestion \<Rightarrow> cursor \<Rightarrow> cursor \<Rightarrow> cursor \<Rightarrow> service \<Rightarrow> ('w, ingestion_state \<times> service) ingestion_io" where
  "start_ingest I finalized head last_ingested sv =
     ibind (open_new_heads I) (\<lambda>new_heads.
     ireturn (Ingest \<lparr>is_finalized = finalized, is_head = head, is_last_ingested = last_ingested,
                is_queued_block_number = cur_number last_ingested,
                is_pending_block_state = default_pending_block_state, is_new_heads = new_heads\<rparr>, sv))"

text \<open>The match on the action.\<close>

definition begin_ingestion ::
  "'w ingestion \<Rightarrow> cursor \<Rightarrow> cursor \<Rightarrow> ingestion_start_action \<Rightarrow> service \<Rightarrow> ('w, ingestion_state \<times> service) ingestion_io" where
  "begin_ingestion I finalized head action sv = (case action of
     RecoverFrom last_ingested \<Rightarrow>
       ireturn (Recover \<lparr>rs_finalized = finalized, rs_existing_head = head, rs_last_ingested = last_ingested\<rparr>, sv)
   | StartAt starting_block \<Rightarrow>
       ibind (ingest_block_by_number I starting_block) (\<lambda>block_info.
       ibind (ilift (map_err (\<lambda>_. IngestionModel) (grow (sv_chain_builder sv) block_info))) (\<lambda>builder.
       let sv = sv\<lparr>sv_chain_builder := builder\<rparr> in
       ibind (publish_current I sv) (\<lambda>_.
       start_ingest I finalized head (block_cursor block_info) sv)))
   | ResumeAt starting_cursor \<Rightarrow> start_ingest I finalized head starting_cursor sv)"

definition initialize :: "'w ingestion \<Rightarrow> service \<Rightarrow> ('w, ingestion_state \<times> service) ingestion_io" where
  "initialize I sv =
     ibind (rpc_get_head_cursor (ing_source I)) (\<lambda>head.
     ibind (rpc_get_finalized_cursor (ing_source I)) (\<lambda>finalized.
     ibind (ichange (\<lambda>_. StateClientRequest) (put_finalized (ing_state_client I) (cur_number finalized))) (\<lambda>_.
     ibind (service_starting_cursor I sv) (\<lambda>(action, sv). begin_ingestion I finalized head action sv))))"

section \<open>Ticks\<close>

definition tick_refresh_finalized :: "'w ingestion \<Rightarrow> ingest_state \<Rightarrow> service \<Rightarrow> ('w, ingestion_state \<times> service) ingestion_io" where
  "tick_refresh_finalized I s sv =
     ibind (ichange (\<lambda>_. RpcRequest) (rpc_get_finalized_cursor (ing_source I))) (\<lambda>finalized.
     if cur_number (is_finalized s) > cur_number finalized then ierr IngestionModel
     else if is_finalized s = finalized then ireturn (Ingest s, sv)
     else
       ibind (ichange (\<lambda>_. StateClientRequest) (put_finalized (ing_state_client I) (cur_number finalized))) (\<lambda>_.
       ireturn (Ingest (s\<lparr>is_finalized := finalized\<rparr>), sv)))"

definition tick_refresh_head :: "'w ingestion \<Rightarrow> ingest_state \<Rightarrow> service \<Rightarrow> cursor \<Rightarrow> ingestion_state \<times> service" where
  "tick_refresh_head I s sv head =
     (if is_head s = head then (Ingest s, sv)
      else if cur_number (is_last_ingested s) \<ge> cur_number head \<and> cur_number (is_head s) > cur_number head
      then (recover_from s, sv)
      else if cur_number (is_last_ingested s) \<ge> cur_number head \<and> cur_number (is_head s) = cur_number head \<and>
              cur_hash (is_head s) \<noteq> cur_hash head
      then (recover_from s, sv)
      else
        let (block_number, sv) = push_tasks I (cur_number head) (is_queued_block_number s) sv in
        (Ingest (s\<lparr>is_head := head, is_queued_block_number := block_number\<rparr>), sv))"

definition tick_refresh_pending :: "ingest_state \<Rightarrow> service \<Rightarrow> ingestion_state \<times> service" where
  "tick_refresh_pending s sv =
     (if pb_queued (is_pending_block_state s) then (Ingest s, sv)
      else if is_head s \<noteq> is_last_ingested s then (Ingest s, sv)
      else
        (Ingest (s\<lparr>is_pending_block_state := (is_pending_block_state s)\<lparr>pb_queued := True\<rparr>\<rparr>),
         push_ingest_pending_block (is_last_ingested s) (u64_add (pb_generation (is_pending_block_state s)) 1) sv))"

text \<open>Moving a full segment to the archive; the result says whether there was one.\<close>

definition upload_segment :: "'w ingestion \<Rightarrow> service \<Rightarrow> ('w, bool \<times> service) ingestion_io" where
  "upload_segment I sv =
     (if segment_size (sv_chain_builder sv) \<ge>
         u64_add (io_chain_segment_size (ing_options I)) (io_chain_segment_upload_offset_size (ing_options I))
      then
        ibind (ilift (map_err (\<lambda>_. IngestionModel) (take_segment (sv_chain_builder sv) (io_chain_segment_size (ing_options I))))) (\<lambda>(segment, builder).
        ibind (ichange (\<lambda>_. CanonicalChainStoreRequest) (chain_store_put (ing_chain_store I) segment)) (\<lambda>_.
        ireturn (True, sv\<lparr>sv_chain_builder := builder\<rparr>)))
      else ireturn (False, sv))"

text \<open>The loop at the end of \<open>tick_with_task_result\<close> and the state it returns.\<close>

definition push_more :: "'w ingestion \<Rightarrow> ingest_state \<Rightarrow> cursor \<Rightarrow> service \<Rightarrow> ingestion_state \<times> service" where
  "push_more I s last_ingested sv =
     (let (block_number, sv) = push_tasks I (cur_number (is_head s)) (is_queued_block_number s) sv in
      (Ingest (s\<lparr>is_last_ingested := last_ingested, is_queued_block_number := block_number,
                 is_pending_block_state := default_pending_block_state\<rparr>), sv))"

definition tick_with_main_block ::
  "'w ingestion \<Rightarrow> ingest_state \<Rightarrow> service \<Rightarrow> block_info \<Rightarrow> ('w, ingestion_state \<times> service) ingestion_io" where
  "tick_with_main_block I s sv block_info =
     (let should_upload = (bi_number block_info \<ge> cur_number (is_finalized s)) in
      if \<not> can_grow (sv_chain_builder sv) block_info then ireturn (recover_from s, sv)
      else
        ibind (ilift (map_err (\<lambda>_. IngestionModel) (grow (sv_chain_builder sv) block_info))) (\<lambda>builder.
        ibind (upload_segment I (sv\<lparr>sv_chain_builder := builder\<rparr>)) (\<lambda>(uploaded, sv).
        ibind (if should_upload \<or> uploaded then publish_current I sv else ireturn ()) (\<lambda>_.
        ireturn (push_more I s (block_cursor block_info) sv)))))"

definition tick_with_task_result ::
  "'w ingestion \<Rightarrow> ingest_state \<Rightarrow> service \<Rightarrow> (ingestion_task, ingestion_error) outcome option
    \<Rightarrow> ('w, ingestion_state \<times> service) ingestion_io" where
  "tick_with_task_result I s sv join_result = (case join_result of
     None \<Rightarrow> ireturn (push_more I s (is_last_ingested s) sv)
   | Some Panic \<Rightarrow> ierr RpcRequest
   | Some (Err e) \<Rightarrow> if is_block_not_found e then ireturn (recover_from s, sv) else ierr RpcRequest
   | Some (Ok (PendingTask None)) \<Rightarrow>
       ireturn (Ingest (s\<lparr>is_pending_block_state := (is_pending_block_state s)\<lparr>pb_queued := False\<rparr>\<rparr>), sv)
   | Some (Ok (PendingTask (Some info))) \<Rightarrow>
       ibind (ichange (\<lambda>_. StateClientRequest) (put_pending (ing_state_client I) (pbi_generation info))) (\<lambda>_.
       ireturn (Ingest (s\<lparr>is_pending_block_state := \<lparr>pb_queued = False, pb_generation = pbi_generation info\<rparr>\<rparr>), sv))
   | Some (Ok (MainTask block_info)) \<Rightarrow> tick_with_main_block I s sv block_info)"

text \<open>The events enabled in a state.\<close>

definition enabled_events :: "'w ingestion \<Rightarrow> ingest_state \<Rightarrow> service \<Rightarrow> ingest_event set" where
  "enabled_events I s sv =
     {IngestCancelled, FinalizedInterval, HeadInterval} \<union> (if is_new_heads s then {NewHeads} else {}) \<union>
     (if is_head s = is_last_ingested s \<and> rpc_supports_pending (ing_source I) then {PendingInterval} else {}) \<union>
     (if sv_task_queue sv \<noteq> [] then {TaskFinished} else {})"

definition tick_ingest :: "'w ingestion \<Rightarrow> ingest_state \<Rightarrow> service \<Rightarrow> ('w, ingestion_state \<times> service) ingestion_io" where
  "tick_ingest I s sv = (\<lambda>w. case ing_select I (enabled_events I s sv) w of (event, w) \<Rightarrow>
     (case event of
        IngestCancelled \<Rightarrow> ireturn (Ingest s, sv)
      | NewHeads \<Rightarrow> (\<lambda>w. case rpc_next_head (ing_source I) w of
            (Some (Ok head), w) \<Rightarrow> (Ok (tick_refresh_head I s sv head), w)
          | (_, w) \<Rightarrow> ibind (open_new_heads I) (\<lambda>new_heads. ireturn (Ingest (s\<lparr>is_new_heads := new_heads\<rparr>), sv)) w)
      | FinalizedInterval \<Rightarrow> tick_refresh_finalized I s sv
      | PendingInterval \<Rightarrow> ireturn (tick_refresh_pending s sv)
      | HeadInterval \<Rightarrow>
          ibind (ichange (\<lambda>_. RpcRequest) (rpc_get_head_cursor (ing_source I))) (\<lambda>head.
          ireturn (tick_refresh_head I s sv head))
      | TaskFinished \<Rightarrow>
          ibind (task_queue_next I sv) (\<lambda>(join_result, sv). tick_with_task_result I s sv join_result)) w)"

text \<open>The search for the last block that is still on the chain; \<open>n\<close> is the number of the candidate and \<open>None\<close> a
  cancellation.\<close>

fun recover_loop :: "'w ingestion \<Rightarrow> chain_segment \<Rightarrow> nat \<Rightarrow> cursor \<Rightarrow> ('w, cursor option) ingestion_io" where
  "recover_loop I canonical_chain n candidate = (\<lambda>w.
     if ing_cancelled I w then (Ok None, w)
     else
       let parent = (case n of
             0 \<Rightarrow> ierr IngestionModel
           | Suc m \<Rightarrow>
               ibind (ilift (map_err (\<lambda>_. IngestionModel) (segment_canonical canonical_chain m)))
                 (recover_loop I canonical_chain m)) in
       case rpc_get_block_info_by_number (ing_source I) n w of
         (Ok remote, w') \<Rightarrow> if block_cursor remote = candidate then (Ok (Some candidate), w') else parent w'
       | (Err e, w') \<Rightarrow> if is_block_not_found e then parent w' else (Err RpcRequest, w')
       | (Panic, w') \<Rightarrow> (Panic, w'))"

declare recover_loop.simps [simp del]

definition tick_recover :: "'w ingestion \<Rightarrow> recover_state \<Rightarrow> service \<Rightarrow> ('w, ingestion_state \<times> service) ingestion_io" where
  "tick_recover I s sv =
     ibind (ilift (map_err (\<lambda>_. IngestionModel) (current_segment (sv_chain_builder sv)))) (\<lambda>canonical_chain.
     ibind (ilift (map_err (\<lambda>_. IngestionModel) (segment_canonical canonical_chain (cur_number (rs_last_ingested s))))) (\<lambda>last_ingested.
     if last_ingested \<noteq> rs_last_ingested s then ierr IngestionModel
     else
       ibind (recover_loop I canonical_chain (cur_number (rs_last_ingested s)) (rs_last_ingested s)) (\<lambda>found.
       case found of
         None \<Rightarrow> ireturn (Recover s, sv)
       | Some new_head \<Rightarrow>
           let sv = task_queue_clear sv in
           ibind (ilift (map_err (\<lambda>_. IngestionModel) (shrink (sv_chain_builder sv) new_head))) (\<lambda>(removed, builder).
           let sv = sv\<lparr>sv_chain_builder := builder\<rparr> in
           ibind (publish_current I sv) (\<lambda>_.
           start_ingest I (rs_finalized s) (rs_existing_head s) new_head sv)))))"

fun ingestion_tick :: "'w ingestion \<Rightarrow> ingestion_state \<Rightarrow> service \<Rightarrow> ('w, ingestion_state \<times> service) ingestion_io" where
  "ingestion_tick I (Ingest s) sv = tick_ingest I s sv"
| "ingestion_tick I (Recover s) sv = tick_recover I s sv"

text \<open>The main loop for \<open>n\<close> ticks; \<open>True\<close> is its end by cancellation.\<close>

fun ingestion_run ::
  "nat \<Rightarrow> 'w ingestion \<Rightarrow> 'w lock_client \<Rightarrow> lock \<Rightarrow> ingestion_state \<Rightarrow> service
    \<Rightarrow> ('w, bool \<times> lock \<times> ingestion_state \<times> service) ingestion_io" where
  "ingestion_run 0 I lc lk st sv = ireturn (False, lk, st, sv)"
| "ingestion_run (Suc n) I lc lk st sv = (\<lambda>w.
     if ing_cancelled I w then (Ok (True, lk, st, sv), w)
     else
       ibind (ichange (\<lambda>_. LockKeepAlive) (keep_alive lc lk)) (\<lambda>lk.
       ibind (ingestion_tick I st sv) (\<lambda>(st, sv). ingestion_run n I lc lk st sv)) w)"

definition ingestion_start ::
  "nat \<Rightarrow> 'w ingestion \<Rightarrow> 'w lock_client \<Rightarrow> lock \<Rightarrow> ('w, bool \<times> lock \<times> ingestion_state \<times> service) ingestion_io" where
  "ingestion_start n I lc lk = ibind (initialize I service_new) (\<lambda>(st, sv). ingestion_run n I lc lk st sv)"

section \<open>The service loop\<close>

text \<open>The chain segment size is stored on the first start and must not change afterwards.\<close>

definition check_chain_segment_size :: "'w kv_client \<Rightarrow> nat \<Rightarrow> ('w, unit) ingestion_io" where
  "check_chain_segment_size kv expected =
     ibind (ichange (\<lambda>_. IngestionOptions) (get_chain_segment_size kv)) (\<lambda>stored.
     case stored of
       Some chain_segment_size \<Rightarrow> if chain_segment_size \<noteq> expected then ierr IngestionOptions else ireturn ()
     | None \<Rightarrow> ichange (\<lambda>_. IngestionOptions) (set_chain_segment_size kv expected))"

text \<open>\<open>fuel\<close> bounds the number of times the service is started and \<open>n\<close> its ticks and the events while the lock is
  awaited; \<open>None\<close> is running out of either.\<close>

fun ingestion_service_loop :: "nat \<Rightarrow> nat \<Rightarrow> 'w ingestion \<Rightarrow> 'w lock_client \<Rightarrow> ('w, unit option) ingestion_io" where
  "ingestion_service_loop 0 n I lc = ireturn None"
| "ingestion_service_loop (Suc fuel) n I lc = (\<lambda>w.
     if ing_cancelled I w then (Ok (Some ()), w)
     else
       ibind (ichange (\<lambda>_. LockKeepAlive) (acquire_lock n lc ''ingestion/lock'')) (\<lambda>acquired.
       case acquired of
         None \<Rightarrow> ireturn (Some ())
       | Some None \<Rightarrow> ireturn None
       | Some (Some lk) \<Rightarrow>
           ibind (check_chain_segment_size (stc_kv (ing_state_client I)) (io_chain_segment_size (ing_options I))) (\<lambda>_ w.
           case ingestion_start n I lc lk w of
             (Ok (True, lk', st, sv), w') \<Rightarrow>
               ibind (ichange (\<lambda>_. LockKeepAlive) (unlock lc lk')) (\<lambda>_. ireturn (Some ())) w'
           | (Ok (False, lk', st, sv), w') \<Rightarrow> (Ok None, w')
           | (Err e, w') \<Rightarrow>
               ibind (ichange (\<lambda>_. LockKeepAlive) (unlock lc lk)) (\<lambda>_. ingestion_service_loop fuel n I lc) w'
           | (Panic, w') \<Rightarrow> (Panic, w'))) w)"

end
