(* ===== verification/IngestionRun.thy ===== *)
theory IngestionRun
  imports Ingestion
begin

text \<open>
  Properties of the ingestion service. Every run of it is a run of the archive (\<open>archive_run\<close>): the
  chain only grows by blocks that link, shrinks to blocks it has, and loses full segments only to the
  archive, which are stored by then; every block is stored before it becomes canonical; the
  queued blocks are those that follow the last one; and what is published at any time is what a later run can be
  restored from. A recovery ends at the last block the service and the source agree on.
\<close>

section \<open>Invariants\<close>

fun task_blocks :: "queued_task \<Rightarrow> nat list" where
  "task_blocks (QueuedMain n) = [n]"
| "task_blocks (QueuedPending c g) = []"

definition main_tasks :: "queued_task list \<Rightarrow> nat list" where
  "main_tasks ts = concat (map task_blocks ts)"

lemma main_tasks_simps [simp]:
  "main_tasks [] = []" "main_tasks (QueuedMain n # ts) = n # main_tasks ts" "main_tasks (QueuedPending c g # ts) = main_tasks ts"
  "main_tasks (ts @ us) = main_tasks ts @ main_tasks us"
  by (simp_all add: main_tasks_def)

text \<open>A block is stored under its key, and an archived segment under its own.\<close>

definition block_stored :: "'w ingestion \<Rightarrow> ('w \<Rightarrow> string \<rightharpoonup> object_version \<times> bytes) \<Rightarrow> 'w \<Rightarrow> cursor \<Rightarrow> bool" where
  "block_stored I objects w c \<longleftrightarrow> (\<exists>v stored bs blk.
     objects w (full_key (bs_client (ing_block_store I)) (format_block_key (bs_hex (ing_block_store I)) c)) = Some (v, stored) \<and>
     written_as (bs_codec (ing_block_store I)) bs stored \<and> from_bytes (bs_block_serde (ing_block_store I)) bs = Some blk)"

definition segment_at ::
  "'w ingestion \<Rightarrow> ('w \<Rightarrow> string \<rightharpoonup> object_version \<times> bytes) \<Rightarrow> 'w \<Rightarrow> string \<Rightarrow> chain_segment \<Rightarrow> bool" where
  "segment_at I objects w key seg \<longleftrightarrow> (\<exists>v stored bs.
     objects w (full_key (cst_client (ing_chain_store I)) key) = Some (v, stored) \<and>
     to_bytes (cst_serde (ing_chain_store I)) seg = Some bs \<and> written_as (cst_codec (ing_chain_store I)) bs stored)"

definition segment_stored ::
  "'w ingestion \<Rightarrow> ('w \<Rightarrow> string \<rightharpoonup> object_version \<times> bytes) \<Rightarrow> 'w \<Rightarrow> nat \<Rightarrow> chain_segment \<Rightarrow> bool" where
  "segment_stored I objects w n seg \<longleftrightarrow> segment_at I objects w (canon_key (segment_filename n)) seg"

fun state_ok :: "cursor \<Rightarrow> ingestion_state \<Rightarrow> service \<Rightarrow> bool" where
  "state_ok c (Ingest s) sv \<longleftrightarrow> is_last_ingested s = c \<and> cur_number c \<le> is_queued_block_number s \<and>
     Suc (is_queued_block_number s) < u64_lim \<and> Suc (cur_number (is_head s)) < u64_lim \<and>
     main_tasks (sv_task_queue sv) = [Suc (cur_number c)..<Suc (is_queued_block_number s)]"
| "state_ok c (Recover s) sv \<longleftrightarrow> rs_last_ingested s = c \<and> Suc (cur_number c) < u64_lim \<and> Suc (cur_number (rs_existing_head s)) < u64_lim"

text \<open>What the service has built, and what of it is stored; \<open>B\<close> are blocks that were stored before.\<close>

definition recorded ::
  "'w ingestion \<Rightarrow> ('w \<Rightarrow> string \<rightharpoonup> object_version \<times> bytes) \<Rightarrow> cursor set \<Rightarrow> nat \<Rightarrow> building \<Rightarrow> (nat \<rightharpoonup> chain_segment) \<Rightarrow> cursor set
    \<Rightarrow> 'w \<Rightarrow> bool" where
  "recorded I objects B start b A H w \<longleftrightarrow>
     archive_run (io_chain_segment_size (ing_options I)) start (Building b) A H \<and>
     (\<forall>n seg. A n = Some seg \<longrightarrow> segment_stored I objects w n seg) \<and> (\<forall>c \<in> H \<union> B. block_stored I objects w c)"

text \<open>A segment to restore: some run published it, its archived segments and its blocks are stored, and the number after its
  last block is a \<open>u64\<close>. It may have reorgs above its last block.\<close>

definition restorable :: "'w ingestion \<Rightarrow> ('w \<Rightarrow> string \<rightharpoonup> object_version \<times> bytes) \<Rightarrow> chain_segment \<Rightarrow> 'w \<Rightarrow> bool" where
  "restorable I objects seg w \<longleftrightarrow> (\<exists>start b A H. seg = published b \<and> recorded I objects {} start b A H w \<and>
     Suc (cur_number (last_block (bd_info b))) < u64_lim)"

text \<open>The pointer to the recent segment in etcd.\<close>

definition recent_entry :: "'w ingestion \<Rightarrow> ('w \<Rightarrow> string \<rightharpoonup> bytes \<times> nat) \<Rightarrow> 'w \<Rightarrow> (bytes \<times> nat) option" where
  "recent_entry I store w = store w (kv_format_key (stc_kv (ing_state_client I)) RECENT_KEY)"

definition snapshot_key :: "string \<Rightarrow> bool" where
  "snapshot_key key \<longleftrightarrow> take 13 key = ''canon/recent/''"

text \<open>The pointer leads to a snapshot, of a builder \<open>b\<close> with the archive \<open>A\<close>.\<close>

definition points_at ::
  "'w ingestion \<Rightarrow> ('w \<Rightarrow> string \<rightharpoonup> object_version \<times> bytes) \<Rightarrow> ('w \<Rightarrow> string \<rightharpoonup> bytes \<times> nat) \<Rightarrow> 'w \<Rightarrow> building \<Rightarrow> (nat \<rightharpoonup> chain_segment) \<Rightarrow> bool" where
  "points_at I objects store w b A \<longleftrightarrow> (\<exists>v r p start H. recent_entry I store w = Some (v, r) \<and>
     from_bytes (stc_json (ing_state_client I)) v = Some p \<and> snapshot_key (rsp_key p) \<and> segment_at I objects w (rsp_key p) (published b) \<and>
     recorded I objects {} start b A H w \<and> Suc (cur_number (last_block (bd_info b))) < u64_lim)"

text \<open>What a start finds: a pointer to a snapshot that can be restored; or no pointer, and no segment in the former place of the
  recent segment or one that can be restored.\<close>

definition resumable ::
  "'w ingestion \<Rightarrow> ('w \<Rightarrow> string \<rightharpoonup> object_version \<times> bytes) \<Rightarrow> ('w \<Rightarrow> string \<rightharpoonup> bytes \<times> nat) \<Rightarrow> 'w \<Rightarrow> bool" where
  "resumable I objects store w \<longleftrightarrow> (\<exists>b A. points_at I objects store w b A) \<or>
     recent_entry I store w = None \<and> (objects w (full_key (cst_client (ing_chain_store I)) (canon_key ''recent'')) = None \<or>
       (\<exists>seg. segment_at I objects w (canon_key ''recent'') seg \<and> restorable I objects seg w))"

text \<open>The service between two ticks. The last published snapshot belongs to an archive without the segment that is
  archived next.\<close>

definition service_ok ::
  "'w ingestion \<Rightarrow> ('w \<Rightarrow> string \<rightharpoonup> object_version \<times> bytes) \<Rightarrow> ('w \<Rightarrow> string \<rightharpoonup> bytes \<times> nat) \<Rightarrow> cursor set \<Rightarrow> ingestion_state \<Rightarrow> service \<Rightarrow> 'w \<Rightarrow> bool" where
  "service_ok I objects store B st sv w \<longleftrightarrow> (\<exists>start b A H. sv_chain_builder sv = Building b \<and>
     recorded I objects B start b A H w \<and> state_ok (last_block (bd_info b)) st sv \<and>
     (\<exists>b0 A0. points_at I objects store w b0 A0 \<and> A0 (first_number b) = None))"

text \<open>The source answers with the block that was asked for, with numbers that leave room for one more and hashes that are
  not zero.\<close>

definition source_ok :: "'w block_ingestion \<Rightarrow> bool" where
  "source_ok S \<longleftrightarrow>
     (\<forall>n w info blk w'. rpc_ingest_block_by_number S n w = (Ok (info, blk), w') \<longrightarrow>
        bi_number info = n \<and> Suc n < u64_lim \<and> \<not> hash_is_zero (bi_hash info)) \<and>
     (\<forall>w c w'. rpc_get_head_cursor S w = (Ok c, w') \<longrightarrow> Suc (cur_number c) < u64_lim) \<and>
     (\<forall>w c w'. rpc_next_head S w = (Some (Ok c), w') \<longrightarrow> Suc (cur_number c) < u64_lim)"

text \<open>The keys of blocks, snapshots and archived segments.\<close>

lemma full_key_eq: "full_key s a = full_key s b \<longleftrightarrow> a = b"
  by (simp add: full_key_def)

lemma key_kinds:
  "canon_key a \<noteq> format_block_key h c" "format_block_key h c \<noteq> canon_key a" "format_pending_block_key n g \<noteq> canon_key a"
  "format_pending_block_key n g \<noteq> format_block_key h c"
  "canon_key (recent_snapshot_filename i j t k) \<noteq> canon_key (segment_filename m)" "canon_key ''recent'' \<noteq> canon_key (segment_filename m)"
  "canon_key (segment_filename m) = canon_key (segment_filename n) \<longleftrightarrow> m = n"
  "canon_key ''recent'' \<noteq> format_block_key h c"
  by (auto simp: canon_key_def format_block_key_def format_pending_block_key_def format_block_prefix_def recent_snapshot_filename_def
      segment_filename_def hash_display_def)

lemma snapshot_keys:
  "snapshot_key (canon_key (recent_snapshot_filename i j t k))" "\<not> snapshot_key (canon_key (segment_filename m))"
  "\<not> snapshot_key (canon_key ''recent'')" "\<not> snapshot_key (format_block_key h c)" "\<not> snapshot_key (format_pending_block_key n g)"
  by (simp_all add: snapshot_key_def canon_key_def format_block_key_def format_pending_block_key_def format_block_prefix_def
      recent_snapshot_filename_def segment_filename_def)

section \<open>The environment\<close>

text \<open>Both stores are on one bucket, which only they write to. The service holds the ingestion lock, so that no other client
  writes the pointer to the recent segment; bucket, source, clock and lock are not in etcd, and etcd is not in the bucket.\<close>

locale ingestion_env =
  blocks: block_backend "ing_block_store I" objects cached + chain: segment_store "ing_chain_store I" objects segment_cache +
  etcd: etcd_store "stc_kv (ing_state_client I)" store later others
  for I :: "'w ingestion" and lc :: "'w lock_client" and objects :: "'w \<Rightarrow> string \<rightharpoonup> object_version \<times> bytes"
    and cached :: "'w \<Rightarrow> string \<rightharpoonup> bytes" and segment_cache :: "'w \<Rightarrow> string \<rightharpoonup> bytes"
    and store :: "'w \<Rightarrow> string \<rightharpoonup> bytes \<times> nat" and later :: "'w \<Rightarrow> 'w \<Rightarrow> bool" and others :: "'w \<Rightarrow> 'w \<Rightarrow> bool" +
  assumes one_bucket: "cst_client (ing_chain_store I) = bs_client (ing_block_store I)" "cst_codec (ing_chain_store I) = bs_codec (ing_block_store I)"
    and source: "source_ok (ing_source I)"
    and source_keeps: "keeps (\<lambda>w. (objects w, recent_entry I store w)) (rpc_get_head_cursor (ing_source I))"
      "keeps (\<lambda>w. (objects w, recent_entry I store w)) (rpc_get_finalized_cursor (ing_source I))"
      "keeps (\<lambda>w. (objects w, recent_entry I store w)) (rpc_get_block_info_by_number (ing_source I) n)"
      "keeps (\<lambda>w. (objects w, recent_entry I store w)) (rpc_ingest_block_by_number (ing_source I) n)"
      "keeps (\<lambda>w. (objects w, recent_entry I store w)) (rpc_ingest_pending_block (ing_source I) c n)"
      "keeps (\<lambda>w. (objects w, recent_entry I store w)) (rpc_new_heads_stream (ing_source I))"
      "objects (snd (rpc_next_head (ing_source I) w)) = objects w \<and>
       recent_entry I store (snd (rpc_next_head (ing_source I) w)) = recent_entry I store w"
    and select_keeps: "objects (snd (ing_select I events w)) = objects w \<and> recent_entry I store (snd (ing_select I events w)) = recent_entry I store w"
    and select_enabled: "events \<noteq> {} \<Longrightarrow> fst (ing_select I events w) \<in> events"
    and clock_keeps: "objects (snd (clk_fetch_add (cst_clock (ing_chain_store I)) w)) = objects w \<and>
       recent_entry I store (snd (clk_fetch_add (cst_clock (ing_chain_store I)) w)) = recent_entry I store w"
    and etcd_keeps: "keeps objects (et_get (kvc_client (stc_kv (ing_state_client I))) k p)"
      "keeps objects (et_put (kvc_client (stc_kv (ing_state_client I))) k v)"
      "keeps objects (et_delete (kvc_client (stc_kv (ing_state_client I))) k)"
      "keeps objects (et_txn (kvc_client (stc_kv (ing_state_client I))) conds ops)"
    and bucket_keeps: "keeps (recent_entry I store) (oc_get_object (os_client (bs_client (ing_block_store I))) (os_bucket (bs_client (ing_block_store I))) k ver)"
      "keeps (recent_entry I store) (oc_put_object (os_client (bs_client (ing_block_store I))) (os_bucket (bs_client (ing_block_store I))) k bs mode)"
      "keeps (recent_entry I store) (oc_delete_object (os_client (bs_client (ing_block_store I))) (os_bucket (bs_client (ing_block_store I))) k)"
    and lock_keeps: "keeps (\<lambda>w. (objects w, recent_entry I store w)) (lb_keep_alive (lkc_client lc) lease)"
    and sole_publisher: "others w w' \<Longrightarrow> recent_entry I store w' = recent_entry I store w"
    and json: "to_bytes (stc_json (ing_state_client I)) pointer = Some bs \<Longrightarrow> from_bytes (stc_json (ing_state_client I)) bs = Some pointer"
    and sizes: "0 < io_chain_segment_size (ing_options I)"
begin

abbreviation stored_block :: "'w \<Rightarrow> cursor \<Rightarrow> bool" where
  "stored_block \<equiv> block_stored I objects"

abbreviation stored_segment_at :: "'w \<Rightarrow> nat \<Rightarrow> chain_segment \<Rightarrow> bool" where
  "stored_segment_at \<equiv> segment_stored I objects"

abbreviation recent :: "'w \<Rightarrow> (bytes \<times> nat) option" where
  "recent \<equiv> recent_entry I store"

abbreviation seen :: "'w \<Rightarrow> (string \<rightharpoonup> object_version \<times> bytes) \<times> (bytes \<times> nat) option" where
  "seen \<equiv> \<lambda>w. (objects w, recent w)"

text \<open>No block is lost and no archived segment changes; nor do the snapshots and the pointer.\<close>

definition grows :: "'w \<Rightarrow> 'w \<Rightarrow> bool" where
  "grows w w' \<longleftrightarrow> (\<forall>c. stored_block w c \<longrightarrow> stored_block w' c) \<and> (\<forall>n seg. stored_segment_at w n seg \<longrightarrow> stored_segment_at w' n seg)"

definition pointer_kept :: "'w \<Rightarrow> 'w \<Rightarrow> bool" where
  "pointer_kept w w' \<longleftrightarrow> recent w' = recent w \<and> (\<forall>key e. snapshot_key key \<longrightarrow>
     objects w (full_key (bs_client (ing_block_store I)) key) = Some e \<longrightarrow> objects w' (full_key (bs_client (ing_block_store I)) key) = Some e)"

definition evolves :: "'w \<Rightarrow> 'w \<Rightarrow> bool" where
  "evolves w w' \<longleftrightarrow> grows w w' \<and> pointer_kept w w'"

lemma evolves_same: "seen w' = seen w \<Longrightarrow> evolves w w'"
  by (simp add: evolves_def grows_def pointer_kept_def block_stored_def segment_stored_def segment_at_def)

lemma evolves_refl [simp]: "evolves w w"
  by (simp add: evolves_same)

lemma evolves_trans: "evolves w w' \<Longrightarrow> evolves w' w'' \<Longrightarrow> evolves w w''"
  by (simp add: evolves_def grows_def pointer_kept_def)

lemma grows_trans: "grows w w' \<Longrightarrow> grows w' w'' \<Longrightarrow> grows w w''"
  by (simp add: grows_def)

lemma evolves_keeps: "keeps seen p \<Longrightarrow> p w = (r, w') \<Longrightarrow> evolves w w'"
  by (rule evolves_same) (rule keepsD)

lemma recorded_grows: "recorded I objects B start b A H w \<Longrightarrow> grows w w' \<Longrightarrow> recorded I objects B start b A H w'"
  by (simp add: recorded_def grows_def)

lemma recorded_evolves: "recorded I objects B start b A H w \<Longrightarrow> evolves w w' \<Longrightarrow> recorded I objects B start b A H w'"
  by (simp add: recorded_grows evolves_def)

lemma points_kept:
  assumes "points_at I objects store w b A" and "pointer_kept w w'"
    and "\<And>n seg. A n = Some seg \<Longrightarrow> stored_segment_at w n seg \<Longrightarrow> stored_segment_at w' n seg" and "\<And>c. stored_block w c \<Longrightarrow> stored_block w' c"
  shows "points_at I objects store w' b A"
proof -
  obtain v r p start H where p: "recent w = Some (v, r)" "from_bytes (stc_json (ing_state_client I)) v = Some p" "snapshot_key (rsp_key p)"
    "segment_at I objects w (rsp_key p) (published b)" "recorded I objects {} start b A H w" "Suc (cur_number (last_block (bd_info b))) < u64_lim"
    using assms(1) unfolding points_at_def by blast
  have "segment_at I objects w' (rsp_key p) (published b)"
    using p(3,4) assms(2) by (auto simp: segment_at_def pointer_kept_def one_bucket)
  moreover have "recorded I objects {} start b A H w'" using p(5) assms(3,4) by (simp add: recorded_def)
  ultimately show ?thesis using p assms(2) unfolding points_at_def pointer_kept_def by metis
qed

lemma points_evolves: "points_at I objects store w b A \<Longrightarrow> evolves w w' \<Longrightarrow> points_at I objects store w' b A"
  using points_kept [of w b A w'] by (simp add: evolves_def grows_def)

lemma service_evolves: "service_ok I objects store B st sv w \<Longrightarrow> evolves w w' \<Longrightarrow> service_ok I objects store B st sv w'"
  unfolding service_ok_def using recorded_evolves points_evolves by blast

text \<open>Writes to the bucket.\<close>

lemma put_keeps_recent: "keeps recent (object_store_put (bs_codec (ing_block_store I)) (bs_client (ing_block_store I)) path body mode)"
  by (auto simp: object_store_put_def intro: bucket_keeps split: option.splits)

lemma get_keeps_recent: "keeps recent (object_store_get (bs_codec (ing_block_store I)) (bs_client (ing_block_store I)) path ver)"
  unfolding object_store_get_def by (intro keeps_ibind bucket_keeps) (auto split: option.splits simp: Let_def)

lemma grows_write:
  assumes "objects w' = (objects w)(full_key (bs_client (ing_block_store I)) key \<mapsto> (v, stored))"
    and "\<And>n. key \<noteq> canon_key (segment_filename n)"
    and "\<And>c. key = format_block_key (bs_hex (ing_block_store I)) c \<Longrightarrow>
      \<exists>bs blk. written_as (bs_codec (ing_block_store I)) bs stored \<and> from_bytes (bs_block_serde (ing_block_store I)) bs = Some blk"
  shows "grows w w'"
proof -
  have "stored_block w' c" if "stored_block w c" for c
    using that assms(3) [of c] by (cases "key = format_block_key (bs_hex (ing_block_store I)) c")
      (auto simp: block_stored_def assms(1) full_key_eq)
  moreover have "stored_segment_at w' n seg" if "stored_segment_at w n seg" for n seg
  proof -
    have "objects w' (full_key (cst_client (ing_chain_store I)) (canon_key (segment_filename n))) =
        objects w (full_key (cst_client (ing_chain_store I)) (canon_key (segment_filename n)))"
      using assms(2) [of n] by (auto simp: assms(1) one_bucket full_key_eq)
    then show ?thesis using that by (simp add: segment_stored_def segment_at_def)
  qed
  ultimately show ?thesis by (simp add: grows_def)
qed

lemma evolves_write:
  assumes "objects w' = (objects w)(full_key (bs_client (ing_block_store I)) key \<mapsto> (v, stored))" and "recent w' = recent w"
    and "\<And>n. key \<noteq> canon_key (segment_filename n)" and "\<not> snapshot_key key"
    and "\<And>c. key = format_block_key (bs_hex (ing_block_store I)) c \<Longrightarrow>
      \<exists>bs blk. written_as (bs_codec (ing_block_store I)) bs stored \<and> from_bytes (bs_block_serde (ing_block_store I)) bs = Some blk"
  shows "evolves w w'"
proof -
  have "grows w w'" using assms by (intro grows_write) auto
  moreover have "pointer_kept w w'" using assms(2,4) by (auto simp: pointer_kept_def assms(1) full_key_eq)
  ultimately show ?thesis by (simp add: evolves_def)
qed

lemma put_block_evolves:
  assumes "put_block (ing_block_store I) c blk w = (Ok r, w')"
  shows "evolves w w' \<and> stored_block w' c"
proof -
  obtain bs v where bs: "to_bytes (bs_block_serde (ing_block_store I)) blk = Some bs"
    and put: "object_store_put (bs_codec (ing_block_store I)) (bs_client (ing_block_store I))
        (format_block_key (bs_hex (ing_block_store I)) c) bs Overwrite w = (Ok v, w')"
    using assms by (auto simp: put_block_def put_bytes_def ioption_def outcome_simps split: option.splits)
  obtain stored where w': "written_as (bs_codec (ing_block_store I)) bs stored"
    "objects w' = (objects w)(full_key (bs_client (ing_block_store I)) (format_block_key (bs_hex (ing_block_store I)) c) \<mapsto> (v, stored))"
    using blocks.put_stores [OF put] by blast
  have dec: "from_bytes (bs_block_serde (ing_block_store I)) bs = Some blk" using blocks.block_serde [OF bs] .
  have "evolves w w'" using evolves_write [OF w'(2) keepsD [OF put_keeps_recent put]] w'(1) dec key_kinds(2) snapshot_keys(4) by blast
  then show ?thesis using w' dec by (auto simp: block_stored_def)
qed

lemma put_pending_evolves:
  assumes "put_pending_block (ing_block_store I) info blk w = (Ok r, w')"
  shows "evolves w w'"
proof -
  obtain bs v where put: "object_store_put (bs_codec (ing_block_store I)) (bs_client (ing_block_store I))
      (format_pending_block_key (pbi_number info) (pbi_generation info)) bs Overwrite w = (Ok v, w')"
    using assms by (auto simp: put_pending_block_def put_bytes_def ioption_def outcome_simps split: option.splits)
  from blocks.put_stores [OF put] obtain stored where
    "objects w' = (objects w)(full_key (bs_client (ing_block_store I)) (format_pending_block_key (pbi_number info) (pbi_generation info)) \<mapsto> (v, stored))"
    by blast
  then show ?thesis using evolves_write [OF _ keepsD [OF put_keeps_recent put]] key_kinds(3,4) snapshot_keys(5) by metis
qed

lemma put_impl_write:
  assumes "put_impl (ing_chain_store I) name seg mode w = (Ok v, w')"
  shows "\<exists>stored bs. to_bytes (cst_serde (ing_chain_store I)) seg = Some bs \<and> written_as (cst_codec (ing_chain_store I)) bs stored \<and>
    objects w' = (objects w)(full_key (bs_client (ing_block_store I)) (canon_key name) \<mapsto> (v, stored)) \<and> recent w' = recent w"
proof -
  obtain bs where bs: "to_bytes (cst_serde (ing_chain_store I)) seg = Some bs"
    and put: "object_store_put (cst_codec (ing_chain_store I)) (cst_client (ing_chain_store I)) (canon_key name) bs mode w = (Ok v, w')"
    using assms by (auto simp: put_impl_def ioption_def outcome_simps split: option.splits)
  have "recent w' = recent w" using keepsD [OF put_keeps_recent put [unfolded one_bucket]] .
  then show ?thesis using chain.put_stores [OF put] bs by (auto simp: one_bucket)
qed

text \<open>Archiving a segment keeps the blocks and the other segments.\<close>

lemma chain_store_put_stores:
  assumes "chain_store_put (ing_chain_store I) seg w = (Ok v, w')"
  shows "stored_segment_at w' (cur_number (first_block (cs_info seg))) seg"
    and "stored_block w c \<Longrightarrow> stored_block w' c"
    and "n \<noteq> cur_number (first_block (cs_info seg)) \<Longrightarrow> stored_segment_at w n s \<Longrightarrow> stored_segment_at w' n s"
    and "pointer_kept w w'"
proof -
  let ?n = "cur_number (first_block (cs_info seg))"
  obtain stored bs where put: "to_bytes (cst_serde (ing_chain_store I)) seg = Some bs" "written_as (cst_codec (ing_chain_store I)) bs stored"
    "objects w' = (objects w)(full_key (bs_client (ing_block_store I)) (canon_key (segment_filename ?n)) \<mapsto> (v, stored))" "recent w' = recent w"
    using put_impl_write assms unfolding chain_store_put_def by blast
  show "stored_segment_at w' ?n seg" using put by (auto simp: segment_stored_def segment_at_def one_bucket)
  show "stored_block w c \<Longrightarrow> stored_block w' c"
    using key_kinds(2) by (simp add: block_stored_def put(3) full_key_eq)
  show "n \<noteq> ?n \<Longrightarrow> stored_segment_at w n s \<Longrightarrow> stored_segment_at w' n s"
    by (simp add: segment_stored_def segment_at_def put(3) full_key_eq one_bucket key_kinds)
  show "pointer_kept w w'"
    using put(4) snapshot_keys(2) [of ?n] by (auto simp: pointer_kept_def put(3) full_key_eq)
qed

text \<open>The shared state is not in the bucket, and only publishing writes the pointer.\<close>

lemma etcd_seen:
  assumes "k \<noteq> kv_format_key (stc_kv (ing_state_client I)) RECENT_KEY"
  shows "keeps seen (et_put (kvc_client (stc_kv (ing_state_client I))) k v)" "keeps seen (et_delete (kvc_client (stc_kv (ing_state_client I))) k)"
proof -
  have "recent (snd (et_put (kvc_client (stc_kv (ing_state_client I))) k v w)) = recent w" for w
  proof -
    obtain reply w' where put: "et_put (kvc_client (stc_kv (ing_state_client I))) k v w = (reply, w')" by (meson surj_pair)
    obtain m m' where m: "others w m" "others m' w'" "(\<exists>r. store m' = (store m)(k \<mapsto> (v, r))) \<or> m' = m"
      using etcd.put_law [OF put] by blast
    then have "recent m' = recent m" using assms by (auto simp: recent_entry_def)
    then show ?thesis using put sole_publisher [OF m(1)] sole_publisher [OF m(2)] by simp
  qed
  then show "keeps seen (et_put (kvc_client (stc_kv (ing_state_client I))) k v)"
    using etcd_keeps(2) by (simp add: keeps_def)
  have "recent (snd (et_delete (kvc_client (stc_kv (ing_state_client I))) k w)) = recent w" for w
  proof -
    obtain reply w' where delete: "et_delete (kvc_client (stc_kv (ing_state_client I))) k w = (reply, w')" by (meson surj_pair)
    obtain m m' where m: "others w m" "others m' w'" "store m' = (store m)(k := None) \<or> m' = m"
      using etcd.delete_law [OF delete] by blast
    then have "recent m' = recent m" using assms by (auto simp: recent_entry_def)
    then show ?thesis using delete sole_publisher [OF m(1)] sole_publisher [OF m(2)] by simp
  qed
  then show "keeps seen (et_delete (kvc_client (stc_kv (ing_state_client I))) k)"
    using etcd_keeps(3) by (simp add: keeps_def)
qed

lemma state_client_seen:
  "key \<noteq> RECENT_KEY \<Longrightarrow> keeps seen (put_block_at (ing_state_client I) key n)" "keeps seen (delete_legacy_ingested (ing_state_client I))"
  unfolding put_block_at_def delete_legacy_ingested_def kv_put_def kv_delete_def
  by (intro keeps_ichange etcd_seen; simp add: kv_format_key_def state_keys)+

lemma block_keys_seen:
  "keeps seen (put_finalized (ing_state_client I) n)" "keeps seen (put_starting_block (ing_state_client I) n)" "keeps seen (put_pending (ing_state_client I) n)"
  unfolding put_finalized_def put_starting_block_def put_pending_def by (rule state_client_seen; simp add: state_keys)+

lemma get_recent_reads:
  assumes "get_recent (ing_state_client I) w = (Ok p, w')"
  shows "seen w' = seen w" "p = (case recent w of None \<Rightarrow> None | Some (v, r) \<Rightarrow> from_bytes (stc_json (ing_state_client I)) v)"
    "recent w \<noteq> None \<Longrightarrow> p \<noteq> None"
proof -
  let ?k = "kv_format_key (stc_kv (ing_state_client I)) RECENT_KEY"
  obtain kvs w1 where get1: "et_get (kvc_client (stc_kv (ing_state_client I))) ?k False w = (Ok kvs, w1)"
    and rest: "(case kvs of [] \<Rightarrow> ireturn None | kv # _ \<Rightarrow>
      ibind (ioption IngestionStateClientError (from_bytes (stc_json (ing_state_client I)) (kv_value kv))) (\<lambda>p. ireturn (Some p))) w1 = (Ok p, w')"
    using assms by (auto simp: get_recent_def kv_get_def outcome_simps)
  have p: "(case kvs of [] \<Rightarrow> p = None | kv # _ \<Rightarrow> p = from_bytes (stc_json (ing_state_client I)) (kv_value kv) \<and> p \<noteq> None)" and w1: "w1 = w'"
    using rest by (cases kvs; auto simp: ioption_def outcome_simps split: option.splits)+
  note get = get1 [unfolded w1]
  obtain m where m: "others w m" "others m w'" "kvs = etcd_entries (store m) ?k" using etcd.get_law [OF get] by blast
  have same: "recent m = recent w" "recent w' = recent w" using sole_publisher m(1,2) by metis+
  show "seen w' = seen w" using same(2) keepsD [OF etcd_keeps(1) get] by simp
  have "kvs = (case recent w of None \<Rightarrow> [] | Some (v, r) \<Rightarrow> [\<lparr>kv_key = string_bytes ?k, kv_value = v, kv_mod_revision = r\<rparr>])"
    using m(3) same(1) by (simp add: etcd_entries_def recent_entry_def)
  then show "p = (case recent w of None \<Rightarrow> None | Some (v, r) \<Rightarrow> from_bytes (stc_json (ing_state_client I)) v)" "recent w \<noteq> None \<Longrightarrow> p \<noteq> None"
    using p by (auto split: option.splits)
qed

lemma put_recent_sets:
  assumes "put_recent (ing_state_client I) p w = (Ok (), w')"
  shows "objects w' = objects w" "\<exists>v r. recent w' = Some (v, r) \<and> from_bytes (stc_json (ing_state_client I)) v = Some p"
proof -
  let ?k = "kv_format_key (stc_kv (ing_state_client I)) RECENT_KEY" and ?d = "kv_format_key (stc_kv (ing_state_client I)) PENDING_KEY"
  obtain v applied where v: "to_bytes (stc_json (ing_state_client I)) p = Some v"
    and txn: "et_txn (kvc_client (stc_kv (ing_state_client I))) [] [TxnPut ?k v, TxnDelete ?d] w = (Ok applied, w')"
    using assms by (auto simp: put_recent_def kv_put_and_delete_def ioption_def outcome_simps split: option.splits)
  show "objects w' = objects w" using keepsD [OF etcd_keeps(4) txn] .
  obtain m m' r where m: "others m' w'" "store m' = (store m)(?k \<mapsto> (v, r), ?d := None)" using etcd.txn_pair_law [OF txn] by auto
  have "?k \<noteq> ?d" by (simp add: kv_format_key_def state_keys)
  then have "recent m' = Some (v, r)" using m(2) by (simp add: recent_entry_def)
  then show "\<exists>v r. recent w' = Some (v, r) \<and> from_bytes (stc_json (ing_state_client I)) v = Some p"
    using sole_publisher [OF m(1)] json [OF v] by auto
qed

text \<open>Publishing a segment: afterwards the pointer leads to it.\<close>

lemma archive_next_free:
  assumes "recorded I objects B start b A H w" shows "A (first_number b) = None"
  using archive_run_inv [of _ start "Building b" A H] assms by (fastforce simp: recorded_def archive_inv_def)

lemma publish_segment:
  assumes "publish_recent_segment I seg w = (Ok u, w')"
  shows "grows w w' \<and> (\<exists>v r p. recent w' = Some (v, r) \<and> from_bytes (stc_json (ing_state_client I)) v = Some p \<and>
    snapshot_key (rsp_key p) \<and> segment_at I objects w' (rsp_key p) seg)"
proof -
  obtain p w2 where snap: "put_recent_snapshot (ing_chain_store I) seg w = (Ok p, w2)" and put: "put_recent (ing_state_client I) p w2 = (Ok (), w')"
    using assms by (auto simp: publish_recent_segment_def outcome_simps)
  obtain i j t k v w1 where impl: "put_impl (ing_chain_store I) (recent_snapshot_filename i j t k) seg Create w1 = (Ok v, w2)"
    and key: "rsp_key p = canon_key (recent_snapshot_filename i j t k)" and w1: "objects w1 = objects w"
    using snap clock_keeps [of w] by (auto simp: put_recent_snapshot_def Let_def outcome_simps split: prod.splits)
  obtain stored bs where bs: "to_bytes (cst_serde (ing_chain_store I)) seg = Some bs" "written_as (cst_codec (ing_chain_store I)) bs stored"
    and w2: "objects w2 = (objects w1)(full_key (bs_client (ing_block_store I)) (rsp_key p) \<mapsto> (v, stored))"
    using put_impl_write [OF impl] key by auto
  have w': "objects w' = (objects w)(full_key (bs_client (ing_block_store I)) (rsp_key p) \<mapsto> (v, stored))"
    using put_recent_sets(1) [OF put] w2 w1 by simp
  then have "grows w w'" using key_kinds(1,5) key by (intro grows_write [OF w']) metis+
  moreover have "segment_at I objects w' (rsp_key p) seg" using bs by (auto simp: segment_at_def w' one_bucket)
  moreover have "snapshot_key (rsp_key p)" using snapshot_keys(1) key by simp
  ultimately show ?thesis using put_recent_sets(2) [OF put] by blast
qed

lemma publish_points:
  assumes "recorded I objects B start b A H w" and "Suc (cur_number (last_block (bd_info b))) < u64_lim"
    and "publish_recent_segment I (published b) w = (Ok u, w')"
  shows "grows w w' \<and> points_at I objects store w' b A"
proof -
  have g: "grows w w'" using publish_segment [OF assms(3)] by blast
  have "recorded I objects {} start b A H w'" using recorded_grows [OF assms(1) g] by (simp add: recorded_def)
  then show ?thesis using g publish_segment [OF assms(3)] assms(2) unfolding points_at_def by blast
qed

lemma publish_current_points:
  assumes "recorded I objects B start b A H w" and "Suc (cur_number (last_block (bd_info b))) < u64_lim"
    and "sv_chain_builder sv = Building b" and "publish_current I sv w = (Ok u, w')"
  shows "recorded I objects B start b A H w' \<and> points_at I objects store w' b A"
proof -
  have "publish_recent_segment I (published b) w = (Ok u, w')"
    using assms(3,4) by (auto simp: publish_current_def current_segment_Building outcome_simps)
  then show ?thesis using publish_points [OF assms(1,2)] recorded_grows [OF assms(1)] by blast
qed

lemma open_new_heads_evolves: "open_new_heads I w = (Ok live, w') \<Longrightarrow> evolves w w'"
  using evolves_keeps [OF source_keeps(6)] by (auto simp: open_new_heads_def split: prod.splits outcome.splits)

text \<open>A task that ends well or finds no block.\<close>

lemma ingest_block_evolves:
  assumes "ingest_block_by_number I n w = (Ok info, w')"
  shows "evolves w w' \<and> stored_block w' (block_cursor info) \<and> bi_number info = n \<and> Suc n < u64_lim \<and> \<not> hash_is_zero (bi_hash info)"
proof -
  obtain blk w1 r where rpc: "rpc_ingest_block_by_number (ing_source I) n w = (Ok (info, blk), w1)"
    and put: "put_block (ing_block_store I) (block_cursor info) blk w1 = (Ok r, w')"
    using assms by (auto simp: ingest_block_by_number_def outcome_simps split: if_splits)
  then show ?thesis
    using put_block_evolves [OF put] evolves_trans [OF evolves_keeps [OF source_keeps(4) rpc]] source unfolding source_ok_def by blast
qed

lemma ingest_pending_evolves:
  assumes "ingest_pending_block I c g w = (Ok info, w')"
  shows "evolves w w'"
proof -
  obtain r w1 where rpc: "rpc_ingest_pending_block (ing_source I) c g w = (Ok r, w1)"
    using assms by (auto simp: ingest_pending_block_def outcome_simps)
  note w1 = evolves_keeps [OF source_keeps(5) rpc]
  show ?thesis
  proof (cases r)
    case None
    then show ?thesis using assms rpc w1 by (simp add: ingest_pending_block_def ibind_def)
  next
    case (Some p)
    then obtain u where "put_pending_block (ing_block_store I) (fst p) (snd p) w1 = (Ok u, w')"
      using assms rpc by (cases p) (auto simp: ingest_pending_block_def ibind_step [where p = "rpc_ingest_pending_block (ing_source I) c g", OF rpc] outcome_simps split: if_splits)
    then show ?thesis using put_pending_evolves evolves_trans [OF w1] by blast
  qed
qed

lemma not_found_evolves:
  "ingest_block_by_number I n w = (Err BlockNotFound, w') \<Longrightarrow> evolves w w'"
  "ingest_pending_block I c g w = (Err BlockNotFound, w') \<Longrightarrow> evolves w w'"
  using evolves_keeps [OF source_keeps(4)] evolves_keeps [OF source_keeps(5)]
  by (auto simp: ingest_block_by_number_def ingest_pending_block_def outcome_simps split: if_splits option.splits prod.splits)

lemma run_task_evolves:
  assumes "run_task I task w = (r, w')" and "r = Ok t \<or> r = Err BlockNotFound"
  shows "evolves w w'"
  using assms ingest_block_evolves ingest_pending_evolves not_found_evolves by (cases task) (auto simp: outcome_simps)

section \<open>Ticks\<close>

text \<open>The loop that fills the queue appends the numbers that follow.\<close>

lemma push_tasks_spec:
  assumes "push_tasks I h n sv = (n', sv')" and "Suc h < u64_lim" and "Suc n < u64_lim"
  shows "n \<le> n' \<and> Suc n' < u64_lim \<and> sv_chain_builder sv' = sv_chain_builder sv \<and>
    main_tasks (sv_task_queue sv') = main_tasks (sv_task_queue sv) @ [Suc n..<Suc n']"
  using assms
proof (induction I h n sv rule: push_tasks.induct)
  case (1 I h n sv)
  have u: "u64_add n 1 = Suc n" "u64_add n (Suc 0) = Suc n" using "1.prems"(3) by (simp_all add: u64_add_def)
  show ?case
  proof (cases "can_push_task I sv \<and> Suc n \<le> h")
    case True
    then have go: "can_push_task I sv \<and> \<not> u64_add n 1 > h" by (simp add: u)
    have "push_tasks I h (Suc n) (push_ingest_block_by_number (Suc n) sv) = (n', sv')"
      using "1.prems"(1) True by (subst (asm) push_tasks.simps) (simp add: u)
    then have "Suc n \<le> n' \<and> Suc n' < u64_lim \<and> sv_chain_builder sv' = sv_chain_builder (push_ingest_block_by_number (Suc n) sv) \<and>
        main_tasks (sv_task_queue sv') = main_tasks (sv_task_queue (push_ingest_block_by_number (Suc n) sv)) @ [Suc (Suc n)..<Suc n']"
      using "1.IH" [OF go] "1.prems"(2) True unfolding u by simp
    then show ?thesis
      using upt_rec [of "Suc n" "Suc n'"] by (simp add: push_ingest_block_by_number_def del: upt_Suc)
  next
    case False
    then show ?thesis using "1.prems" by (subst (asm) push_tasks.simps) (auto simp: u)
  qed
qed

text \<open>The operations of the builder.\<close>

lemma recorded_building: "recorded I objects B start b A H w \<Longrightarrow> building_ok b"
  using archive_run_inv by (fastforce simp: recorded_def archive_inv_def)

lemma recorded_grow:
  assumes "recorded I objects B start b A H w" and "grow (Building b) blk = Ok b'" and "bi_number blk \<noteq> 0" and "block_ok blk"
    and "stored_block w (block_cursor blk)"
  shows "\<exists>b2. b' = Building b2 \<and> recorded I objects B start b2 A (insert (block_cursor blk) H) w \<and> last_block (bd_info b2) = block_cursor blk \<and>
    first_number b2 = first_number b"
proof -
  have "b' = Building (push_block b blk)"
    using assms(2) grow_Building [OF recorded_building [OF assms(1)] assms(3,4)] by (simp split: if_splits)
  moreover have "archive_run (io_chain_segment_size (ing_options I)) start b' A (insert (block_cursor blk) H)"
    using ar_grow assms unfolding recorded_def by blast
  ultimately show ?thesis using assms(1,5) by (auto simp: recorded_def push_block_def first_number_def)
qed

lemma recorded_shrink:
  assumes "recorded I objects B start b A H w" and "shrink (Building b) c = Ok (removed, b')"
  shows "\<exists>b2. b' = Building b2 \<and> recorded I objects B start b2 A H w \<and> last_block (bd_info b2) = c \<and> first_number b2 = first_number b"
proof -
  have "b' = Building (shrunk b c)"
    using assms(2) shrink_Building [OF recorded_building [OF assms(1)]] by (simp split: if_splits)
  moreover have "archive_run (io_chain_segment_size (ing_options I)) start b' A H"
    using ar_shrink assms unfolding recorded_def by blast
  ultimately show ?thesis using assms(1) by (auto simp: recorded_def shrunk_def first_number_def)
qed

lemma recorded_take:
  assumes "recorded I objects B start b A H w" and "take_segment (Building b) (io_chain_segment_size (ing_options I)) = Ok (seg, b')"
    and "chain_store_put (ing_chain_store I) seg w = (Ok v, w')"
  shows "\<exists>b2 A'. b' = Building b2 \<and> recorded I objects B start b2 A' H w' \<and> last_block (bd_info b2) = last_block (bd_info b)"
proof -
  let ?k = "io_chain_segment_size (ing_options I)" let ?n = "cur_number (first_block (cs_info seg))"
  have "b' = Building (remaining b ?k)"
    using assms(2) take_segment_Building [OF recorded_building [OF assms(1)] sizes] by (simp split: if_splits)
  moreover have "archive_run ?k start b' (A(?n \<mapsto> seg)) H"
    using ar_take assms(1,2) unfolding recorded_def by blast
  moreover have "stored_segment_at w' n s" if "(A(?n \<mapsto> seg)) n = Some s" for n s
    using that assms(1) chain_store_put_stores [OF assms(3)] by (cases "n = ?n") (auto simp: recorded_def)
  moreover have "\<forall>c \<in> H \<union> B. stored_block w' c"
    using assms(1) chain_store_put_stores(2) [OF assms(3)] by (auto simp: recorded_def)
  ultimately show ?thesis by (auto simp: recorded_def remaining_def)
qed

lemma upload_segment_ok:
  assumes "recorded I objects B start b A H w" and "sv_chain_builder sv = Building b" and "upload_segment I sv w = (Ok (u, sv'), w')"
  shows "\<exists>b2 A'. sv_chain_builder sv' = Building b2 \<and> recorded I objects B start b2 A' H w' \<and>
    last_block (bd_info b2) = last_block (bd_info b) \<and> sv_task_queue sv' = sv_task_queue sv \<and> (u \<or> w' = w \<and> b2 = b \<and> A' = A)"
proof (cases "segment_size (sv_chain_builder sv) \<ge>
    u64_add (io_chain_segment_size (ing_options I)) (io_chain_segment_upload_offset_size (ing_options I))")
  case True
  then obtain seg b' v where "take_segment (Building b) (io_chain_segment_size (ing_options I)) = Ok (seg, b')"
    and "chain_store_put (ing_chain_store I) seg w = (Ok v, w')" and "sv' = sv\<lparr>sv_chain_builder := b'\<rparr>" and "u"
    using assms(2,3) by (auto simp: upload_segment_def outcome_simps)
  then show ?thesis using recorded_take [OF assms(1)] by fastforce
next
  case False
  then show ?thesis using assms by (auto simp: upload_segment_def)
qed

lemma push_more_ok:
  assumes "state_ok c (Ingest (s\<lparr>is_last_ingested := c\<rparr>)) sv" and "push_more I s c sv = (st', sv')"
  shows "state_ok c st' sv' \<and> sv_chain_builder sv' = sv_chain_builder sv"
proof -
  obtain n' where push: "push_tasks I (cur_number (is_head s)) (is_queued_block_number s) sv = (n', sv')"
    and st': "st' = Ingest (s\<lparr>is_last_ingested := c, is_queued_block_number := n', is_pending_block_state := default_pending_block_state\<rparr>)"
    using assms(2) by (auto simp: push_more_def split: prod.splits)
  have "[Suc (cur_number c)..<Suc (is_queued_block_number s)] @ [Suc (is_queued_block_number s)..<Suc n'] = [Suc (cur_number c)..<Suc n']"
    if "is_queued_block_number s \<le> n'" using assms(1) that upt_add_eq_append [of "Suc (cur_number c)" "Suc (is_queued_block_number s)" "n' - is_queued_block_number s"]
    by simp
  then show ?thesis using push_tasks_spec [OF push] assms(1) st' by (auto simp del: upt_Suc)
qed

lemma service_okI:
  "sv_chain_builder sv = Building b \<Longrightarrow> recorded I objects B start b A H w \<Longrightarrow> state_ok (last_block (bd_info b)) st sv \<Longrightarrow>
    points_at I objects store w b0 A0 \<Longrightarrow> A0 (first_number b) = None \<Longrightarrow> service_ok I objects store B st sv w"
  unfolding service_ok_def by blast

lemma service_okE:
  assumes "service_ok I objects store B st sv w"
  obtains start b A H b0 A0 where "sv_chain_builder sv = Building b" "recorded I objects B start b A H w" "state_ok (last_block (bd_info b)) st sv"
    "points_at I objects store w b0 A0" "A0 (first_number b) = None"
  using assms unfolding service_ok_def by blast

lemma recover_from_ok:
  assumes "state_ok c (Ingest s) sv" shows "state_ok c (recover_from s) sv'"
  using assms by (auto simp: recover_from_def)

lemma main_block_ok:
  assumes rec: "recorded I objects B start b A H w" and sv: "sv_chain_builder sv = Building b"
    and at: "points_at I objects store w b0 A0" "A0 (first_number b) = None"
    and st: "is_last_ingested s = last_block (bd_info b)" "Suc (is_queued_block_number s) < u64_lim" "Suc (cur_number (is_head s)) < u64_lim"
    and next_block: "bi_number info = Suc (cur_number (last_block (bd_info b)))" "bi_number info \<le> is_queued_block_number s"
    and tasks: "main_tasks (sv_task_queue sv) = [Suc (bi_number info)..<Suc (is_queued_block_number s)]"
    and blk: "block_ok info" "stored_block w (block_cursor info)"
    and tick: "tick_with_main_block I s sv info w = (Ok (st', sv'), w')"
  shows "service_ok I objects store B st' sv' w'"
proof (cases "can_grow (sv_chain_builder sv) info")
  case False
  then have "st' = recover_from s" "sv' = sv" "w' = w" using tick by (simp_all add: tick_with_main_block_def Let_def del: can_grow.simps)
  then show ?thesis using service_okI [OF sv rec _ at] st next_block by (auto simp: recover_from_def)
next
  case True
  obtain b' u sv1 w1 where grow: "grow (Building b) info = Ok b'" and up: "upload_segment I (sv\<lparr>sv_chain_builder := b'\<rparr>) w = (Ok (u, sv1), w1)"
    and pub: "(if bi_number info \<ge> cur_number (is_finalized s) \<or> u then publish_current I sv1 else ireturn ()) w1 = (Ok (), w')"
    and st': "push_more I s (block_cursor info) sv1 = (st', sv')"
    using tick True sv by (auto simp: tick_with_main_block_def Let_def outcome_simps simp del: can_grow.simps split: prod.splits)
  obtain b1 where b1: "b' = Building b1" "recorded I objects B start b1 A (insert (block_cursor info) H) w" "last_block (bd_info b1) = block_cursor info"
    "first_number b1 = first_number b"
    using recorded_grow [OF rec grow _ blk] next_block by auto
  obtain b2 A' where b2: "sv_chain_builder sv1 = Building b2" "recorded I objects B start b2 A' (insert (block_cursor info) H) w1"
    "last_block (bd_info b2) = block_cursor info" "sv_task_queue sv1 = sv_task_queue sv" "u \<or> w1 = w \<and> b2 = b1 \<and> A' = A"
    using upload_segment_ok [OF b1(2) _ up] b1 by auto
  have lim: "Suc (cur_number (last_block (bd_info b2))) < u64_lim" using b2(3) next_block(2) st(2) by (simp add: block_cursor_def)
  have "recorded I objects B start b2 A' (insert (block_cursor info) H) w' \<and> (\<exists>b3 A3. points_at I objects store w' b3 A3 \<and> A3 (first_number b2) = None)"
  proof (cases "bi_number info \<ge> cur_number (is_finalized s) \<or> u")
    case True
    then have "publish_current I sv1 w1 = (Ok (), w')" using pub by simp
    from publish_current_points [OF b2(2) lim b2(1) this] show ?thesis using archive_next_free by blast
  next
    case False
    then have "w' = w" "b2 = b1" using pub b2(5) by auto
    then show ?thesis using b2(2,5) False at b1(4) by auto
  qed
  moreover have "state_ok (block_cursor info) (Ingest (s\<lparr>is_last_ingested := block_cursor info\<rparr>)) sv1"
    using st next_block tasks b2(4) by (auto simp: block_cursor_def)
  note push_more_ok [OF this st']
  ultimately show ?thesis using service_okI b2(1,3) by metis
qed

lemma task_result_ok:
  assumes ok: "service_ok I objects store B (Ingest s) sv w" and queue: "sv_task_queue sv = task # tasks"
    and run: "run_task I task w = (r, w1)" and tick: "tick_with_task_result I s (sv\<lparr>sv_task_queue := tasks\<rparr>) (Some r) w1 = (Ok (st', sv'), w')"
  shows "service_ok I objects store B st' sv' w'"
proof -
  obtain start b A H b0 A0 where b: "sv_chain_builder sv = Building b" "recorded I objects B start b A H w" "state_ok (last_block (bd_info b)) (Ingest s) sv"
    "points_at I objects store w b0 A0" "A0 (first_number b) = None"
    using service_okE [OF ok] .
  let ?sv = "sv\<lparr>sv_task_queue := tasks\<rparr>" let ?n = "cur_number (last_block (bd_info b))"
  have sv: "sv_chain_builder ?sv = Building b" using b(1) by simp
  consider (missing) "r = Err BlockNotFound" | (main) info where "r = Ok (MainTask info)" | (pending) p where "r = Ok (PendingTask p)"
    using tick by (cases r) (metis ingestion_task.exhaust, auto simp: tick_with_task_result_def is_block_not_found_def split: if_splits)
  then show ?thesis
  proof cases
    case missing
    then have "st' = recover_from s" "sv' = ?sv" "w' = w1" using tick by (simp_all add: tick_with_task_result_def is_block_not_found_def)
    moreover have "recorded I objects B start b A H w1" "points_at I objects store w1 b0 A0"
      using recorded_evolves [OF b(2) run_task_evolves [OF run]] points_evolves [OF b(4) run_task_evolves [OF run]] missing by blast+
    ultimately show ?thesis using service_okI [OF sv] recover_from_ok [OF b(3)] b(5) by blast
  next
    case (main info)
    then obtain n where task: "task = QueuedMain n" "ingest_block_by_number I n w = (Ok info, w1)"
      using run by (cases task) (auto simp: outcome_simps)
    note ing = ingest_block_evolves [OF task(2)]
    have q: "n # main_tasks tasks = [Suc ?n..<Suc (is_queued_block_number s)]" using b(3) queue task(1) by simp
    then have n: "n = Suc ?n" "Suc ?n \<le> is_queued_block_number s" "main_tasks tasks = [Suc (Suc ?n)..<Suc (is_queued_block_number s)]"
      by (auto simp: upt_rec [of "Suc ?n"] split: if_splits simp del: upt_Suc)
    have rec1: "recorded I objects B start b A H w1" "points_at I objects store w1 b0 A0"
      using recorded_evolves [OF b(2)] points_evolves [OF b(4)] ing by blast+
    have "block_ok info" using ing by (simp add: block_ok_def)
    then show ?thesis
      using main_block_ok [OF rec1(1) sv rec1(2) b(5), of s info st' sv' w'] b(3) n ing tick main by (simp add: tick_with_task_result_def)
  next
    case (pending p)
    then obtain c g where "task = QueuedPending c g" using run by (cases task) (auto simp: outcome_simps)
    then have q: "main_tasks tasks = main_tasks (sv_task_queue sv)" using queue by simp
    have rec: "recorded I objects B start b A H w1" "points_at I objects store w1 b0 A0"
      using recorded_evolves [OF b(2) run_task_evolves [OF run]] points_evolves [OF b(4) run_task_evolves [OF run]] pending by blast+
    have "evolves w1 w' \<and> sv' = ?sv \<and> (\<exists>pb. st' = Ingest (s\<lparr>is_pending_block_state := pb\<rparr>))"
      using tick pending evolves_keeps [OF block_keys_seen(3)]
      by (cases p) (auto simp: tick_with_task_result_def outcome_simps)
    then show ?thesis using service_okI [OF sv recorded_evolves [OF rec(1)] _ points_evolves [OF rec(2)] b(5)] b(3) q by auto
  qed
qed

lemma recover_loop_evolves: "recover_loop I seg n c w = (Ok found, w') \<Longrightarrow> evolves w w'"
proof (induction n arbitrary: c w)
  case 0
  then show ?case
    using evolves_keeps [OF source_keeps(3)] by (subst (asm) recover_loop.simps) (auto simp: Let_def split: if_splits prod.splits outcome.splits)
next
  case (Suc n)
  obtain r w1 where r: "rpc_get_block_info_by_number (ing_source I) (Suc n) w = (r, w1)" by (meson surj_pair)
  have "w' = w \<or> w' = w1 \<or> (\<exists>d. recover_loop I seg n d w1 = (Ok found, w'))"
    using Suc.prems r by (subst (asm) recover_loop.simps) (auto simp: Let_def outcome_simps split: if_splits outcome.splits)
  then show ?case using Suc.IH evolves_trans [OF evolves_keeps [OF source_keeps(3) r]] evolves_keeps [OF source_keeps(3) r] by auto
qed

lemma refresh_head_ok:
  assumes ok: "service_ok I objects store B (Ingest s) sv w" and head: "Suc (cur_number head) < u64_lim" and tick: "tick_refresh_head I s sv head = (st', sv')"
  shows "service_ok I objects store B st' sv' w"
proof -
  obtain start b A H b0 A0 where b: "sv_chain_builder sv = Building b" "recorded I objects B start b A H w" "state_ok (last_block (bd_info b)) (Ingest s) sv"
    "points_at I objects store w b0 A0" "A0 (first_number b) = None"
    using service_okE [OF ok] .
  consider (same) "st' = Ingest s" "sv' = sv" | (reorg) "st' = recover_from s" "sv' = sv"
    | (push) n where "push_tasks I (cur_number head) (is_queued_block_number s) sv = (n, sv')" "st' = Ingest (s\<lparr>is_head := head, is_queued_block_number := n\<rparr>)"
    using tick by (auto simp: tick_refresh_head_def split: if_splits prod.splits)
  then show ?thesis
  proof cases
    case push
    have st: "is_last_ingested s = last_block (bd_info b)" "Suc (is_queued_block_number s) < u64_lim"
      "cur_number (last_block (bd_info b)) \<le> is_queued_block_number s"
      "main_tasks (sv_task_queue sv) = [Suc (cur_number (last_block (bd_info b)))..<Suc (is_queued_block_number s)]" using b(3) by simp_all
    note n = push_tasks_spec [OF push(1) head st(2)]
    have "[Suc (cur_number (last_block (bd_info b)))..<Suc (is_queued_block_number s)] @ [Suc (is_queued_block_number s)..<Suc n] =
        [Suc (cur_number (last_block (bd_info b)))..<Suc n]"
      using st(3) n upt_add_eq_append [of "Suc (cur_number (last_block (bd_info b)))" "Suc (is_queued_block_number s)" "n - is_queued_block_number s"] by simp
    then show ?thesis
      using service_okI [OF _ b(2) _ b(4,5)] push(2) n st head b(1) by (auto simp del: upt_Suc)
  qed (use ok b recover_from_ok service_okI in blast)+
qed

lemma tick_ingest_ok:
  assumes ok: "service_ok I objects store B (Ingest s) sv w" and tick: "tick_ingest I s sv w = (Ok (st', sv'), w')"
  shows "service_ok I objects store B st' sv' w'"
proof -
  obtain event w1 where sel: "ing_select I (enabled_events I s sv) w = (event, w1)" by (meson surj_pair)
  have "event \<in> enabled_events I s sv"
    using select_enabled [of "enabled_events I s sv" w] sel by (simp add: enabled_events_def)
  have "evolves w w1" using evolves_same [of w1 w] select_keeps [of "enabled_events I s sv" w] sel by simp
  then have ok1: "service_ok I objects store B (Ingest s) sv w1" using service_evolves ok by blast
  have same: "service_ok I objects store B (Ingest (s\<lparr>is_finalized := f\<rparr>)) sv w2" "service_ok I objects store B (Ingest (s\<lparr>is_new_heads := live\<rparr>)) sv w2"
    "service_ok I objects store B (Ingest s) sv w2"
    if "evolves w1 w2" for f live w2
    using service_evolves [OF ok1 that] by (auto simp: service_ok_def)
  show ?thesis
  proof (cases event)
    case IngestCancelled
    then show ?thesis using tick sel ok1 by (simp add: tick_ingest_def)
  next
    case NewHeads
    obtain r w2 where head: "rpc_next_head (ing_source I) w1 = (r, w2)" by (meson surj_pair)
    have w2: "evolves w1 w2" using evolves_same [of w2 w1] source_keeps(7) [of w1] head by simp
    show ?thesis
    proof (cases "\<exists>c. r = Some (Ok c)")
      case True
      then obtain c where "r = Some (Ok c)" by blast
      moreover from this have "Suc (cur_number c) < u64_lim" using head source unfolding source_ok_def by blast
      ultimately show ?thesis
        using tick sel NewHeads head refresh_head_ok [OF service_evolves [OF ok1 w2]] by (simp add: tick_ingest_def)
    next
      case False
      then obtain live where "open_new_heads I w2 = (Ok live, w')" "st' = Ingest (s\<lparr>is_new_heads := live\<rparr>)" "sv' = sv"
        using tick sel NewHeads head by (auto simp: tick_ingest_def outcome_simps split: option.splits outcome.splits)
      then show ?thesis using same(2) evolves_trans [OF w2 open_new_heads_evolves] by blast
    qed
  next
    case FinalizedInterval
    then obtain f w2 where f: "rpc_get_finalized_cursor (ing_source I) w1 = (Ok f, w2)"
      and rest: "(if is_finalized s = f then ireturn (Ingest s, sv)
        else ibind (ichange (\<lambda>_. StateClientRequest) (put_finalized (ing_state_client I) (cur_number f))) (\<lambda>_.
          ireturn (Ingest (s\<lparr>is_finalized := f\<rparr>), sv))) w2 = (Ok (st', sv'), w')"
      using tick sel by (auto simp: tick_ingest_def tick_refresh_finalized_def outcome_simps split: if_splits)
    have w2: "evolves w1 w2" by (rule evolves_keeps [OF source_keeps(2) f])
    show ?thesis
    proof (cases "is_finalized s = f")
      case True
      then show ?thesis using rest same(3) [OF w2] by simp
    next
      case False
      then have "evolves w2 w'" "st' = Ingest (s\<lparr>is_finalized := f\<rparr>)" "sv' = sv"
        using rest evolves_keeps [OF block_keys_seen(1)] by (auto simp: outcome_simps)
      then show ?thesis using same(1) evolves_trans [OF w2] by blast
    qed
  next
    case PendingInterval
    then have p: "tick_refresh_pending s sv = (st', sv')" and w': "w' = w1" using tick sel by (simp_all add: tick_ingest_def)
    have "sv_chain_builder sv' = sv_chain_builder sv \<and> main_tasks (sv_task_queue sv') = main_tasks (sv_task_queue sv) \<and>
        (\<exists>pb. st' = Ingest (s\<lparr>is_pending_block_state := pb\<rparr>))"
      using p by (cases s) (auto simp: tick_refresh_pending_def push_ingest_pending_block_def split: if_splits)
    moreover obtain start b A H b0 A0 where "sv_chain_builder sv = Building b" "recorded I objects B start b A H w1"
      "state_ok (last_block (bd_info b)) (Ingest s) sv" "points_at I objects store w1 b0 A0" "A0 (first_number b) = None"
      using service_okE [OF ok1] .
    ultimately show ?thesis using service_okI [of sv' b B start A H w1 st' b0 A0] w' by auto
  next
    case HeadInterval
    then obtain c w2 where c: "rpc_get_head_cursor (ing_source I) w1 = (Ok c, w2)" "tick_refresh_head I s sv c = (st', sv')" "w' = w2"
      using tick sel by (auto simp: tick_ingest_def outcome_simps)
    moreover have "Suc (cur_number c) < u64_lim" using c(1) source unfolding source_ok_def by blast
    ultimately show ?thesis
      using refresh_head_ok [OF service_evolves [OF ok1 evolves_keeps [OF source_keeps(1) c(1)]]] by simp
  next
    case TaskFinished
    then obtain task tasks where q: "sv_task_queue sv = task # tasks"
      using \<open>event \<in> enabled_events I s sv\<close> by (cases "sv_task_queue sv") (auto simp: enabled_events_def split: if_splits)
    obtain r w2 where r: "run_task I task w1 = (r, w2)" by (meson surj_pair)
    then have "tick_with_task_result I s (sv\<lparr>sv_task_queue := tasks\<rparr>) (Some r) w2 = (Ok (st', sv'), w')"
      using tick sel TaskFinished q by (simp add: tick_ingest_def task_queue_next_def ibind_def)
    then show ?thesis using task_result_ok [OF ok1 q r] by blast
  qed
qed

lemma start_ingest_ok:
  assumes "sv_chain_builder sv = Building b" and "recorded I objects B start b A H w" and "last_block (bd_info b) = c" and "sv_task_queue sv = []"
    and "Suc (cur_number c) < u64_lim" and "Suc (cur_number head) < u64_lim" and "points_at I objects store w b0 A0" and "A0 (first_number b) = None"
    and "start_ingest I f head c sv w = (Ok (st', sv'), w')"
  shows "service_ok I objects store B st' sv' w'"
proof -
  obtain live where "open_new_heads I w = (Ok live, w')" and st: "sv' = sv" "st' = Ingest \<lparr>is_finalized = f, is_head = head, is_last_ingested = c,
      is_queued_block_number = cur_number c, is_pending_block_state = default_pending_block_state, is_new_heads = live\<rparr>"
    using assms(9) by (auto simp: start_ingest_def outcome_simps)
  then have "recorded I objects B start b A H w'" "points_at I objects store w' b0 A0"
    using recorded_evolves [OF assms(2) open_new_heads_evolves] points_evolves [OF assms(7) open_new_heads_evolves] by blast+
  then show ?thesis using service_okI assms(1,3,4,5,6,8) st by auto
qed

lemma tick_recover_ok:
  assumes ok: "service_ok I objects store B (Recover s) sv w" and tick: "tick_recover I s sv w = (Ok (st', sv'), w')"
  shows "service_ok I objects store B st' sv' w'"
proof -
  obtain start b A H b0 A0 where b: "sv_chain_builder sv = Building b" "recorded I objects B start b A H w" "state_ok (last_block (bd_info b)) (Recover s) sv"
    "points_at I objects store w b0 A0" "A0 (first_number b) = None"
    using service_okE [OF ok] .
  obtain found w1 where found: "recover_loop I (published b) (cur_number (rs_last_ingested s)) (rs_last_ingested s) w = (Ok found, w1)"
    and rest: "(case found of None \<Rightarrow> ireturn (Recover s, sv)
       | Some new_head \<Rightarrow>
           ibind (ilift (map_err (\<lambda>_. IngestionModel) (shrink (sv_chain_builder (task_queue_clear sv)) new_head))) (\<lambda>(removed, builder).
           ibind (publish_current I ((task_queue_clear sv)\<lparr>sv_chain_builder := builder\<rparr>)) (\<lambda>_.
           start_ingest I (rs_finalized s) (rs_existing_head s) new_head ((task_queue_clear sv)\<lparr>sv_chain_builder := builder\<rparr>)))) w1 = (Ok (st', sv'), w')"
    using tick b(1) by (auto simp: tick_recover_def current_segment_Building Let_def outcome_simps split: if_splits)
  have "evolves w w1" by (rule recover_loop_evolves [OF found])
  then have rec: "recorded I objects B start b A H w1" "points_at I objects store w1 b0 A0"
    using recorded_evolves [OF b(2)] points_evolves [OF b(4)] by blast+
  show ?thesis
  proof (cases found)
    case None
    then show ?thesis using rest service_okI [OF b(1) rec(1) b(3) rec(2) b(5)] by simp
  next
    case (Some c)
    then obtain removed b' w2 where shrink: "shrink (Building b) c = Ok (removed, b')"
      and pub: "publish_current I ((task_queue_clear sv)\<lparr>sv_chain_builder := b'\<rparr>) w1 = (Ok (), w2)"
      and start: "start_ingest I (rs_finalized s) (rs_existing_head s) c ((task_queue_clear sv)\<lparr>sv_chain_builder := b'\<rparr>) w2 = (Ok (st', sv'), w')"
      using rest b(1) by (auto simp: outcome_simps task_queue_clear_def)
    obtain b2 where b2: "b' = Building b2" "recorded I objects B start b2 A H w1" "last_block (bd_info b2) = c"
      using recorded_shrink [OF rec(1) shrink] by blast
    have "is_canonical b c" using shrink shrink_Building [OF recorded_building [OF rec(1)]] by (simp split: if_splits)
    then have lim: "Suc (cur_number c) < u64_lim" using b(3) by (simp add: is_canonical_def last_number_def)
    have "recorded I objects B start b2 A H w2" "points_at I objects store w2 b2 A"
      using publish_current_points [OF b2(2) _ _ pub] lim b2(1,3) by auto
    then show ?thesis
      using start_ingest_ok [OF _ _ b2(3) _ _ _ _ _ start] archive_next_free lim b2(1) b(3) by (simp add: task_queue_clear_def)
  qed
qed

section \<open>Runs\<close>

lemma resumable_seen:
  assumes "seen w' = seen w" and "resumable I objects store w" shows "resumable I objects store w'"
proof -
  have o: "objects w' = objects w" and r: "recent w' = recent w" using assms(1) by simp_all
  have "recorded I objects {} start b A H w' = recorded I objects {} start b A H w" for start b A H
    by (simp add: recorded_def block_stored_def segment_stored_def segment_at_def o)
  then show ?thesis
    using assms(2) unfolding resumable_def points_at_def restorable_def segment_at_def o r by simp
qed

text \<open>Reading the segment to restore.\<close>

lemma get_bytes_recent:
  assumes "get_as_bytes (ing_chain_store I) key ver w = (r, w')" shows "recent w' = recent w"
proof -
  obtain x w1 where x: "object_store_get (bs_codec (ing_block_store I)) (bs_client (ing_block_store I)) key ver w = (x, w1)" by (meson surj_pair)
  then have "w' = w1" using assms by (cases x) (auto simp: get_as_bytes_def one_bucket split: if_splits)
  then show ?thesis using keepsD [OF get_keeps_recent x] by simp
qed

lemma segment_bytes:
  assumes "segment_at I objects w key seg" and "get_as_bytes (ing_chain_store I) key ver w = (Ok r, w')"
  shows "seen w' = seen w \<and> (\<exists>bs. r = Some bs \<and> from_bytes (cst_serde (ing_chain_store I)) bs = Some seg)"
proof -
  obtain v stored bs where s: "objects w (full_key (cst_client (ing_chain_store I)) key) = Some (v, stored)"
    "to_bytes (cst_serde (ing_chain_store I)) seg = Some bs" "written_as (cst_codec (ing_chain_store I)) bs stored"
    using assms(1) by (auto simp: segment_at_def)
  then show ?thesis
    using chain.get_as_bytes_written [OF s(1,3) assms(2)] get_bytes_recent [OF assms(2)] chain.serde_inverse [OF s(2)] by simp
qed

lemma snapshot_read:
  assumes "segment_at I objects w (rsp_key p) seg" and "get_recent_snapshot (ing_chain_store I) p w = (Ok r, w')"
  shows "r = Some seg \<and> seen w' = seen w"
proof -
  obtain b w1 where b: "get_as_bytes (ing_chain_store I) (rsp_key p) (Some (rsp_version p)) w = (Ok b, w1)"
    using assms(2) by (auto simp: get_recent_snapshot_def get_by_key_def outcome_simps)
  from segment_bytes [OF assms(1) b] b assms(2) show ?thesis
    by (auto simp: get_recent_snapshot_def get_by_key_def decode_segment_def outcome_simps split: if_splits)
qed

lemma legacy_read:
  assumes "objects w (full_key (cst_client (ing_chain_store I)) (canon_key ''recent'')) = None \<or> segment_at I objects w (canon_key ''recent'') seg"
    and "get_legacy_recent (ing_chain_store I) w = (Ok r, w')"
  shows "seen w' = seen w \<and> (case r of None \<Rightarrow> True | Some s \<Rightarrow> segment_at I objects w (canon_key ''recent'') seg \<and> s = seg)"
proof -
  obtain b w1 where b: "get_as_bytes (ing_chain_store I) (canon_key ''recent'') None w = (Ok b, w1)"
    using assms(2) by (auto simp: get_legacy_recent_def get_impl_def outcome_simps)
  show ?thesis
    using assms(1)
  proof
    assume none: "objects w (full_key (cst_client (ing_chain_store I)) (canon_key ''recent'')) = None"
    obtain x w2 where x: "object_store_get (cst_codec (ing_chain_store I)) (cst_client (ing_chain_store I)) (canon_key ''recent'') None w = (x, w2)"
      by (meson surj_pair)
    have "x \<noteq> Ok y" for y
      using x none chain.get_ok [where k = "full_key (cst_client (ing_chain_store I)) (canon_key ''recent'')"]
      by (fastforce simp: object_store_get_def outcome_simps)
    then have "b = None" "w1 = w2" using b x by (cases x; auto simp: get_as_bytes_def split: if_splits)+
    then show ?thesis
      using b assms(2) keepsD [OF chain.get_keeps_objects x] get_bytes_recent [OF b]
      by (simp add: get_legacy_recent_def get_impl_def ibind_def)
  next
    assume at: "segment_at I objects w (canon_key ''recent'') seg"
    from segment_bytes [OF at b] obtain bs where bs: "seen w1 = seen w" "b = Some bs" "from_bytes (cst_serde (ing_chain_store I)) bs = Some seg" by blast
    then have "r = Some seg" "w' = w1"
      using b assms(2) by (simp_all add: get_legacy_recent_def get_impl_def decode_segment_def ibind_def)
    then show ?thesis using bs at by simp
  qed
qed

lemma clean_up_evolves:
  assumes "ignore_error (delete_legacy_recent (ing_chain_store I)) w = (Ok u, w1)"
    and "ignore_error (delete_legacy_ingested (ing_state_client I)) w1 = (Ok v, w')"
  shows "evolves w w'"
proof -
  let ?k = "full_key (bs_client (ing_block_store I)) (canon_key ''recent'')"
  obtain r where r: "oc_delete_object (os_client (bs_client (ing_block_store I))) (os_bucket (bs_client (ing_block_store I))) ?k w = (r, w1)"
    using assms(1)
    by (auto simp: ignore_error_def delete_legacy_recent_def object_store_delete_def ichange_def one_bucket split: prod.splits outcome.splits)
  have other: "objects w1 k = objects w k" if "k \<noteq> ?k" for k using blocks.delete_other [OF that, of w] r by simp
  have "evolves w w1"
    unfolding evolves_def
  proof
    show "grows w w1"
    proof -
      have "objects w1 (full_key (bs_client (ing_block_store I)) (format_block_key h c)) = objects w (full_key (bs_client (ing_block_store I)) (format_block_key h c))"
        "objects w1 (full_key (bs_client (ing_block_store I)) (canon_key (segment_filename n))) =
          objects w (full_key (bs_client (ing_block_store I)) (canon_key (segment_filename n)))" for h c n
        by (rule other, simp add: full_key_eq key_kinds(2) key_kinds(6) [symmetric])+
      then show ?thesis by (simp add: grows_def block_stored_def segment_stored_def segment_at_def one_bucket)
    qed
    show "pointer_kept w w1"
    proof -
      have "objects w1 (full_key (bs_client (ing_block_store I)) key) = objects w (full_key (bs_client (ing_block_store I)) key)"
        if "snapshot_key key" for key using that snapshot_keys(3) by (intro other) (auto simp: full_key_eq)
      then show ?thesis using keepsD [OF bucket_keeps(3) r] by (simp add: pointer_kept_def)
    qed
  qed
  moreover obtain x where "delete_legacy_ingested (ing_state_client I) w1 = (x, w')"
    using assms(2) by (auto simp: ignore_error_def split: prod.splits outcome.splits)
  then have "evolves w1 w'" by (rule evolves_keeps [OF state_client_seen(2)])
  ultimately show ?thesis by (rule evolves_trans)
qed

lemma existing_segment:
  assumes "resumable I objects store w" and "existing_chain_segment I w = (Ok existing, w')"
  shows "grows w w' \<and> (\<forall>seg. existing = Some seg \<longrightarrow> (\<exists>start b A H. seg = published b \<and> recorded I objects {} start b A H w' \<and>
    Suc (cur_number (last_block (bd_info b))) < u64_lim \<and> points_at I objects store w' b A))"
proof -
  obtain p w1 where p: "get_recent (ing_state_client I) w = (Ok p, w1)"
    and rest: "ibind (case p of Some p \<Rightarrow> ichange (\<lambda>_. CanonicalChainStoreRequest) (get_recent_snapshot (ing_chain_store I) p) | None \<Rightarrow> ireturn None)
      (\<lambda>recent_segment. case recent_segment of Some segment \<Rightarrow> ireturn (Some segment) | None \<Rightarrow> migrate_legacy_recent_segment I) w1 = (Ok existing, w')"
    using assms(2) by (auto simp: existing_chain_segment_def outcome_simps)
  note read = get_recent_reads [OF p]
  have w1: "resumable I objects store w1" "evolves w w1" using resumable_seen read(1) assms(1) evolves_same by blast+
  show ?thesis
  proof (cases "recent w")
    case (Some e)
    then obtain b A where at: "points_at I objects store w1 b A"
      using w1(1) read(1) unfolding resumable_def by auto
    then obtain q start H where q: "p = Some q" "segment_at I objects w1 (rsp_key q) (published b)" "recorded I objects {} start b A H w1"
      "Suc (cur_number (last_block (bd_info b))) < u64_lim"
      using read unfolding points_at_def by (auto split: option.splits prod.splits)
    obtain r w2 where r: "get_recent_snapshot (ing_chain_store I) q w1 = (Ok r, w2)"
      using rest q(1) by (auto simp: outcome_simps)
    have "r = Some (published b)" "evolves w1 w2" using snapshot_read [OF q(2) r] evolves_same by blast+
    moreover from this have "existing = Some (published b)" "w' = w2" using rest q(1) r by (simp_all add: ibind_def ichange_def)
    ultimately show ?thesis
      using evolves_trans [OF w1(2)] q(3,4) recorded_evolves points_evolves [OF at] unfolding evolves_def by blast
  next
    case None
    then have "p = None" using read(2) by simp
    then have m: "migrate_legacy_recent_segment I w1 = (Ok existing, w')" using rest by simp
    have "\<not> points_at I objects store w1 b A" for b A using None read(1) by (simp add: points_at_def)
    then obtain seg where legacy: "objects w1 (full_key (cst_client (ing_chain_store I)) (canon_key ''recent'')) = None \<or>
        segment_at I objects w1 (canon_key ''recent'') seg \<and> restorable I objects seg w1"
      using w1(1) unfolding resumable_def by blast
    obtain r w2 where r: "get_legacy_recent (ing_chain_store I) w1 = (Ok r, w2)"
      using m by (auto simp: migrate_legacy_recent_segment_def outcome_simps)
    have r': "seen w2 = seen w1 \<and> (case r of None \<Rightarrow> True | Some s \<Rightarrow> segment_at I objects w1 (canon_key ''recent'') seg \<and> s = seg)"
      using legacy legacy_read [OF _ r] by blast
    then have w2: "evolves w w2" using evolves_trans [OF w1(2)] evolves_same by blast
    show ?thesis
    proof (cases r)
      case None
      then show ?thesis using m r w2 by (simp add: migrate_legacy_recent_segment_def ibind_def ichange_def evolves_def)
    next
      case (Some s)
      then have s: "s = seg" "segment_at I objects w1 (canon_key ''recent'') seg" using r' by simp_all
      obtain w3 w4 u where pub: "publish_recent_segment I seg w2 = (Ok (), w3)" and existing: "existing = Some seg"
        and clean: "ignore_error (delete_legacy_recent (ing_chain_store I)) w3 = (Ok u, w4)" "ignore_error (delete_legacy_ingested (ing_state_client I)) w4 = (Ok (), w')"
        using m r Some s(1) by (auto simp: migrate_legacy_recent_segment_def ibind_step [where p = "ichange (\<lambda>_. CanonicalChainStoreRequest) (get_legacy_recent (ing_chain_store I))"]
            ichange_def outcome_simps)
      have "restorable I objects seg w1" using legacy s(2) by (auto simp: segment_at_def)
      then obtain start b A H where b: "seg = published b" "recorded I objects {} start b A H w1" "Suc (cur_number (last_block (bd_info b))) < u64_lim"
        unfolding restorable_def by blast
      have "evolves w1 w2" using r' evolves_same by blast
      then have "recorded I objects {} start b A H w2" using recorded_evolves [OF b(2)] by blast
      then have "grows w2 w3 \<and> points_at I objects store w3 b A" "recorded I objects {} start b A H w3"
        using publish_points [OF _ b(3)] pub b(1) recorded_grows by blast+
      then have "grows w w' \<and> points_at I objects store w' b A \<and> recorded I objects {} start b A H w'"
        using clean_up_evolves [OF clean] w2 grows_trans points_evolves recorded_evolves unfolding evolves_def by blast
      then show ?thesis using existing b(1,3) by blast
    qed
  qed
qed

lemma initialize_ok:
  assumes old: "resumable I objects store w" and kept: "\<And>c. c \<in> B \<Longrightarrow> stored_block w c"
    and init: "initialize I service_new w = (Ok (st, sv), w')"
  shows "service_ok I objects store B st sv w'"
proof -
  obtain head w1 finalized w2 action sv1 w3 w4 where head: "rpc_get_head_cursor (ing_source I) w = (Ok head, w1)"
    and fin: "rpc_get_finalized_cursor (ing_source I) w1 = (Ok finalized, w2)" "put_finalized (ing_state_client I) (cur_number finalized) w2 = (Ok (), w3)"
    and starting: "service_starting_cursor I service_new w3 = (Ok (action, sv1), w4)"
    and rest: "begin_ingestion I finalized head action sv1 w4 = (Ok (st, sv), w')"
    using init by (auto simp: initialize_def outcome_simps)
  have head_ok: "Suc (cur_number head) < u64_lim" using head source unfolding source_ok_def by blast
  have "seen w3 = seen w"
    using keepsD [OF source_keeps(1) head] keepsD [OF source_keeps(2) fin(1)] keepsD [OF block_keys_seen(1) fin(2)] by simp
  then have w3: "resumable I objects store w3" "evolves w w3" using resumable_seen old evolves_same by blast+
  obtain existing w5 where ex: "existing_chain_segment I w3 = (Ok existing, w5)"
    using starting by (auto simp: service_starting_cursor_def outcome_simps)
  note found = existing_segment [OF w3(1) ex]
  have kept5: "stored_block w5 c" if "c \<in> B" for c using kept [OF that] w3(2) found by (simp add: evolves_def grows_def)
  show ?thesis
  proof (cases existing)
    case None
    then obtain n where action: "action = StartAt n" "sv1 = service_new" and put: "put_starting_block (ing_state_client I) n w5 = (Ok (), w4)"
      using starting ex by (auto simp: service_starting_cursor_def Let_def ibind_step [where p = "existing_chain_segment I", OF ex] outcome_simps)
    then obtain info w6 b' w7 where ing: "ingest_block_by_number I n w4 = (Ok info, w6)" and grow: "grow builder_new info = Ok b'"
      and pub: "publish_current I (service_new\<lparr>sv_chain_builder := b'\<rparr>) w6 = (Ok (), w7)"
      and st: "start_ingest I finalized head (block_cursor info) (service_new\<lparr>sv_chain_builder := b'\<rparr>) w7 = (Ok (st, sv), w')"
      using rest by (auto simp: begin_ingestion_def outcome_simps service_new_def Let_def)
    note info = ingest_block_evolves [OF ing]
    have blk: "block_ok info" using info by (simp add: block_ok_def)
    obtain b where b: "b' = Building b" "last_block (bd_info b) = block_cursor info"
      using grow by (auto simp: builder_new_def grow_Empty)
    have "archive_run (io_chain_segment_size (ing_options I)) n (Building b) Map.empty {block_cursor info}"
      using ar_start [OF sizes blk _ grow] info b(1) by simp
    moreover have "stored_block w6 c" if "c \<in> B" for c
      using kept5 [OF that] evolves_keeps [OF block_keys_seen(2) put] info by (simp add: evolves_def grows_def)
    ultimately have rec: "recorded I objects B n b Map.empty {block_cursor info} w6" using info by (simp add: recorded_def)
    have lim: "Suc (cur_number (last_block (bd_info b))) < u64_lim" using b(2) info by (simp add: block_cursor_def)
    have "recorded I objects B n b Map.empty {block_cursor info} w7 \<and> points_at I objects store w7 b Map.empty"
      using publish_current_points [OF rec lim _ pub] b(1) by simp
    then show ?thesis
      using start_ingest_ok [of _ b B n "Map.empty" "{block_cursor info}" w7, OF _ _ b(2) _ _ head_ok _ _ st] b lim
      by (auto simp: service_new_def)
  next
    case (Some seg)
    then obtain start b A H where b: "seg = published b" "recorded I objects {} start b A H w5" "Suc (cur_number (last_block (bd_info b))) < u64_lim"
      "points_at I objects store w5 b A" using found by blast
    have ok: "segment_ok seg" using published_ok [OF recorded_building [OF b(2)]] b(1) by simp
    let ?b = "restored seg" and ?H = "{c \<in> H. cur_number c \<le> cur_number (last_block (cs_info seg))}"
    have restore: "restore_from_segment seg = Ok (Building ?b)" by (rule restore_from_segment_eq [OF ok])
    have run: "archive_run (io_chain_segment_size (ing_options I)) start (Building ?b) A ?H"
      using ar_restart [OF _ _ restore] b(1,2) current_segment_Building unfolding recorded_def by blast
    have last: "last_block (bd_info ?b) = last_block (bd_info b)" and first: "first_number ?b = first_number b"
      using b(1) by (simp_all add: first_number_def)
    obtain r where r: "rpc_get_block_info_by_number (ing_source I) (cur_number (last_block (bd_info b))) w5 = (r, w4)"
      and act: "action = RecoverFrom (last_block (bd_info b)) \<or> action = ResumeAt (last_block (bd_info b))" and sv1: "sv1 = service_new\<lparr>sv_chain_builder := Building ?b\<rparr>"
      using starting Some last
      by (auto simp: service_starting_cursor_def ibind_step [where p = "existing_chain_segment I", OF ex] restore Let_def split: prod.splits outcome.splits if_splits)
    have "recorded I objects B start ?b A ?H w5" using run b(2) kept5 by (auto simp: recorded_def)
    then have rec: "recorded I objects B start ?b A ?H w4" and at: "points_at I objects store w4 b A"
      using recorded_evolves points_evolves [OF b(4)] evolves_keeps [OF source_keeps(3) r] by blast+
    have free: "A (first_number ?b) = None" using archive_next_free [OF b(2)] first by simp
    show ?thesis
      using act
    proof
      assume "action = RecoverFrom (last_block (bd_info b))"
      then show ?thesis using rest service_okI [OF _ rec _ at free] sv1 last b(3) head_ok by (auto simp: begin_ingestion_def)
    next
      assume "action = ResumeAt (last_block (bd_info b))"
      then have "start_ingest I finalized head (last_block (bd_info b)) sv1 w4 = (Ok (st, sv), w')"
        using rest by (simp add: begin_ingestion_def)
      from start_ingest_ok [OF _ rec last _ b(3) head_ok at free this] show ?thesis using sv1 by (simp add: service_new_def)
    qed
  qed
qed

lemma ingestion_run_ok:
  "service_ok I objects store B st sv w \<Longrightarrow> ingestion_run n I lc lk st sv w = (Ok (finished, lk', st', sv'), w') \<Longrightarrow> service_ok I objects store B st' sv' w'"
proof (induction n arbitrary: lk st sv w)
  case (Suc n)
  show ?case
  proof (cases "ing_cancelled I w")
    case True
    then show ?thesis using Suc.prems by simp
  next
    case False
    then obtain lk1 w1 st1 sv1 w2 where alive: "keep_alive lc lk w = (Ok lk1, w1)" and tick: "ingestion_tick I st sv w1 = (Ok (st1, sv1), w2)"
      and rest: "ingestion_run n I lc lk1 st1 sv1 w2 = (Ok (finished, lk', st', sv'), w')"
      using Suc.prems(2) by (auto simp: outcome_simps)
    have "keeps (\<lambda>w. (objects w, recent_entry I store w)) (keep_alive lc lk)"
      using keepsD [OF lock_keeps] by (auto simp: keeps_def keep_alive_def ibind_def split: prod.splits outcome.splits)
    then have "evolves w w1" using alive by (rule evolves_keeps)
    then have ok1: "service_ok I objects store B st sv w1" by (rule service_evolves [OF Suc.prems(1)])
    have "service_ok I objects store B st1 sv1 w2"
    proof (cases st)
      case (Ingest s)
      then show ?thesis using tick_ingest_ok [of _ s sv w1] ok1 tick by simp
    next
      case (Recover s)
      then show ?thesis using tick_recover_ok [of _ s sv w1] ok1 tick by simp
    qed
    then show ?thesis by (rule Suc.IH [OF _ rest])
  qed
qed simp

end

section \<open>Recovery\<close>

text \<open>\<open>R\<close> is the chain of the source.\<close>

definition on_chain :: "(nat \<rightharpoonup> block_info) \<Rightarrow> cursor \<Rightarrow> bool" where
  "on_chain R c \<longleftrightarrow> (\<exists>info. R (cur_number c) = Some info \<and> block_cursor info = c)"

lemma recover_loop_step:
  assumes "fst (rpc_get_block_info_by_number (ing_source I) n w) = (case R n of Some info \<Rightarrow> Ok info | None \<Rightarrow> Err BlockNotFound)"
    and "\<not> ing_cancelled I w" and "cur_number c = n"
  shows "recover_loop I seg n c w = (if on_chain R c then (Ok (Some c), snd (rpc_get_block_info_by_number (ing_source I) n w))
    else (case n of 0 \<Rightarrow> ierr IngestionModel
      | Suc m \<Rightarrow> ibind (ilift (map_err (\<lambda>_. IngestionModel) (segment_canonical seg m))) (recover_loop I seg m))
        (snd (rpc_get_block_info_by_number (ing_source I) n w)))"
proof -
  obtain r w1 where rpc: "rpc_get_block_info_by_number (ing_source I) n w = (r, w1)" by (meson surj_pair)
  show ?thesis
  proof (cases "R n")
    case None
    then have "\<not> on_chain R c" "r = Err BlockNotFound" using assms(1,3) rpc by (simp_all add: on_chain_def)
    then show ?thesis using assms(2) by (simp add: recover_loop.simps [of I seg n c] rpc Let_def is_block_not_found_def)
  next
    case (Some info)
    then have "on_chain R c \<longleftrightarrow> block_cursor info = c" "r = Ok info" using assms(1,3) rpc by (simp_all add: on_chain_def)
    then show ?thesis using assms(2) by (simp add: recover_loop.simps [of I seg n c] rpc Let_def)
  qed
qed

lemma recover_loop_spec:
  assumes ok: "building_ok b"
    and remote: "\<And>n w. fst (rpc_get_block_info_by_number (ing_source I) n w) = (case R n of Some info \<Rightarrow> Ok info | None \<Rightarrow> Err BlockNotFound)"
    and active: "\<And>w. \<not> ing_cancelled I w"
  shows "is_canonical b c \<Longrightarrow> cur_number c = n \<Longrightarrow>
    (\<exists>d w'. recover_loop I (published b) n c w = (Ok (Some d), w') \<and> is_canonical b d \<and> on_chain R d \<and>
       (\<forall>x. is_canonical b x \<and> cur_number d < cur_number x \<and> cur_number x \<le> n \<longrightarrow> \<not> on_chain R x)) \<or>
    (\<exists>w'. recover_loop I (published b) n c w = (Err IngestionModel, w') \<and> (\<forall>x. is_canonical b x \<and> cur_number x \<le> n \<longrightarrow> \<not> on_chain R x))"
proof (induction n arbitrary: c w)
  case 0
  have eq: "x = c" if "is_canonical b x" "cur_number x \<le> 0" for x
    using that 0 by (auto simp: is_canonical_def intro: cursor_eqI)
  note step = recover_loop_step [where R = R, OF remote active 0(2), of "published b" w]
  show ?case
  proof (cases "on_chain R c")
    case True
    then show ?thesis using step 0 by auto
  next
    case False
    then have "recover_loop I (published b) 0 c w = (Err IngestionModel, snd (rpc_get_block_info_by_number (ing_source I) 0 w))"
      using step by simp
    then show ?thesis using False eq by blast
  qed
next
  case (Suc n)
  note step = recover_loop_step [where R = R, OF remote active Suc.prems(2), of "published b" w]
  have eq: "x = c" if "is_canonical b x" "cur_number x = Suc n" for x
    using that Suc.prems by (auto simp: is_canonical_def intro: cursor_eqI)
  show ?case
  proof (cases "on_chain R c")
    case True
    then show ?thesis using step Suc.prems by auto
  next
    case False
    let ?w = "snd (rpc_get_block_info_by_number (ing_source I) (Suc n) w)"
    have c: "first_number b \<le> Suc n" "Suc n \<le> last_number b" using Suc.prems by (auto simp: is_canonical_def)
    show ?thesis
    proof (cases "first_number b \<le> n")
      case True
      let ?d = "mk_cursor n (bd_canonical b ! (n - first_number b))"
      have d: "is_canonical b ?d" using True c by (simp add: is_canonical_def)
      have "segment_canonical (published b) n = Ok ?d" using segment_canonical_published [OF ok True] c by simp
      then have "recover_loop I (published b) (Suc n) c w = recover_loop I (published b) n ?d ?w"
        using step False by simp
      moreover have "\<not> on_chain R x" if "is_canonical b x" "cur_number x = Suc n" for x using eq [OF that] False by simp
      ultimately show ?thesis using Suc.IH [OF d, of ?w] unfolding le_Suc_eq by fastforce
    next
      case False2: False
      have "segment_canonical (published b) n = Err ViewError"
        using False2 by (simp add: segment_canonical_def published_def flip: first_number_def)
      then have "recover_loop I (published b) (Suc n) c w = (Err IngestionModel, ?w)" using step False by (simp add: ibind_def)
      moreover have "x = c" if "is_canonical b x" "cur_number x \<le> Suc n" for x
        using that False2 eq [of x] by (auto simp: is_canonical_def)
      ultimately show ?thesis using False by blast
    qed
  qed
qed

section \<open>A reference environment\<close>

text \<open>The in-memory bucket and key-value store, with a source that serves the demonstration chain from block 5. Its head is
  block 5 until the first object is written and block 6 from then on. A finished task is preferred to a
  head refresh.\<close>

definition demo_source :: "mem_world block_ingestion" where
  "demo_source = \<lparr>rpc_supports_pending = False,
     rpc_get_head_cursor = (\<lambda>w. (Ok (demo_cursor (if mw_bucket w = [] then 5 else 6)), w)),
     rpc_get_finalized_cursor = ireturn (demo_cursor 5),
     rpc_get_block_info_by_number = (\<lambda>n. if n \<le> 6 then ireturn (demo_block n) else ierr BlockNotFound),
     rpc_ingest_block_by_number = (\<lambda>n. if n \<le> 6 then ireturn (demo_block n, demo_stored_block) else ierr BlockNotFound),
     rpc_ingest_pending_block = (\<lambda>_ _. ireturn None), rpc_new_heads_stream = ierr RpcRequest, rpc_next_head = (\<lambda>w. (None, w))\<rparr>"

definition mem_ingestion ::
  "mem_world block_ingestion \<Rightarrow> recent_segment_pointer list \<Rightarrow> chain_segment list \<Rightarrow> ingestion_options \<Rightarrow> mem_world ingestion" where
  "mem_ingestion source pointers segments options = \<lparr>ing_options = options, ing_source = source,
     ing_block_store = mem_block_store [demo_stored_block] [],
     ing_state_client = \<lparr>stc_kv = mem_kv_client, stc_json = table_serde pointers\<rparr>, ing_chain_store = mem_store segments,
     ing_select = (\<lambda>events w. (case find (\<lambda>e. e \<in> events) [TaskFinished, HeadInterval, FinalizedInterval, PendingInterval, NewHeads] of
        Some e \<Rightarrow> e | None \<Rightarrow> IngestCancelled, w)),
     ing_cancelled = (\<lambda>_. False)\<rparr>"

definition mem_lock :: "mem_world lock_client" where
  "mem_lock = \<lparr>lkc_client = \<lparr>lb_lease_grant = (\<lambda>_. ireturn 1), lb_lease_keep_alive = (\<lambda>_. ireturn ()), lb_keep_alive = (\<lambda>_. ireturn ()),
       lb_wait = (\<lambda>_ _. ireturn (LockResponse [])), lb_unlock = (\<lambda>_. ireturn ()), lb_time_to_live = (\<lambda>_. ireturn 60), lb_now = mw_tick\<rparr>,
     lkc_prefix = ''dna/'', lkc_options = default_lock_options\<rparr>"

lemma demo_source_ok: "source_ok demo_source"
  by (auto simp: source_ok_def demo_source_def demo_block_def demo_cursor_def demo_hash_def hash_is_zero_def u64_lim_def split: if_splits)

interpretation mem_ingestion: ingestion_env "mem_ingestion demo_source pointers segments
    \<lparr>io_max_concurrent_tasks = 2, io_chain_segment_size = 10, io_chain_segment_upload_offset_size = 1, io_override_starting_block = Some 5\<rparr>"
  mem_lock mw_objects mw_cache mw_cache mem_kv mem_later "(=)"
proof -
  let ?I = "mem_ingestion demo_source pointers segments
    \<lparr>io_max_concurrent_tasks = 2, io_chain_segment_size = 10, io_chain_segment_upload_offset_size = 1, io_override_starting_block = Some 5\<rparr>"
  have sel: "ing_block_store ?I = mem_block_store [demo_stored_block] []" "ing_chain_store ?I = mem_store segments" "ing_source ?I = demo_source"
    "stc_kv (ing_state_client ?I) = mem_kv_client" "stc_json (ing_state_client ?I) = table_serde pointers"
    by (simp_all add: mem_ingestion_def)
  have tick: "mem_kv (w\<lparr>mw_bucket := b, mw_tick := t\<rparr>) = mem_kv w" "mem_kv (w\<lparr>mw_tick := t\<rparr>) = mem_kv w" "mem_kv (w\<lparr>mw_bucket := b\<rparr>) = mem_kv w" for w b t
    by (simp_all add: mem_kv_def fun_eq_iff split: option.splits)
  show "ingestion_env ?I mem_lock mw_objects mw_cache mw_cache mem_kv mem_later (=)"
    unfolding ingestion_env_def ingestion_env_axioms_def sel recent_entry_def
  proof (intro conjI allI impI mem_blocks.block_backend_axioms mem.segment_store_axioms mem_etcd.etcd_store_axioms demo_source_ok)
    show "fst (ing_select ?I events w) \<in> events" if nonempty: "events \<noteq> {}" for events w
    proof -
      obtain e where "e \<in> events" using nonempty by blast
      then show ?thesis by (cases e) (auto simp: mem_ingestion_def)
    qed
  qed (simp_all add: mem_ingestion_def mem_store_def mem_block_store_def demo_source_def mem_lock_def keeps_def mem_kv_client_def mem_etcd_def
      mem_commit_def mw_objects_def table_serde_inverse object_store_new_def mem_client_def mem_get_def mem_put_def mem_remove_def tick Let_def
      split: option.splits put_mode.splits)
qed

text \<open>Its first steps: block 5 is ingested and published, then the head moves and block 6 follows.\<close>

definition demo_options :: ingestion_options where
  "demo_options = \<lparr>io_max_concurrent_tasks = 2, io_chain_segment_size = 10, io_chain_segment_upload_offset_size = 1, io_override_starting_block = Some 5\<rparr>"

definition demo_chain :: "nat \<Rightarrow> building" where
  "demo_chain n = \<lparr>bd_previous_segment = None, bd_info = \<lparr>first_block = demo_cursor 5, last_block = demo_cursor n\<rparr>,
     bd_canonical = map demo_hash [5..<Suc n], bd_reorgs = []\<rparr>"

definition demo_pointer :: "nat \<Rightarrow> nat \<Rightarrow> recent_segment_pointer" where
  "demo_pointer n t = \<lparr>rsp_key = canon_key (recent_snapshot_filename 5 n t t), rsp_version = show_nat (Suc t), rsp_first_block = 5, rsp_last_block = n\<rparr>"

definition demo_ingestion :: "mem_world ingestion" where
  "demo_ingestion = mem_ingestion demo_source [demo_pointer 5 2, demo_pointer 6 5] [published (demo_chain 5), published (demo_chain 6)] demo_options"

definition demo_state :: "nat \<Rightarrow> nat \<Rightarrow> ingest_state" where
  "demo_state head n = \<lparr>is_finalized = demo_cursor 5, is_head = demo_cursor head, is_last_ingested = demo_cursor n,
     is_queued_block_number = head, is_pending_block_state = default_pending_block_state, is_new_heads = False\<rparr>"

definition demo_published :: "nat \<Rightarrow> nat \<Rightarrow> mem_world \<Rightarrow> bool" where
  "demo_published n t w \<longleftrightarrow> (\<exists>v r stored bs. mem_kv w ''dna/ingestion/recent'' = Some (v, r) \<and>
     from_bytes (stc_json (ing_state_client demo_ingestion)) v = Some (demo_pointer n t) \<and>
     mw_objects w (rsp_key (demo_pointer n t)) = Some (rsp_version (demo_pointer n t), stored) \<and>
     to_bytes (cst_serde (ing_chain_store demo_ingestion)) (published (demo_chain n)) = Some bs \<and> written_as mem_codec bs stored)"

lemma demo_put_block:
  "put_block (ing_block_store demo_ingestion) c demo_stored_block w =
    (Ok (1, show_nat (mw_tick w)), w\<lparr>mw_bucket := (format_block_key hex_encode c, show_nat (mw_tick w), 0 # put_u32 0) # mw_bucket w, mw_tick := Suc (mw_tick w)\<rparr>)"
  by (simp add: put_block_def put_bytes_def demo_ingestion_def mem_ingestion_def mem_block_store_def table_serde_def object_store_put_def object_store_new_def
      mem_client_def mem_put_def mem_codec_def full_key_def normalize_prefix_def ibind_def ichange_def Let_def)

lemma demo_publish:
  assumes "mw_objects w (canon_key (recent_snapshot_filename 5 n (mw_tick w) (mw_tick w))) = None" and "(n, mw_tick w) = (5, 2) \<or> (n, mw_tick w) = (6, 5)"
  shows "\<exists>v w'. publish_recent_segment demo_ingestion (published (demo_chain n)) w = (Ok (), w') \<and> mw_tick w' = mw_tick w + 2 \<and>
    mw_bucket w' = (canon_key (recent_snapshot_filename 5 n (mw_tick w) (mw_tick w)), v) # mw_bucket w \<and> demo_published n (mw_tick w) w'"
proof -
  have first: "cur_number (first_block (cs_info (published (demo_chain n)))) = 5" "cur_number (last_block (cs_info (published (demo_chain n)))) = n"
    by (simp_all add: demo_chain_def demo_cursor_def)
  have ne: "published (demo_chain 5) \<noteq> published (demo_chain 6)" "demo_pointer 5 2 \<noteq> demo_pointer 6 5"
    by (auto simp: published_def demo_chain_def demo_cursor_def demo_pointer_def)
  have ser: "\<exists>b. to_bytes (table_serde [published (demo_chain 5), published (demo_chain 6)]) (published (demo_chain n)) = Some b"
    "\<exists>b. to_bytes (table_serde [demo_pointer 5 2, demo_pointer 6 5]) (demo_pointer n (mw_tick w)) = Some b"
    using assms(2) by (auto simp: table_serde_def)
  then obtain b p where bp: "to_bytes (table_serde [published (demo_chain 5), published (demo_chain 6)]) (published (demo_chain n)) = Some b"
    "to_bytes (table_serde [demo_pointer 5 2, demo_pointer 6 5]) (demo_pointer n (mw_tick w)) = Some p" by blast
  let ?key = "canon_key (recent_snapshot_filename 5 n (mw_tick w) (mw_tick w))" and ?stored = "b @ put_u32 (crc32 mem_codec b)"
  let ?w = "w\<lparr>mw_bucket := (?key, show_nat (Suc (mw_tick w)), ?stored) # mw_bucket w, mw_tick := Suc (Suc (mw_tick w))\<rparr>"
  let ?w' = "mem_commit [TxnPut ''dna/ingestion/recent'' p, TxnDelete ''dna/ingestion/pending''] ?w"
  have "publish_recent_segment demo_ingestion (published (demo_chain n)) w = (Ok (), ?w')"
    using assms(1) bp unfolding publish_recent_segment_def put_recent_snapshot_def first
    by (simp add: demo_ingestion_def mem_ingestion_def mem_store_def put_impl_def object_store_put_def object_store_new_def mem_client_def mem_put_def
      mem_codec_def full_key_def normalize_prefix_def ibind_def ichange_def Let_def put_recent_def kv_put_and_delete_def mem_kv_client_def mem_etcd_def
      mem_commit_def demo_pointer_def kv_format_key_def RECENT_KEY_def PENDING_KEY_def)
  moreover have "demo_published n (mw_tick w) ?w'"
    using table_serde_inverse [OF bp(2)] bp(1)
    by (auto simp: demo_published_def mem_kv_commit written_as_def demo_ingestion_def mem_ingestion_def mem_store_def demo_pointer_def mw_objects_def)
      (simp_all add: mem_commit_def mem_codec_def)
  ultimately show ?thesis by (intro exI [of _ "(show_nat (Suc (mw_tick w)), ?stored)"] exI [of _ ?w']) (simp add: mem_commit_def)
qed

lemma demo_restored:
  assumes "demo_published 6 5 w" shows "existing_chain_segment demo_ingestion w = (Ok (Some (published (demo_chain 6))), w)"
proof -
  obtain v r stored bs where kv: "mem_kv w ''dna/ingestion/recent'' = Some (v, r)" "from_bytes (stc_json (ing_state_client demo_ingestion)) v = Some (demo_pointer 6 5)"
    and obj: "mw_objects w (rsp_key (demo_pointer 6 5)) = Some (rsp_version (demo_pointer 6 5), stored)"
    and bs: "to_bytes (cst_serde (ing_chain_store demo_ingestion)) (published (demo_chain 6)) = Some bs" "stored = bs @ put_u32 (crc32 mem_codec bs)"
    using assms by (auto simp: demo_published_def written_as_def mem_codec_def)
  have "get_recent (ing_state_client demo_ingestion) w = (Ok (Some (demo_pointer 6 5)), w)"
    using kv by (simp add: get_recent_def kv_get_def kv_format_key_def RECENT_KEY_def demo_ingestion_def mem_ingestion_def mem_kv_client_def mem_etcd_def
        ibind_def ichange_def ioption_def)
  moreover have "from_bytes (cst_serde (ing_chain_store demo_ingestion)) bs = Some (published (demo_chain 6))"
    using mem.serde_inverse bs(1) by (simp add: demo_ingestion_def mem_ingestion_def)
  moreover have "object_store_get mem_codec (object_store_new mem_client ''bucket'' None) (rsp_key (demo_pointer 6 5)) (Some (rsp_version (demo_pointer 6 5))) w =
      (Ok \<lparr>gr_body = bs, gr_version = rsp_version (demo_pointer 6 5)\<rparr>, w)"
  proof -
    have "crc32 mem_codec bs < 2 ^ 32" by (cases bs rule: rev_cases) (simp_all add: mem_codec_def)
    then show ?thesis
      using obj bs(2) by (simp add: object_store_get_def object_store_new_def mem_client_def mem_get_def full_key_def normalize_prefix_def ibind_def Let_def)
        (simp add: mem_codec_def)
  qed
  moreover have "validate_recent_pointer (demo_pointer 6 5) = Ok ()" "cur_number (first_block (cs_info (published (demo_chain 6)))) = rsp_first_block (demo_pointer 6 5)"
    "cur_number (last_block (cs_info (published (demo_chain 6)))) = rsp_last_block (demo_pointer 6 5)"
    by (simp_all add: validate_recent_pointer_def demo_pointer_def canon_key_def recent_snapshot_filename_def show_nat_small demo_chain_def demo_cursor_def)
  ultimately show ?thesis
    by (simp add: existing_chain_segment_def get_recent_snapshot_def get_by_key_def get_as_bytes_def demo_ingestion_def mem_ingestion_def mem_store_def
        decode_segment_def ibind_def ichange_def)
qed

lemma demo_sel:
  "ing_source demo_ingestion = demo_source" "ing_options demo_ingestion = demo_options" "ing_cancelled demo_ingestion = (\<lambda>_. False)"
  by (simp_all add: demo_ingestion_def mem_ingestion_def)

lemma demo_existing:
  assumes "mw_objects w = Map.empty" and "mem_kv w ''dna/ingestion/recent'' = None"
  shows "existing_chain_segment demo_ingestion w = (Ok None, w)"
  using assms
  by (simp add: existing_chain_segment_def get_recent_def kv_get_def kv_format_key_def RECENT_KEY_def demo_ingestion_def mem_ingestion_def mem_kv_client_def
      mem_etcd_def migrate_legacy_recent_segment_def get_legacy_recent_def get_impl_def get_as_bytes_def object_store_get_def mem_store_def
      object_store_new_def mem_client_def mem_get_def full_key_def normalize_prefix_def ibind_def ichange_def Let_def)

lemma demo_put_number:
  "\<exists>w'. put_block_at (ing_state_client demo_ingestion) key n w = (Ok (), w') \<and> mw_bucket w' = mw_bucket w \<and> mw_tick w' = mw_tick w \<and>
    (\<forall>k. k \<noteq> ''dna/'' @ key \<longrightarrow> mem_kv w' k = mem_kv w k)"
  using mem_kv_put [of "''dna/'' @ key" "string_bytes (show_nat n)" w]
  by (simp add: put_block_at_def kv_put_def kv_format_key_def demo_ingestion_def mem_ingestion_def mem_kv_client_def mem_etcd_def ichange_def mem_commit_def)

lemma demo_initialize:
  "\<exists>w1 v u. initialize demo_ingestion service_new empty_world = (Ok (Ingest (demo_state 5 5), \<lparr>sv_chain_builder = Building (demo_chain 5), sv_task_queue = []\<rparr>), w1) \<and>
    mw_tick w1 = 4 \<and> mw_bucket w1 = [(canon_key (recent_snapshot_filename 5 5 2 2), v), (format_block_key hex_encode (demo_cursor 5), u)]"
proof -
  let ?e = empty_world
  obtain w1 where w1: "put_finalized (ing_state_client demo_ingestion) 5 ?e = (Ok (), w1)" "mw_bucket w1 = []" "mw_tick w1 = 1"
    "\<forall>k. k \<noteq> ''dna/'' @ FINALIZED_KEY \<longrightarrow> mem_kv w1 k = mem_kv ?e k"
    using demo_put_number [of FINALIZED_KEY 5 ?e] by (auto simp: put_finalized_def empty_world_def)
  have "mw_objects w1 = Map.empty" "mem_kv w1 ''dna/ingestion/recent'' = None"
    using w1 by (simp_all add: mw_objects_def FINALIZED_KEY_def) (simp add: mem_kv_def empty_world_def)
  note existing = demo_existing [OF this]
  obtain w2 where w2: "put_starting_block (ing_state_client demo_ingestion) 5 w1 = (Ok (), w2)" "mw_bucket w2 = []" "mw_tick w2 = 1"
    using demo_put_number [of STARTING_BLOCK_KEY 5 w1] w1 by (auto simp: put_starting_block_def)
  let ?w3 = "w2\<lparr>mw_bucket := (format_block_key hex_encode (demo_cursor 5), show_nat (mw_tick w2), 0 # put_u32 0) # mw_bucket w2, mw_tick := Suc (mw_tick w2)\<rparr>"
  have "mw_objects ?w3 (canon_key (recent_snapshot_filename 5 5 (mw_tick ?w3) (mw_tick ?w3))) = None"
    using key_kinds(1) w2 by (simp add: mw_objects_def)
  moreover have t: "mw_tick ?w3 = 2" using w2 by simp
  ultimately obtain v w4 where "publish_recent_segment demo_ingestion (published (demo_chain 5)) ?w3 = (Ok (), w4)" "mw_tick w4 = mw_tick ?w3 + 2"
    "mw_bucket w4 = (canon_key (recent_snapshot_filename 5 5 (mw_tick ?w3) (mw_tick ?w3)), v) # mw_bucket ?w3"
    using demo_publish [of ?w3 5] by blast
  then have pub: "publish_recent_segment demo_ingestion (published (demo_chain 5)) ?w3 = (Ok (), w4)" "mw_tick w4 = 4"
    "mw_bucket w4 = (canon_key (recent_snapshot_filename 5 5 2 2), v) # mw_bucket ?w3" unfolding t by simp_all
  have cur: "block_cursor (demo_block 5) = demo_cursor 5" "cur_number (demo_cursor n) = n" for n
    by (simp_all add: block_cursor_def demo_block_def demo_cursor_def mk_cursor_def)
  have grow: "grow builder_new (demo_block 5) = Ok (Building (demo_chain 5))"
    by (simp add: builder_new_def grow_Empty demo_chain_def cur) (simp add: demo_block_def)
  have ing: "ingest_block_by_number demo_ingestion 5 w2 = (Ok (demo_block 5), ?w3)"
    using demo_put_block [of "demo_cursor 5" w2]
    by (simp add: ingest_block_by_number_def demo_sel demo_source_def ibind_def ichange_def cur) (simp add: demo_stored_block_def)
  have starting: "service_starting_cursor demo_ingestion service_new w1 = (Ok (StartAt 5, service_new), w2)"
    using w2(1) by (simp add: service_starting_cursor_def ibind_def ichange_def existing demo_sel demo_options_def Let_def)
  have begins: "begin_ingestion demo_ingestion (demo_cursor 5) (demo_cursor 5) (StartAt 5) service_new w2 =
      (Ok (Ingest (demo_state 5 5), \<lparr>sv_chain_builder = Building (demo_chain 5), sv_task_queue = []\<rparr>), w4)"
    using ing grow pub(1) by (simp add: begin_ingestion_def service_new_def ibind_def Let_def publish_current_def current_segment_Building start_ingest_def
        open_new_heads_def demo_sel demo_source_def demo_state_def cur)
  have "initialize demo_ingestion service_new ?e = begin_ingestion demo_ingestion (demo_cursor 5) (demo_cursor 5) (StartAt 5) service_new w2"
    using w1(1) starting by (simp add: initialize_def ibind_def ichange_def demo_sel demo_source_def cur) (simp add: empty_world_def)
  then show ?thesis using begins pub w2 by simp
qed

lemma demo_cur: "block_cursor (demo_block n) = demo_cursor n" "cur_number (demo_cursor n) = n"
  by (simp_all add: block_cursor_def demo_block_def demo_cursor_def mk_cursor_def)

lemma demo_head_tick:
  assumes "mw_bucket w \<noteq> []"
  shows "tick_ingest demo_ingestion (demo_state 5 5) \<lparr>sv_chain_builder = b, sv_task_queue = []\<rparr> w =
    (Ok (Ingest (demo_state 6 5), \<lparr>sv_chain_builder = b, sv_task_queue = [QueuedMain 6]\<rparr>), w)"
proof -
  have "ing_select demo_ingestion (enabled_events demo_ingestion (demo_state 5 5) \<lparr>sv_chain_builder = b, sv_task_queue = []\<rparr>) w = (HeadInterval, w)"
    by (simp add: demo_ingestion_def mem_ingestion_def enabled_events_def)
  moreover have "demo_cursor 5 \<noteq> demo_cursor 6" by (metis demo_cur(2) numeral_eq_iff semiring_norm(88) semiring_norm(90))
  moreover have "push_tasks demo_ingestion 6 5 \<lparr>sv_chain_builder = b, sv_task_queue = []\<rparr> = (6, \<lparr>sv_chain_builder = b, sv_task_queue = [QueuedMain 6]\<rparr>)"
    by (simp add: push_tasks.simps can_push_task_def push_ingest_block_by_number_def demo_sel demo_options_def u64_add_def u64_lim_def)
  ultimately show ?thesis using assms
    by (simp add: tick_ingest_def demo_sel demo_source_def ichange_def ibind_def tick_refresh_head_def demo_cur) (simp add: demo_state_def demo_cur)
qed

lemma demo_block_tick:
  assumes "mw_tick w = 4" and "mw_objects w (canon_key (recent_snapshot_filename 5 6 5 5)) = None"
  shows "\<exists>w'. tick_ingest demo_ingestion (demo_state 6 5) \<lparr>sv_chain_builder = Building (demo_chain 5), sv_task_queue = [QueuedMain 6]\<rparr> w =
    (Ok (Ingest (demo_state 6 6), \<lparr>sv_chain_builder = Building (demo_chain 6), sv_task_queue = []\<rparr>), w') \<and> demo_published 6 5 w'"
proof -
  let ?sv = "\<lparr>sv_chain_builder = Building (demo_chain 5), sv_task_queue = [QueuedMain 6]\<rparr>"
    and ?sv' = "\<lparr>sv_chain_builder = Building (demo_chain 6), sv_task_queue = []\<rparr>"
  let ?w = "w\<lparr>mw_bucket := (format_block_key hex_encode (demo_cursor 6), show_nat (mw_tick w), 0 # put_u32 0) # mw_bucket w, mw_tick := Suc (mw_tick w)\<rparr>"
  have sel: "ing_select demo_ingestion (enabled_events demo_ingestion (demo_state 6 5) ?sv) w = (TaskFinished, w)"
    by (simp add: demo_ingestion_def mem_ingestion_def enabled_events_def)
  have ing: "ingest_block_by_number demo_ingestion 6 w = (Ok (demo_block 6), ?w)"
    using demo_put_block [of "demo_cursor 6" w]
    by (simp add: ingest_block_by_number_def demo_sel demo_source_def ibind_def ichange_def demo_cur) (simp add: demo_stored_block_def)
  have grow: "can_grow (Building (demo_chain 5)) (demo_block 6)" "grow (Building (demo_chain 5)) (demo_block 6) = Ok (Building (demo_chain 6))"
    by (simp_all add: grow_def Let_def demo_chain_def demo_cur)
      (simp_all add: demo_cursor_def demo_block_def mk_cursor_def demo_hash_def u64_add_def u64_lim_def upt_rec)
  have "mw_objects ?w (canon_key (recent_snapshot_filename 5 6 (mw_tick ?w) (mw_tick ?w))) = None"
    using key_kinds(1) assms by (simp add: mw_objects_def)
  moreover have t: "mw_tick ?w = 5" using assms by simp
  ultimately obtain w' where "publish_recent_segment demo_ingestion (published (demo_chain 6)) ?w = (Ok (), w')" "demo_published 6 (mw_tick ?w) w'"
    using demo_publish [of ?w 6] by blast
  then have pub: "publish_recent_segment demo_ingestion (published (demo_chain 6)) ?w = (Ok (), w')" "demo_published 6 5 w'" unfolding t by simp_all
  have size: "segment_size (Building (demo_chain 6)) = 2" by (simp add: demo_chain_def)
  have push: "push_tasks demo_ingestion 6 6 ?sv' = (6, ?sv')"
    by (subst push_tasks.simps) (simp add: u64_add_def u64_lim_def)
  have "tick_with_main_block demo_ingestion (demo_state 6 5) \<lparr>sv_chain_builder = Building (demo_chain 5), sv_task_queue = []\<rparr> (demo_block 6) ?w =
      (Ok (Ingest (demo_state 6 6), ?sv'), w')"
    using grow pub(1) size push
    by (simp add: tick_with_main_block_def upload_segment_def demo_sel demo_options_def u64_add_def u64_lim_def publish_current_def current_segment_Building
        ibind_def Let_def demo_state_def push_more_def demo_cur del: can_grow.simps) (simp add: demo_block_def)
  then show ?thesis using sel ing pub(2) by (simp add: tick_ingest_def ibind_def task_queue_next_def tick_with_task_result_def)
qed

text \<open>A source that lost block 6.\<close>

definition forked_ingestion :: "mem_world ingestion" where
  "forked_ingestion = demo_ingestion\<lparr>ing_source :=
     demo_source\<lparr>rpc_get_block_info_by_number := (\<lambda>n. if n \<le> 5 then ireturn (demo_block n) else ierr BlockNotFound)\<rparr>\<rparr>"

lemma demo_ingestion_run:
  assumes "lk_min_refresh_interval lk = 100"
  shows "\<exists>w'. ingestion_start 2 demo_ingestion mem_lock lk empty_world =
    (Ok (False, lk, Ingest (demo_state 6 6), \<lparr>sv_chain_builder = Building (demo_chain 6), sv_task_queue = []\<rparr>), w') \<and> demo_published 6 5 w'"
proof -
  obtain w1 v u where w1: "initialize demo_ingestion service_new empty_world = (Ok (Ingest (demo_state 5 5), \<lparr>sv_chain_builder = Building (demo_chain 5), sv_task_queue = []\<rparr>), w1)"
    "mw_tick w1 = 4" "mw_bucket w1 = [(canon_key (recent_snapshot_filename 5 5 2 2), v), (format_block_key hex_encode (demo_cursor 5), u)]"
    using demo_initialize by blast
  have "canon_key (recent_snapshot_filename 5 6 5 5) \<noteq> canon_key (recent_snapshot_filename 5 5 2 2)"
    by (simp add: canon_key_def recent_snapshot_filename_def pad_def show_nat_small)
  then have "mw_objects w1 (canon_key (recent_snapshot_filename 5 6 5 5)) = None" using w1(3) key_kinds by (simp add: mw_objects_def)
  from demo_block_tick [OF w1(2) this] demo_head_tick [of w1] w1 assms show ?thesis
    by (auto simp: ingestion_start_def ibind_def numeral_2_eq_2 demo_sel keep_alive_def mem_lock_def ichange_def)
qed

text \<open>A restart finds block 6 and resumes there.\<close>

lemma demo_restart:
  assumes "demo_published 6 5 w"
  shows "\<exists>w'. ingestion_start 0 demo_ingestion mem_lock lk w =
    (Ok (False, lk, Ingest (demo_state 6 6), \<lparr>sv_chain_builder = Building (demo_chain 6\<lparr>bd_reorgs := [(5, []), (6, [])]\<rparr>), sv_task_queue = []\<rparr>), w')"
proof -
  obtain w1 where w1: "put_finalized (ing_state_client demo_ingestion) 5 w = (Ok (), w1)" "mw_bucket w1 = mw_bucket w"
    "\<forall>k. k \<noteq> ''dna/'' @ FINALIZED_KEY \<longrightarrow> mem_kv w1 k = mem_kv w k"
    using demo_put_number [of FINALIZED_KEY 5 w] by (auto simp: put_finalized_def)
  then have "demo_published 6 5 w1" and ne: "mw_bucket w \<noteq> []" using assms by (auto simp: demo_published_def mw_objects_def FINALIZED_KEY_def)
  note existing = demo_restored [OF this(1)]
  have restore: "restore_from_segment (published (demo_chain 6)) = Ok (Building (demo_chain 6\<lparr>bd_reorgs := [(5, []), (6, [])]\<rparr>))"
    by (simp add: restore_from_segment_def published_def demo_chain_def first_number_def last_number_def demo_cursor_def upt_rec Let_def
        bt_get_or_def bt_get_def u64_add_def u64_lim_def extra_reorgs_def mk_cursor_def)
  have last: "last_block (bd_info (demo_chain 6)) = demo_cursor 6" by (simp add: demo_chain_def)
  have "service_starting_cursor demo_ingestion service_new w1 =
      (Ok (ResumeAt (demo_cursor 6), service_new\<lparr>sv_chain_builder := Building (demo_chain 6\<lparr>bd_reorgs := [(5, []), (6, [])]\<rparr>)\<rparr>), w1)"
    by (simp add: service_starting_cursor_def ibind_def ioption_def existing restore last demo_sel demo_source_def demo_cur Let_def)
  then show ?thesis
    using w1(1) ne by (simp add: ingestion_start_def initialize_def begin_ingestion_def start_ingest_def open_new_heads_def ibind_def ichange_def demo_sel
        demo_source_def demo_cur demo_state_def service_new_def)
qed

section \<open>Properties\<close>

text \<open>C2: against a source that answers with the blocks that were asked for, and in whatever order its events, task results and
  new heads arrive, the ingestion service only ever extends a chain that started empty or was restored from a published segment
  by steps of the archive: it appends blocks that link to the last one, cuts the chain back to one of its blocks and moves full
  segments to the archive. After a start and any number of ticks that did not fail every archived segment is stored under its
  name, every block that was ever canonical is stored under its key, as are all blocks that were stored before, the last
  ingested block is the last one of the chain, and the queued blocks are those that follow it, in order. Starts compose: what
  a start needs of the stores, an empty store or a published snapshot of such a chain (with reorgs above its last block or
  without), is what the run leaves.\<close>

theorem ingestion_safe:
  assumes "ingestion_env I lc objects cached segment_cache store later others"
    and "resumable I objects store w"
    and "ingestion_start n I lc lk w = (Ok (finished, lk', st, sv), w')"
  shows "\<exists>start b A H. sv_chain_builder sv = Building b \<and>
    archive_run (io_chain_segment_size (ing_options I)) start (Building b) A H \<and>
    (\<forall>n seg. A n = Some seg \<longrightarrow> segment_stored I objects w' n seg) \<and> (\<forall>c \<in> H. block_stored I objects w' c) \<and>
    (\<forall>c. block_stored I objects w c \<longrightarrow> block_stored I objects w' c) \<and>
    (case st of
       Ingest s \<Rightarrow> is_last_ingested s = last_block (bd_info b) \<and>
         main_tasks (sv_task_queue sv) = [Suc (cur_number (is_last_ingested s))..<Suc (is_queued_block_number s)]
     | Recover s \<Rightarrow> rs_last_ingested s = last_block (bd_info b)) \<and>
    resumable I objects store w'"
proof -
  let ?B = "{c. block_stored I objects w c}"
  obtain st0 sv0 w0 where init: "initialize I service_new w = (Ok (st0, sv0), w0)"
    and run: "ingestion_run n I lc lk st0 sv0 w0 = (Ok (finished, lk', st, sv), w')"
    using assms(3) by (auto simp: ingestion_start_def outcome_simps)
  have "service_ok I objects store ?B st sv w'"
    using ingestion_env.ingestion_run_ok [OF assms(1) ingestion_env.initialize_ok [OF assms(1,2) _ init] run] by blast
  then obtain start b A H b0 A0 where "sv_chain_builder sv = Building b" "recorded I objects ?B start b A H w'" "state_ok (last_block (bd_info b)) st sv"
    "points_at I objects store w' b0 A0"
    unfolding service_ok_def by blast
  then show ?thesis
    by (intro exI [of _ start] exI [of _ b] exI [of _ A] exI [of _ H]) (cases st, auto simp: recorded_def resumable_def)
qed

theorem ingestion_safe_witness:
  "\<exists>w1 w2 start A H. ingestion_start 2 demo_ingestion mem_lock \<lparr>lk_key = [], lk_lease_id = 1, lk_min_refresh_interval = 100, lk_last_refresh = 0\<rparr> empty_world =
      (Ok (False, \<lparr>lk_key = [], lk_lease_id = 1, lk_min_refresh_interval = 100, lk_last_refresh = 0\<rparr>, Ingest (demo_state 6 6),
         \<lparr>sv_chain_builder = Building (demo_chain 6), sv_task_queue = []\<rparr>), w1) \<and>
    ingestion_start 0 demo_ingestion mem_lock \<lparr>lk_key = [], lk_lease_id = 1, lk_min_refresh_interval = 100, lk_last_refresh = 0\<rparr> w1 =
      (Ok (False, \<lparr>lk_key = [], lk_lease_id = 1, lk_min_refresh_interval = 100, lk_last_refresh = 0\<rparr>, Ingest (demo_state 6 6),
         \<lparr>sv_chain_builder = Building (demo_chain 6\<lparr>bd_reorgs := [(5, []), (6, [])]\<rparr>), sv_task_queue = []\<rparr>), w2) \<and>
    archive_run 10 start (Building (demo_chain 6\<lparr>bd_reorgs := [(5, []), (6, [])]\<rparr>)) A H \<and> (\<forall>c \<in> H. block_stored demo_ingestion mw_objects w2 c) \<and>
    resumable demo_ingestion mw_objects mem_kv w2"
proof -
  let ?lk = "\<lparr>lk_key = [], lk_lease_id = 1, lk_min_refresh_interval = 100, lk_last_refresh = 0\<rparr>"
  obtain w1 where run1: "ingestion_start 2 demo_ingestion mem_lock ?lk empty_world =
    (Ok (False, ?lk, Ingest (demo_state 6 6), \<lparr>sv_chain_builder = Building (demo_chain 6), sv_task_queue = []\<rparr>), w1)" and "demo_published 6 5 w1"
    using demo_ingestion_run [of ?lk] by auto
  then obtain w2 where run2: "ingestion_start 0 demo_ingestion mem_lock ?lk w1 =
    (Ok (False, ?lk, Ingest (demo_state 6 6), \<lparr>sv_chain_builder = Building (demo_chain 6\<lparr>bd_reorgs := [(5, []), (6, [])]\<rparr>), sv_task_queue = []\<rparr>), w2)"
    using demo_restart by blast
  have env: "ingestion_env demo_ingestion mem_lock mw_objects mw_cache mw_cache mem_kv mem_later (=)"
    unfolding demo_ingestion_def demo_options_def by (rule mem_ingestion.ingestion_env_axioms)
  have "resumable demo_ingestion mw_objects mem_kv empty_world"
    by (simp add: resumable_def recent_entry_def mem_kv_def mw_objects_def empty_world_def)
  then have "resumable demo_ingestion mw_objects mem_kv w1" using ingestion_safe [OF env _ run1] by blast
  from ingestion_safe [OF env this run2] show ?thesis using run1 run2 by (auto simp: demo_sel demo_options_def)
qed

text \<open>C7: a recovery from a reorganisation, against a source with a fixed chain, ends at the last block that both chains
  have: it clears the task queue, cuts the chain back to that block and publishes it, then resumes there.
  When the chains share no block the recovery fails.\<close>

theorem recovery_finds_fork:
  assumes "building_ok b" and "sv_chain_builder sv = Building b" and "rs_last_ingested s = last_block (bd_info b)"
    and "\<And>n w. fst (rpc_get_block_info_by_number (ing_source I) n w) = (case R n of Some info \<Rightarrow> Ok info | None \<Rightarrow> Err BlockNotFound)"
    and "\<And>w. \<not> ing_cancelled I w"
  shows "(\<exists>c w1. is_canonical b c \<and> on_chain R c \<and> (\<forall>d. is_canonical b d \<and> on_chain R d \<longrightarrow> cur_number d \<le> cur_number c) \<and>
      tick_recover I s sv w =
        (let sv' = \<lparr>sv_chain_builder = Building (shrunk b c), sv_task_queue = []\<rparr> in
         ibind (publish_recent_segment I (published (shrunk b c))) (\<lambda>_.
         start_ingest I (rs_finalized s) (rs_existing_head s) c sv')) w1) \<or>
    (\<exists>w1. tick_recover I s sv w = (Err IngestionModel, w1) \<and> (\<forall>d. is_canonical b d \<longrightarrow> \<not> on_chain R d))"
proof -
  let ?c = "last_block (bd_info b)"
  have can: "is_canonical b ?c" by (rule is_canonical_last [OF assms(1)])
  have seg: "segment_canonical (published b) (cur_number ?c) = Ok ?c"
    using segment_canonical_published [OF assms(1), of "cur_number ?c"] can by (auto simp: is_canonical_def last_number_def intro: cursor_eqI)
  have clear: "(task_queue_clear sv)\<lparr>sv_chain_builder := x\<rparr> = \<lparr>sv_chain_builder = x, sv_task_queue = []\<rparr>"
    "sv_chain_builder (task_queue_clear sv) = sv_chain_builder sv" for x
    by (cases sv, simp add: task_queue_clear_def)+
  have tick: "tick_recover I s sv w = ibind (recover_loop I (published b) (cur_number ?c) ?c) (\<lambda>found.
      case found of None \<Rightarrow> ireturn (Recover s, sv)
      | Some new_head \<Rightarrow>
          ibind (ilift (map_err (\<lambda>_. IngestionModel) (shrink (Building b) new_head))) (\<lambda>(removed, builder).
          ibind (publish_current I \<lparr>sv_chain_builder = builder, sv_task_queue = []\<rparr>) (\<lambda>_.
          start_ingest I (rs_finalized s) (rs_existing_head s) new_head \<lparr>sv_chain_builder = builder, sv_task_queue = []\<rparr>))) w"
    by (simp add: tick_recover_def current_segment_Building assms(2,3) seg clear [unfolded assms(2)] Let_def)
  have all: "is_canonical b d \<Longrightarrow> cur_number d \<le> cur_number ?c" for d by (simp add: is_canonical_def last_number_def)
  from recover_loop_spec [where R = R, OF assms(1,4,5) can refl, of w] show ?thesis
  proof
    assume "\<exists>d w'. recover_loop I (published b) (cur_number ?c) ?c w = (Ok (Some d), w') \<and> is_canonical b d \<and> on_chain R d \<and>
       (\<forall>x. is_canonical b x \<and> cur_number d < cur_number x \<and> cur_number x \<le> cur_number ?c \<longrightarrow> \<not> on_chain R x)"
    then obtain d w' where d: "recover_loop I (published b) (cur_number ?c) ?c w = (Ok (Some d), w')" "is_canonical b d" "on_chain R d"
      "\<forall>x. is_canonical b x \<and> cur_number d < cur_number x \<longrightarrow> \<not> on_chain R x" using all by blast
    have "tick_recover I s sv w = (let sv' = \<lparr>sv_chain_builder = Building (shrunk b d), sv_task_queue = []\<rparr> in
         ibind (publish_recent_segment I (published (shrunk b d))) (\<lambda>_.
         start_ingest I (rs_finalized s) (rs_existing_head s) d sv')) w'"
      using d(1,2) shrink_Building [OF assms(1), of d] by (simp add: tick ibind_def publish_current_def current_segment_Building Let_def)
    then show ?thesis using d(2,3,4) by (metis not_le)
  next
    assume "\<exists>w'. recover_loop I (published b) (cur_number ?c) ?c w = (Err IngestionModel, w') \<and>
      (\<forall>x. is_canonical b x \<and> cur_number x \<le> cur_number ?c \<longrightarrow> \<not> on_chain R x)"
    then show ?thesis using all by (auto simp: tick ibind_def)
  qed
qed

theorem recovery_finds_fork_witness:
  "\<exists>w. tick_recover forked_ingestion \<lparr>rs_finalized = demo_cursor 5, rs_existing_head = demo_cursor 6, rs_last_ingested = demo_cursor 6\<rparr>
      \<lparr>sv_chain_builder = Building (demo_chain 6), sv_task_queue = [QueuedMain 7]\<rparr> empty_world =
      ibind (publish_recent_segment forked_ingestion (published (shrunk (demo_chain 6) (demo_cursor 5)))) (\<lambda>_.
      start_ingest forked_ingestion (demo_cursor 5) (demo_cursor 6) (demo_cursor 5)
        \<lparr>sv_chain_builder = Building (shrunk (demo_chain 6) (demo_cursor 5)), sv_task_queue = []\<rparr>) w"
proof -
  let ?R = "\<lambda>n. if n \<le> 5 then Some (demo_block n) else None"
    and ?sv = "\<lparr>sv_chain_builder = Building (demo_chain 6), sv_task_queue = [QueuedMain 7]\<rparr>"
    and ?s = "\<lparr>rs_finalized = demo_cursor 5, rs_existing_head = demo_cursor 6, rs_last_ingested = demo_cursor 6\<rparr>"
  have ok: "building_ok (demo_chain 6)"
    by (simp add: demo_eval demo_chain_def upt_rec)
  have can: "is_canonical (demo_chain 6) c \<longleftrightarrow> c = demo_cursor 5 \<or> c = demo_cursor 6" for c
    by (auto simp: is_canonical_def demo_chain_def first_number_def last_number_def demo_cur le_Suc_eq numeral_eq_Suc)
      (auto simp: demo_cursor_def mk_cursor_def)
  have on: "on_chain ?R (demo_cursor 5)" "\<not> on_chain ?R (demo_cursor 6)" by (simp_all add: on_chain_def demo_cur)
  have rpc: "fst (rpc_get_block_info_by_number (ing_source forked_ingestion) n w) = (case ?R n of Some info \<Rightarrow> Ok info | None \<Rightarrow> Err BlockNotFound)"
    "\<not> ing_cancelled forked_ingestion w" for n w
    by (simp_all add: forked_ingestion_def demo_sel)
  have "sv_chain_builder ?sv = Building (demo_chain 6)" "rs_last_ingested ?s = last_block (bd_info (demo_chain 6))"
    by (simp_all add: demo_chain_def)
  from recovery_finds_fork [where R = ?R and w = empty_world, OF ok this rpc] show ?thesis
    unfolding can using on by (auto simp: Let_def)
qed

text \<open>C40: a recovery keeps the head of the abandoned chain. When the head of the source is the block the chains have
  in common and the old head was above it, refreshing the head starts the same recovery once more, from
  the state the first one left.\<close>

theorem recovery_repeats:
  assumes "tick_recover I s sv w = (Ok (Ingest s', sv'), w')" and "cur_number (is_last_ingested s') < cur_number (rs_existing_head s)"
  shows "tick_refresh_head I s' sv' (is_last_ingested s') =
    (Recover \<lparr>rs_finalized = rs_finalized s, rs_existing_head = rs_existing_head s, rs_last_ingested = is_last_ingested s'\<rparr>, sv')"
proof -
  obtain found w1 where "(case found of None \<Rightarrow> ireturn (Recover s, sv)
       | Some new_head \<Rightarrow>
           ibind (ilift (map_err (\<lambda>_. IngestionModel) (shrink (sv_chain_builder (task_queue_clear sv)) new_head))) (\<lambda>(removed, builder).
           ibind (publish_current I ((task_queue_clear sv)\<lparr>sv_chain_builder := builder\<rparr>)) (\<lambda>_.
           start_ingest I (rs_finalized s) (rs_existing_head s) new_head ((task_queue_clear sv)\<lparr>sv_chain_builder := builder\<rparr>)))) w1 = (Ok (Ingest s', sv'), w')"
    using assms(1) by (auto simp: tick_recover_def Let_def outcome_simps split: if_split_asm)
  then obtain c sv2 w2 where "start_ingest I (rs_finalized s) (rs_existing_head s) c sv2 w2 = (Ok (Ingest s', sv'), w')"
    by (cases found) (auto simp: outcome_simps)
  then have "is_head s' = rs_existing_head s" "is_finalized s' = rs_finalized s"
    by (auto simp: start_ingest_def outcome_simps)
  then show ?thesis using assms(2) by (auto simp: tick_refresh_head_def recover_from_def)
qed

theorem recovery_repeats_witness:
  "\<exists>w s sv. tick_recover forked_ingestion \<lparr>rs_finalized = demo_cursor 5, rs_existing_head = demo_cursor 6, rs_last_ingested = demo_cursor 5\<rparr>
      \<lparr>sv_chain_builder = Building (demo_chain 5), sv_task_queue = []\<rparr> (empty_world\<lparr>mw_tick := 2\<rparr>) = (Ok (Ingest s, sv), w) \<and> is_last_ingested s = demo_cursor 5 \<and>
    tick_refresh_head forked_ingestion s sv (demo_cursor 5) =
      (Recover \<lparr>rs_finalized = demo_cursor 5, rs_existing_head = demo_cursor 6, rs_last_ingested = demo_cursor 5\<rparr>, sv)"
proof -
  let ?s = "\<lparr>rs_finalized = demo_cursor 5, rs_existing_head = demo_cursor 6, rs_last_ingested = demo_cursor 5\<rparr>"
    and ?sv = "\<lparr>sv_chain_builder = Building (demo_chain 5), sv_task_queue = []\<rparr>" and ?w = "empty_world\<lparr>mw_tick := 2\<rparr>"
  have ok: "building_ok (demo_chain 5)" by (simp add: demo_eval demo_chain_def upt_rec)
  obtain w' where pub: "publish_recent_segment forked_ingestion (published (demo_chain 5)) ?w = (Ok (), w')"
    using demo_publish [of ?w 5] by (auto simp: mw_objects_def empty_world_def publish_recent_segment_def forked_ingestion_def)
  have seg: "segment_canonical (published (demo_chain 5)) 5 = Ok (demo_cursor 5)"
    using segment_canonical_published [OF ok, of 5] by (simp add: demo_chain_def first_number_def last_number_def demo_cur) (simp add: demo_cursor_def)
  have loop: "recover_loop forked_ingestion (published (demo_chain 5)) 5 (demo_cursor 5) ?w = (Ok (Some (demo_cursor 5)), ?w)"
    by (subst recover_loop.simps) (simp add: forked_ingestion_def demo_sel demo_cur)
  have "is_canonical (demo_chain 5) (demo_cursor 5)" "shrunk (demo_chain 5) (demo_cursor 5) = demo_chain 5"
    by (simp_all add: is_canonical_def shrunk_def demo_chain_def first_number_def last_number_def demo_cur) (simp_all add: demo_cursor_def)
  then have shrink: "\<exists>removed. shrink (Building (demo_chain 5)) (demo_cursor 5) = Ok (removed, Building (demo_chain 5))"
    using shrink_Building [OF ok, of "demo_cursor 5"] by auto
  have "\<exists>s sv. tick_recover forked_ingestion ?s ?sv ?w = (Ok (Ingest s, sv), w') \<and> is_last_ingested s = demo_cursor 5"
    using pub seg loop shrink
    by (auto simp: tick_recover_def current_segment_Building ibind_def Let_def publish_current_def task_queue_clear_def demo_cur start_ingest_def
        open_new_heads_def forked_ingestion_def demo_sel demo_source_def)
  then show ?thesis using recovery_repeats [of forked_ingestion ?s ?sv ?w] by (auto simp: demo_cur)
qed

end
