(* ===== verification/Spec2Isabelle.thy ===== *)
theory Spec2Isabelle
  imports Compaction Backfill IngestionRun
begin

text \<open>
  \<^bold>\<open>Starkstream DNA.\<close> A server for filtered streams of blockchain data. An ingestion service follows a chain
  and writes one object per block and a record of the canonical chain; a compaction service turns finalized blocks into
  segments and groups of segments with indexes; a server reads both, follows the state the services publish in
  etcd, and sends every client the data its filters select, in chain order and with reorganisations announced. All parts
  share a bucket in an object store and a few keys in etcd.

  \<^bold>\<open>Conventions.\<close> Theory \<open>Prelude\<close>: a Rust result is an \<open>outcome\<close>, \<open>Ok\<close>, \<open>Err\<close> or \<open>Panic\<close> (indexing
  out of range, \<open>unwrap\<close>, a failed assertion); a \<open>u64\<close> is a \<open>nat\<close> below \<open>u64_lim\<close> whose operations wrap as in the
  release profile; a \<open>BTreeMap\<close> is a sorted association list. Theory \<open>Effects\<close>: code that talks to the outside is a
  function of the state \<open>'w\<close> of everything outside (\<open>io\<close>). Everything that is not in the repository is an argument: the cloud
  SDKs, etcd, the file cache, rkyv, zstd, crc32, roaring bitmaps, prost, the clock, the choices of \<open>select!\<close>, cancellation.
  What the code relies on is the assumption of a locale, and each locale is interpreted on an
  in-memory bucket and key-value store (\<open>mem_world\<close>) with the definitions of the model.

  \<^bold>\<open>The chain.\<close> \<open>Cursor\<close> is \<open>common/src/core.rs\<close>. \<open>Chain\<close> is \<open>common/src/chain.rs\<close>: the builder
  with \<open>grow\<close>, \<open>shrink\<close>, \<open>take_segment\<close>, segments and \<open>reconnect\<close>. \<open>ChainInv\<close> has the invariant
  \<open>building_ok\<close>, kept by every operation. \<open>ChainSpec\<close> has the abstract view of \<open>spec/reorg_detection/view.qnt\<close>, which
  the builder refines, the runs of the builder (\<open>chain_run\<close>), and what each operation does. \<open>Reorg\<close> shows that a
  client with the cursor of any block that was ever canonical gets back to the canonical chain.

  \<^bold>\<open>Storage.\<close> \<open>Keys\<close> has the names of all objects, which never collide, \<open>ObjectStore\<close> the framing with checksum and compression
  (\<open>common/src/object_store\<close>), \<open>ChainStore\<close> the chain segments and snapshots (\<open>chain_store.rs\<close>), \<open>BlockStore\<close> blocks,
  segments and groups (\<open>block_store.rs\<close>): what was written is read back, and a deletion removes one block.
  \<open>StateClient\<close> is the state in etcd (\<open>etcd/src/kv.rs\<close>, \<open>ingestion/state_client.rs\<close>, \<open>options_store.rs\<close>). The laws of
  etcd (\<open>etcd_store\<close>) let other clients write before and after every request, and have an environment with a rival writer
  beside the quiet one. \<open>put_if_higher\<close> never lowers a value, and every value put is read and reported by the watch.
  \<open>Lock\<close> is \<open>etcd/src/lock.rs\<close>.

  \<^bold>\<open>Ingestion.\<close> \<open>Ingestion\<close> is \<open>common/src/ingestion/service.rs\<close> with the loop of \<open>ingestion/mod.rs\<close>: \<open>initialize\<close>,
  the ticks of the two states, the task queue, publication and recovery. \<open>IngestionRun\<close> shows that each run is a run of the
  archive (\<open>archive_run\<close> of \<open>FullChain\<close>) with all of it stored; that it starts from a fresh store or from any snapshot such a run
  published, and leaves one (\<open>resumable\<close>), so that restarts compose; and where a recovery ends. It assumes that the source
  answers with the blocks asked for (\<open>source_ok\<close>) and that no other client writes the pointer to the recent segment, which the
  lock of the service is for. A tick that fails ends the run; what such a tick leaves is not shown.

  \<^bold>\<open>The chain view.\<close> \<open>FullChain\<close> is \<open>chain_view/full.rs\<close>: following \<open>get_next_cursor\<close> visits every block of the archive and
  the recent segment once, in order, and the answer to every cursor from the starting block on is determined.
  \<open>ChainView\<close> is \<open>chain_view/view.rs\<close> and \<open>sync.rs\<close>: segments and groups partition the blocks, and a published segment is installed.

  \<^bold>\<open>Indexes and filters.\<close> \<open>Bitmap\<close> is \<open>index.rs\<close> and \<open>join.rs\<close>, \<open>Query\<close> is \<open>fragment.rs\<close>, \<open>segment.rs\<close>, \<open>query.rs\<close> and
  \<open>data_stream/filter.rs\<close>: a filter selects the rows all its conditions allow.

  \<^bold>\<open>Compaction.\<close> \<open>Segments\<close> is \<open>compaction/segment_builder.rs\<close> and the access to fragments through blocks or segments,
  which agree. \<open>SegmentGroups\<close> is \<open>compaction/group_builder.rs\<close>: the group index misses no block. \<open>Compaction\<close> has the
  services: written segments and groups are readable, and pruning deletes only blocks that are in a group.

  \<^bold>\<open>Streaming.\<close> \<open>SegmentStream\<close> is \<open>data_stream/segment_stream.rs\<close>: no block a filter selects is lost, and the producer
  ends. \<open>Encoding\<close> and \<open>FilterFragment\<close> are the encoding and \<open>filter_fragment\<close> of \<open>data_stream/stream.rs\<close>: the message
  decodes to exactly the selected rows. \<open>DataStream\<close> is the state machine of a client, \<open>Backfill\<close> the composition: a tick over
  compacted blocks sends what filtering each stored block would send.

  \<^bold>\<open>Fuel and bounds.\<close> Loops that end by themselves are recursive functions with a termination proof, or take as fuel
  a number that is shown to be enough (the pruning loop, the segment stream). The retry of \<open>put_if_higher\<close>, the wait
  for the lock, and the main loops of the services run as long as the outside lets them; their fuel counts the rounds, and
  running out of it is a result of its own. Properties of them hold for every number of rounds.

  \<^bold>\<open>Not modelled.\<close> The Starknet block source, filters and protocol conversions, the gRPC server, the JSON-RPC
  provider and cloud clients (requests to other systems), command lines and process wiring, debugging commands, metrics
  and logs, the benchmark. Tasks that run concurrently in the code run here when their result is
  awaited, and the producer of a segment stream before its consumer; intervals appear as events that may occur at
  any time; a stream that is cancelled in the middle of a tick is dropped.
\<close>

end
